(* ===== verification/Prelude.thy ===== *)
theory Prelude
  imports Main "HOL-Library.Word"
begin

text \<open>
  Shared vocabulary of the development: the machine integer types of the sources, the outcomes
  of operations that the C++ sources leave undefined, raw storage with object lifetimes, and the
  arithmetic of ring buffers.
\<close>

section \<open>Machine integers\<close>

unbundle bit_operations_syntax

type_synonym u8 = "8 word"
type_synonym u16 = "16 word"
type_synonym u32 = "32 word"
type_synonym u64 = "64 word"

named_theorems unat_simps \<open>reading machine arithmetic as arithmetic on natural numbers\<close>

lemma unat_less_2p: "unat (a :: 'n::len word) < 2 ^ LENGTH('n)"
  by (rule unsigned_less)

lemma unat_add_no_wrap [unat_simps]:
  "unat a + unat b < 2 ^ LENGTH('n) \<Longrightarrow> unat (a + b :: 'n::len word) = unat a + unat b"
  by (simp add: unat_word_ariths)

lemma unat_add_one_no_wrap [unat_simps]:
  "unat a + 1 < 2 ^ LENGTH('n) \<Longrightarrow> unat (a + 1 :: 'n::len word) = unat a + 1"
  by (simp add: unat_word_ariths unsigned_1)

lemma unat_sub_no_wrap [unat_simps]:
  "b \<le> a \<Longrightarrow> unat (a - b :: 'n::len word) = unat a - unat b"
  by (rule unat_sub)

lemma unat_sub_one [unat_simps]: "a \<noteq> 0 \<Longrightarrow> unat (a - 1 :: 'n::len word) = unat a - 1"
  by (metis unat_minus_one)

lemma unat_inc_less [unat_simps]:
  "i < (n :: 'n::len word) \<Longrightarrow> unat (i + 1) = unat i + 1"
proof -
  assume "i < n"
  then have "unat i + 1 \<le> unat n"
    by (simp add: word_less_nat_alt)
  then have "unat i + 1 < 2 ^ LENGTH('n)"
    using unat_less_2p [of n] by (rule le_less_trans)
  then show ?thesis
    by (rule unat_add_one_no_wrap)
qed

lemma unat_ucast_mod: "unat (ucast (a :: 'm::len word) :: 'n::len word) = unat a mod 2 ^ LENGTH('n)"
  by (simp add: unsigned_ucast_eq take_bit_eq_mod)

lemma unat_ucast_small:
  "unat (a :: 'm::len word) < 2 ^ LENGTH('n) \<Longrightarrow> unat (ucast a :: 'n::len word) = unat a"
  by (simp add: unat_ucast_mod)

lemma unat_ucast_up [unat_simps]:
  assumes "LENGTH('m) \<le> LENGTH('n)"
  shows "unat (ucast (a :: 'm::len word) :: 'n::len word) = unat a"
proof (rule unat_ucast_small)
  have "unat a < 2 ^ LENGTH('m)"
    by (rule unat_less_2p)
  also have "(2::nat) ^ LENGTH('m) \<le> 2 ^ LENGTH('n)"
    using assms by simp
  finally show "unat a < 2 ^ LENGTH('n)" .
qed

lemma unat_u32_bound: "unat (a :: u32) < 4294967296"
  using unat_less_2p [of a] by simp

lemma unat_u64_bound: "unat (a :: u64) < 18446744073709551616"
  using unat_less_2p [of a] by simp

lemma unat_mod_id [simp]:
  "unat (a :: u32) mod 4294967296 = unat a"
  "unat (a :: u32) mod 18446744073709551616 = unat a"
  "unat (b :: u64) mod 18446744073709551616 = unat b"
  using unat_u32_bound [of a] unat_u64_bound [of b] by (intro mod_less; linarith)+

section \<open>Outcomes\<close>

text \<open>
  What the sources leave undefined (a null or out-of-range access, the use of an object outside
  its lifetime, a division by zero, a loop that never ends), what they throw and the checks that end
  the program is a value of
  \<open>fault\<close>; an operation that may meet one returns \<open>fault + 'a\<close>.
\<close>

datatype fault =
    Null_deref
  | Out_of_range
  | Dead_object
  | Div_by_zero
  | Diverges
  | Bad_iterator
  | Bad_function_call
  | Invalid_argument
  | Range_error
  | Length_error
  | Fatal_check

definition bindE :: "'e + 'a \<Rightarrow> ('a \<Rightarrow> 'e + 'b) \<Rightarrow> 'e + 'b" where
  "bindE m f = (case m of Inl e \<Rightarrow> Inl e | Inr x \<Rightarrow> f x)"

lemma bindE_simps [simp]: "bindE (Inl e) f = Inl e" "bindE (Inr x) f = f x"
  by (simp_all add: bindE_def)

lemma bindE_eq_Inr: "bindE m f = Inr y \<longleftrightarrow> (\<exists>x. m = Inr x \<and> f x = Inr y)"
  by (cases m) simp_all

lemma bindE_cong [fundef_cong]:
  "m = m' \<Longrightarrow> (\<And>x. m' = Inr x \<Longrightarrow> f x = g x) \<Longrightarrow> bindE m f = bindE m' g"
  by (cases m') simp_all

lemma bindE_assoc: "bindE (bindE m f) g = bindE m (\<lambda>x. bindE (f x) g)"
  by (cases m) simp_all

text \<open>A loop that does not end is \<open>None\<close> in the option monad.\<close>

definition returns :: "'a option \<Rightarrow> fault + 'a" where
  "returns r = (case r of None \<Rightarrow> Inl Diverges | Some x \<Rightarrow> Inr x)"

lemma returns_simps [simp]: "returns None = Inl Diverges" "returns (Some x) = Inr x"
  by (simp_all add: returns_def)

section \<open>Raw storage\<close>

text \<open>
  A block of raw storage is a list of slots; a slot holds \<open>Some x\<close> while an object lives in it
  and \<open>None\<close> before placement new and after the destructor. A pointer to a block is \<open>None\<close>
  when it is null.
\<close>

type_synonym 'a storage = "'a option list option"

definition construct_at :: "'a storage \<Rightarrow> nat \<Rightarrow> 'a \<Rightarrow> fault + 'a storage" where
  "construct_at p i x =
     (case p of None \<Rightarrow> Inl Null_deref
      | Some s \<Rightarrow> if i < length s then Inr (Some (s[i := Some x])) else Inl Out_of_range)"

definition read_at :: "'a storage \<Rightarrow> nat \<Rightarrow> fault + 'a" where
  "read_at p i =
     (case p of None \<Rightarrow> Inl Null_deref
      | Some s \<Rightarrow> if i < length s
                 then (case s ! i of None \<Rightarrow> Inl Dead_object | Some x \<Rightarrow> Inr x)
                 else Inl Out_of_range)"

definition assign_at :: "'a storage \<Rightarrow> nat \<Rightarrow> 'a \<Rightarrow> fault + 'a storage" where
  "assign_at p i x = bindE (read_at p i) (\<lambda>_. construct_at p i x)"

definition destroy_at :: "'a storage \<Rightarrow> nat \<Rightarrow> fault + 'a storage" where
  "destroy_at p i =
     bindE (read_at p i) (\<lambda>_. case p of None \<Rightarrow> Inl Null_deref | Some s \<Rightarrow> Inr (Some (s[i := None])))"

lemma construct_at_ok [simp]:
  "i < length s \<Longrightarrow> construct_at (Some s) i x = Inr (Some (s[i := Some x]))"
  by (simp add: construct_at_def)

lemma read_at_ok [simp]: "i < length s \<Longrightarrow> s ! i = Some x \<Longrightarrow> read_at (Some s) i = Inr x"
  by (simp add: read_at_def)

lemma assign_at_ok [simp]:
  "i < length s \<Longrightarrow> s ! i = Some y \<Longrightarrow> assign_at (Some s) i x = Inr (Some (s[i := Some x]))"
  by (simp add: assign_at_def)

lemma destroy_at_ok [simp]:
  "i < length s \<Longrightarrow> s ! i = Some y \<Longrightarrow> destroy_at (Some s) i = Inr (Some (s[i := None]))"
  by (simp add: destroy_at_def)

section \<open>Ring buffers\<close>

text \<open>
  The slots of a ring of \<open>c\<close> slots that a window of \<open>n\<close> elements from slot \<open>s\<close> uses, and
  the elements in that window, oldest first.
\<close>

definition ring_idx :: "nat \<Rightarrow> nat \<Rightarrow> nat \<Rightarrow> nat set" where
  "ring_idx s n c = (\<lambda>i. (s + i) mod c) ` {..<n}"

definition ring_list :: "'a list \<Rightarrow> nat \<Rightarrow> nat \<Rightarrow> nat \<Rightarrow> 'a list" where
  "ring_list xs s n c = map (\<lambda>i. xs ! ((s + i) mod c)) [0..<n]"

lemma mod_add_inj:
  fixes c :: nat
  assumes "i < c" "j < c" "(s + i) mod c = (s + j) mod c"
  shows "i = j"
proof (rule ccontr)
  assume "i \<noteq> j"
  have "(int s + int i) mod int c = (int s + int j) mod int c"
    using assms(3) by (metis of_nat_add of_nat_mod)
  then have "int c dvd int i - int j"
    by (simp add: mod_eq_dvd_iff)
  moreover have "\<bar>int i - int j\<bar> < int c" and "int i - int j \<noteq> 0"
    using assms(1,2) \<open>i \<noteq> j\<close> by auto
  ultimately show False
    using dvd_imp_le_int [of "int i - int j" "int c"] by auto
qed

lemma ring_prev [simp]: "st < c \<Longrightarrow> (Suc st mod c + (c - 1)) mod c = st"
proof -
  assume "st < c"
  have "(Suc st mod c + (c - 1)) mod c = (Suc st + (c - 1)) mod c"
    by (rule mod_add_left_eq)
  also have "Suc st + (c - 1) = st + c"
    using \<open>st < c\<close> by simp
  finally show ?thesis
    using \<open>st < c\<close> by simp
qed

lemma length_ring_list [simp]: "length (ring_list xs s n c) = n"
  by (simp add: ring_list_def)

lemma ring_list_0 [simp]: "ring_list xs s 0 c = []"
  by (simp add: ring_list_def)

lemma nth_ring_list: "i < n \<Longrightarrow> ring_list xs s n c ! i = xs ! ((s + i) mod c)"
  by (simp add: ring_list_def)

lemma ring_idx_0 [simp]: "ring_idx s 0 c = {}"
  by (simp add: ring_idx_def)

lemma ring_idx_Suc: "ring_idx s (Suc n) c = insert ((s + n) mod c) (ring_idx s n c)"
  by (auto simp: ring_idx_def lessThan_Suc)

lemma ring_idx_fresh: "n < c \<Longrightarrow> (s + n) mod c \<notin> ring_idx s n c"
proof
  assume "n < c" "(s + n) mod c \<in> ring_idx s n c"
  then obtain i where "i < n" "(s + n) mod c = (s + i) mod c"
    by (auto simp: ring_idx_def)
  with \<open>n < c\<close> show False
    using mod_add_inj [of n c i s] by simp
qed

lemma ring_list_Suc: "ring_list xs s (Suc n) c = ring_list xs s n c @ [xs ! ((s + n) mod c)]"
  by (simp add: ring_list_def)

lemma ring_list_update_outside:
  "j \<notin> ring_idx s n c \<Longrightarrow> ring_list (xs[j := x]) s n c = ring_list xs s n c"
proof -
  assume j: "j \<notin> ring_idx s n c"
  have "xs[j := x] ! ((s + i) mod c) = xs ! ((s + i) mod c)" if "i < n" for i
    using j that by (intro nth_list_update_neq) (auto simp: ring_idx_def)
  then show ?thesis
    by (simp add: ring_list_def)
qed

lemma ring_list_push_back:
  assumes "n < c" "c \<le> length xs"
  shows "ring_list (xs[(s + n) mod c := x]) s (Suc n) c = ring_list xs s n c @ [x]"
proof -
  have "(s + n) mod c < length xs"
    using assms by (meson mod_less_divisor less_le_trans le_less_trans zero_le)
  then show ?thesis
    using assms(1) by (simp add: ring_list_Suc ring_list_update_outside ring_idx_fresh)
qed

lemma ring_list_Cons:
  "ring_list xs s (Suc n) c = xs ! (s mod c) # ring_list xs (Suc s mod c) n c"
proof -
  have "ring_list xs s (Suc n) c = map (\<lambda>i. xs ! ((s + i) mod c)) (0 # map Suc [0..<n])"
    by (simp add: ring_list_def map_Suc_upt upt_conv_Cons del: upt_Suc)
  then show ?thesis
    by (simp add: ring_list_def comp_def mod_add_left_eq)
qed

lemma ring_idx_Cons:
  "ring_idx s (Suc n) c = insert (s mod c) (ring_idx (Suc s mod c) n c)"
proof -
  have "{..<Suc n} = insert 0 (Suc ` {..<n})"
    by (simp add: lessThan_Suc_eq_insert_0)
  then show ?thesis
    by (simp add: ring_idx_def image_image mod_add_left_eq)
qed

lemma ring_list_pop_front: "ring_list xs (Suc s mod c) n c = tl (ring_list xs s (Suc n) c)"
  by (simp add: ring_list_Cons)

lemma ring_idx_pop_front:
  assumes "Suc n \<le> c"
  shows "ring_idx (Suc s mod c) n c = ring_idx s (Suc n) c - {s mod c}"
proof -
  have "s mod c \<notin> ring_idx (Suc s mod c) n c"
  proof
    assume "s mod c \<in> ring_idx (Suc s mod c) n c"
    then obtain i where "i < n" "(s + 0) mod c = (s + Suc i) mod c"
      by (auto simp: ring_idx_def mod_add_left_eq)
    then show False
      using mod_add_inj [of 0 c "Suc i" s] assms by linarith
  qed
  then show ?thesis
    using ring_idx_Cons [of s n c] by simp
qed

lemma ring_list_push_front:
  assumes "n < c" "c \<le> length xs" "s' < c" "s = Suc s' mod c"
  shows "ring_list (xs[s' := x]) s' (Suc n) c = x # ring_list xs s n c"
proof -
  have "s' \<notin> ring_idx s n c"
    using ring_idx_pop_front [of n c s'] assms by auto
  then show ?thesis
    using assms by (simp add: ring_list_Cons ring_list_update_outside)
qed

lemma ring_idx_push_front:
  "s' < c \<Longrightarrow> s = Suc s' mod c \<Longrightarrow> ring_idx s' (Suc n) c = insert s' (ring_idx s n c)"
  by (simp add: ring_idx_Cons)

lemma ring_idx_less: "j \<in> ring_idx s n c \<Longrightarrow> 0 < c \<Longrightarrow> j < c"
  by (auto simp: ring_idx_def)

lemma set_ring_list: "set (ring_list xs s n c) = (\<lambda>j. xs ! j) ` ring_idx s n c"
  by (auto simp: ring_list_def ring_idx_def)

lemmas ring_simps =
  ring_list_push_back ring_list_pop_front ring_list_push_front ring_list_update_outside
  ring_idx_fresh ring_idx_Suc ring_idx_pop_front ring_idx_push_front

end
