(* ===== verification/Queue_Spec.thy ===== *)
theory Queue_Spec
  imports Prelude
begin

text \<open>
  The contract that the two fixed-capacity queues of the library share: a queue holds a window
  of the most recent items, oldest first, and pushing into a full queue displaces the oldest
  item.
\<close>

definition overwrite :: "nat \<Rightarrow> 'a list \<Rightarrow> 'a \<Rightarrow> 'a list" where
  "overwrite cap xs x = (if length xs < cap then xs @ [x] else tl (xs @ [x]))"

locale overwriting_queue =
  fixes items :: "'q \<Rightarrow> 'a list"
    and capacity :: "'q \<Rightarrow> nat"
    and invar :: "'q \<Rightarrow> bool"
    and push :: "'a \<Rightarrow> 'q \<Rightarrow> 'q"
  assumes items_push: "invar q \<Longrightarrow> items (push x q) = overwrite (capacity q) (items q) x"
    and capacity_push: "invar q \<Longrightarrow> capacity (push x q) = capacity q"
    and invar_push: "invar q \<Longrightarrow> invar (push x q)"
    and items_bounded: "invar q \<Longrightarrow> length (items q) \<le> capacity q"
begin

lemma push_all_window:
  "invar q \<Longrightarrow>
     invar (fold push xs q) \<and> capacity (fold push xs q) = capacity q \<and>
     items (fold push xs q) =
       (let ys = items q @ xs in drop (length ys - capacity q) ys)"
proof (induction xs rule: rev_induct)
  case Nil
  then show ?case using items_bounded [of q] by (simp add: Let_def)
next
  case (snoc x xs)
  let ?r = "fold push xs q" and ?ys = "items q @ xs" and ?c = "capacity q"
  have r: "invar ?r" "capacity ?r = ?c" "items ?r = drop (length ?ys - ?c) ?ys"
    using snoc by (auto simp: Let_def)
  have "overwrite ?c (drop (length ?ys - ?c) ?ys) x = drop (length (?ys @ [x]) - ?c) (?ys @ [x])"
  proof (cases "length ?ys < ?c")
    case True
    then show ?thesis by (simp add: overwrite_def)
  next
    case False
    then have eq: "drop (length ?ys - ?c) ?ys @ [x] = drop (length ?ys - ?c) (?ys @ [x])"
      by simp
    from False have "length (?ys @ [x]) - ?c = Suc (length ?ys - ?c)"
      by simp
    with False show ?thesis
      unfolding overwrite_def eq by (simp add: drop_Suc tl_drop del: drop_append)
  qed
  then show ?case
    using r items_push [of ?r x] capacity_push [of ?r x] invar_push [of ?r x]
    by (simp add: Let_def)
qed

lemma push_all_recent:
  assumes "invar q" "capacity q \<le> length xs"
  shows "items (fold push xs q) = drop (length xs - capacity q) xs"
proof -
  have "length (items q @ xs) - capacity q = length (items q) + (length xs - capacity q)"
    using assms(2) by simp
  then show ?thesis
    using push_all_window [OF assms(1), of xs] by (simp add: Let_def)
qed

end

end
