(* ===== verification/Bounded_Queue.thy ===== *)
theory Bounded_Queue
  imports Queue_Spec
begin

text \<open>
  \<open>turbo::BoundedQueue\<close> (turbo/container/bounded\_queue.h): a double-ended queue in a block of
  raw storage. All indices are 32-bit words, objects are constructed and destroyed in place, and
  an operation that touches a null pointer, a slot outside the block or a slot without a live
  object is a \<open>fault\<close>.
\<close>

section \<open>State\<close>

datatype storage_ownership = OWNS_STORAGE | NOT_OWN_STORAGE

record 'a bounded_queue =
  bq_count :: u32
  bq_cap :: u32
  bq_start :: u32
  bq_ownership :: storage_ownership
  bq_items :: "'a storage"

section \<open>Operations\<close>

text \<open>\<open>_mod\<close> subtracts \<open>cap\<close> until the offset is below it; with \<open>cap = 0\<close> it never ends.\<close>

partial_function (option) bq_mod :: "u32 \<Rightarrow> u32 \<Rightarrow> u32 option" where
  "bq_mod off cap = (if off \<ge> cap then bq_mod (off - cap) cap else Some off)"

definition bq_slot :: "u32 \<Rightarrow> u32 \<Rightarrow> fault + nat" where
  "bq_slot off cap = bindE (returns (bq_mod off cap)) (\<lambda>i. Inr (unat i))"

text \<open>
  The constructor over caller's memory: \<open>mem\<close> is the caller's block, \<open>memsize / sizeof(T)\<close> is
  narrowed to 32 bits.
\<close>

definition bq_from_memory ::
    "u64 \<Rightarrow> 'a storage \<Rightarrow> u64 \<Rightarrow> storage_ownership \<Rightarrow> 'a bounded_queue" where
  "bq_from_memory sizeof_T mem memsize own =
     \<lparr>bq_count = 0, bq_cap = ucast (memsize div sizeof_T), bq_start = 0,
      bq_ownership = own, bq_items = mem\<rparr>"

text \<open>
  The allocating constructor: \<open>malloc(capacity * sizeof(T))\<close> computes the size modulo
  \<open>2 ^ 64\<close> and may return null; \<open>_cap\<close> is the capacity narrowed to 32 bits.
\<close>

definition bq_new :: "bool \<Rightarrow> u64 \<Rightarrow> u64 \<Rightarrow> 'a bounded_queue" where
  "bq_new malloc_ok sizeof_T capacity =
     \<lparr>bq_count = 0, bq_cap = ucast capacity, bq_start = 0, bq_ownership = OWNS_STORAGE,
      bq_items = (if malloc_ok
                  then Some (replicate (unat (capacity * sizeof_T) div unat sizeof_T) None)
                  else None)\<rparr>"

definition bq_default :: "'a bounded_queue" where
  "bq_default =
     \<lparr>bq_count = 0, bq_cap = 0, bq_start = 0, bq_ownership = NOT_OWN_STORAGE, bq_items = None\<rparr>"

definition bq_push :: "'a \<Rightarrow> 'a bounded_queue \<Rightarrow> fault + (bool \<times> 'a bounded_queue)" where
  "bq_push item q =
     (if bq_count q < bq_cap q
      then bindE (bq_slot (bq_start q + bq_count q) (bq_cap q)) (\<lambda>i.
           bindE (construct_at (bq_items q) i item) (\<lambda>m.
           Inr (True, q\<lparr>bq_items := m, bq_count := bq_count q + 1\<rparr>)))
      else Inr (False, q))"

definition bq_elim_push :: "'a \<Rightarrow> 'a bounded_queue \<Rightarrow> fault + 'a bounded_queue" where
  "bq_elim_push item q =
     (if bq_count q < bq_cap q
      then bindE (bq_slot (bq_start q + bq_count q) (bq_cap q)) (\<lambda>i.
           bindE (construct_at (bq_items q) i item) (\<lambda>m.
           Inr (q\<lparr>bq_items := m, bq_count := bq_count q + 1\<rparr>)))
      else bindE (assign_at (bq_items q) (unat (bq_start q)) item) (\<lambda>m.
           bindE (returns (bq_mod (bq_start q + 1) (bq_cap q))) (\<lambda>s.
           Inr (q\<lparr>bq_items := m, bq_start := s\<rparr>))))"

text \<open>
  The overloads \<open>T *push()\<close> and \<open>T *push_top()\<close> construct a default item, here the
  parameter \<open>dflt\<close>, and return its address, here its slot.
\<close>

definition bq_push_default ::
    "'a \<Rightarrow> 'a bounded_queue \<Rightarrow> fault + (nat option \<times> 'a bounded_queue)" where
  "bq_push_default dflt q =
     (if bq_count q < bq_cap q
      then bindE (bq_slot (bq_start q + bq_count q) (bq_cap q)) (\<lambda>i.
           bindE (construct_at (bq_items q) i dflt) (\<lambda>m.
           Inr (Some i, q\<lparr>bq_items := m, bq_count := bq_count q + 1\<rparr>)))
      else Inr (None, q))"

definition bq_prev_start :: "'a bounded_queue \<Rightarrow> u32" where
  "bq_prev_start q = (if bq_start q \<noteq> 0 then bq_start q - 1 else bq_cap q - 1)"

definition bq_push_top :: "'a \<Rightarrow> 'a bounded_queue \<Rightarrow> fault + (bool \<times> 'a bounded_queue)" where
  "bq_push_top item q =
     (if bq_count q < bq_cap q
      then let s = bq_prev_start q in
           bindE (construct_at (bq_items q) (unat s) item) (\<lambda>m.
           Inr (True, q\<lparr>bq_items := m, bq_start := s, bq_count := bq_count q + 1\<rparr>))
      else Inr (False, q))"

definition bq_push_top_default ::
    "'a \<Rightarrow> 'a bounded_queue \<Rightarrow> fault + (nat option \<times> 'a bounded_queue)" where
  "bq_push_top_default dflt q =
     (if bq_count q < bq_cap q
      then let s = bq_prev_start q in
           bindE (construct_at (bq_items q) (unat s) dflt) (\<lambda>m.
           Inr (Some (unat s), q\<lparr>bq_items := m, bq_start := s, bq_count := bq_count q + 1\<rparr>))
      else Inr (None, q))"

definition bq_pop :: "'a bounded_queue \<Rightarrow> fault + (bool \<times> 'a bounded_queue)" where
  "bq_pop q =
     (if bq_count q \<noteq> 0
      then bindE (destroy_at (bq_items q) (unat (bq_start q))) (\<lambda>m.
           bindE (returns (bq_mod (bq_start q + 1) (bq_cap q))) (\<lambda>s.
           Inr (True, q\<lparr>bq_count := bq_count q - 1, bq_items := m, bq_start := s\<rparr>)))
      else Inr (False, q))"

text \<open>\<open>bool pop(T *item)\<close>: the item copied out, or \<open>None\<close> for the result \<open>false\<close>.\<close>

definition bq_pop_item :: "'a bounded_queue \<Rightarrow> fault + ('a option \<times> 'a bounded_queue)" where
  "bq_pop_item q =
     (if bq_count q \<noteq> 0
      then bindE (read_at (bq_items q) (unat (bq_start q))) (\<lambda>x.
           bindE (destroy_at (bq_items q) (unat (bq_start q))) (\<lambda>m.
           bindE (returns (bq_mod (bq_start q + 1) (bq_cap q))) (\<lambda>s.
           Inr (Some x, q\<lparr>bq_count := bq_count q - 1, bq_items := m, bq_start := s\<rparr>))))
      else Inr (None, q))"

definition bq_pop_bottom :: "'a bounded_queue \<Rightarrow> fault + (bool \<times> 'a bounded_queue)" where
  "bq_pop_bottom q =
     (if bq_count q \<noteq> 0
      then let n = bq_count q - 1 in
           bindE (bq_slot (bq_start q + n) (bq_cap q)) (\<lambda>i.
           bindE (destroy_at (bq_items q) i) (\<lambda>m.
           Inr (True, q\<lparr>bq_count := n, bq_items := m\<rparr>)))
      else Inr (False, q))"

definition bq_pop_bottom_item ::
    "'a bounded_queue \<Rightarrow> fault + ('a option \<times> 'a bounded_queue)" where
  "bq_pop_bottom_item q =
     (if bq_count q \<noteq> 0
      then let n = bq_count q - 1 in
           bindE (bq_slot (bq_start q + n) (bq_cap q)) (\<lambda>i.
           bindE (read_at (bq_items q) i) (\<lambda>x.
           bindE (destroy_at (bq_items q) i) (\<lambda>m.
           Inr (Some x, q\<lparr>bq_count := n, bq_items := m\<rparr>))))
      else Inr (None, q))"

text \<open>The loop of \<open>clear()\<close>, from index \<open>i\<close>.\<close>

function bq_clear_loop :: "u32 \<Rightarrow> 'a bounded_queue \<Rightarrow> 'a storage \<Rightarrow> fault + 'a storage" where
  "bq_clear_loop i q m =
     (if i < bq_count q
      then bindE (bq_slot (bq_start q + i) (bq_cap q)) (\<lambda>j.
           bindE (destroy_at m j) (\<lambda>m'. bq_clear_loop (i + 1) q m'))
      else Inr m)"
  by pat_completeness auto
termination
proof (relation "measure (\<lambda>(i, q, m). unat (bq_count q) - unat i)")
  fix i :: u32 and q :: "'a bounded_queue" and m m' :: "'a storage"
  assume "i < bq_count q"
  then show "((i + 1, q, m'), i, q, m) \<in> measure (\<lambda>(i, q, m). unat (bq_count q) - unat i)"
    using unat_inc_less [of i "bq_count q"] by (simp add: word_less_nat_alt)
qed simp

declare bq_clear_loop.simps [simp del]

definition bq_clear :: "'a bounded_queue \<Rightarrow> fault + 'a bounded_queue" where
  "bq_clear q =
     bindE (bq_clear_loop 0 q (bq_items q)) (\<lambda>m.
     Inr (q\<lparr>bq_items := m, bq_count := 0, bq_start := 0\<rparr>))"

definition bq_destroy :: "'a bounded_queue \<Rightarrow> fault + 'a bounded_queue" where
  "bq_destroy q =
     bindE (bq_clear q) (\<lambda>q'.
     Inr (if bq_ownership q' = OWNS_STORAGE then q'\<lparr>bq_items := None\<rparr> else q'))"

text \<open>
  The accessors return an address inside the block, here the slot, or null. Reading through it
  is \<open>read_at\<close>.
\<close>

definition bq_top :: "'a bounded_queue \<Rightarrow> nat option" where
  "bq_top q = (if bq_count q \<noteq> 0 then Some (unat (bq_start q)) else None)"

text \<open>
  The index of \<open>top(size_t)\<close> and \<open>bottom(size_t)\<close> is 64-bit: the offset is computed at that
  width and then narrowed for \<open>_mod\<close>.
\<close>

definition bq_top_at :: "u64 \<Rightarrow> 'a bounded_queue \<Rightarrow> fault + nat option" where
  "bq_top_at index q =
     (if index < ucast (bq_count q)
      then bindE (bq_slot (ucast (ucast (bq_start q) + index)) (bq_cap q)) (\<lambda>i. Inr (Some i))
      else Inr None)"

definition bq_bottom :: "'a bounded_queue \<Rightarrow> fault + nat option" where
  "bq_bottom q =
     (if bq_count q \<noteq> 0
      then bindE (bq_slot (bq_start q + bq_count q - 1) (bq_cap q)) (\<lambda>i. Inr (Some i))
      else Inr None)"

definition bq_bottom_at :: "u64 \<Rightarrow> 'a bounded_queue \<Rightarrow> fault + nat option" where
  "bq_bottom_at index q =
     (if index < ucast (bq_count q)
      then bindE (bq_slot (ucast (ucast (bq_start q + bq_count q) - index - 1)) (bq_cap q))
             (\<lambda>i. Inr (Some i))
      else Inr None)"

definition bq_empty :: "'a bounded_queue \<Rightarrow> bool" where
  "bq_empty q \<longleftrightarrow> bq_count q = 0"

definition bq_full :: "'a bounded_queue \<Rightarrow> bool" where
  "bq_full q \<longleftrightarrow> bq_cap q = bq_count q"

definition bq_size :: "'a bounded_queue \<Rightarrow> u64" where
  "bq_size q = ucast (bq_count q)"

definition bq_capacity :: "'a bounded_queue \<Rightarrow> u64" where
  "bq_capacity q = ucast (bq_cap q)"

definition bq_max_capacity :: u64 where
  "bq_max_capacity = push_bit (4 * 8) 1 - 1"

definition bq_initialized :: "'a bounded_queue \<Rightarrow> bool" where
  "bq_initialized q \<longleftrightarrow> bq_items q \<noteq> None"

definition bq_swap ::
    "'a bounded_queue \<Rightarrow> 'a bounded_queue \<Rightarrow> 'a bounded_queue \<times> 'a bounded_queue" where
  "bq_swap q r = (r, q)"

section \<open>The invariant and the abstraction\<close>

text \<open>
  A block whose live slots are exactly the window of \<open>n\<close> slots from \<open>st\<close> in a ring of \<open>c\<close>.
\<close>

definition live_window :: "'a option list \<Rightarrow> nat \<Rightarrow> nat \<Rightarrow> nat \<Rightarrow> bool" where
  "live_window s st n c \<longleftrightarrow>
     st < c \<and> n \<le> c \<and> c \<le> length s \<and> (\<forall>j < length s. (s ! j \<noteq> None) = (j \<in> ring_idx st n c))"

definition bq_list :: "'a bounded_queue \<Rightarrow> 'a list" where
  "bq_list q =
     (case bq_items q of None \<Rightarrow> []
      | Some s \<Rightarrow> map the (ring_list s (unat (bq_start q)) (unat (bq_count q)) (unat (bq_cap q))))"

text \<open>
  The representation invariant. The bound \<open>2 ^ 31\<close> on the capacity is what keeps
  \<open>_start + _count\<close> from wrapping around.
\<close>

definition bq_inv :: "'a bounded_queue \<Rightarrow> bool" where
  "bq_inv q \<longleftrightarrow>
     unat (bq_cap q) \<le> 2 ^ 31 \<and>
     (if bq_cap q = 0 then bq_count q = 0
      else case bq_items q of None \<Rightarrow> False
           | Some s \<Rightarrow> live_window s (unat (bq_start q)) (unat (bq_count q)) (unat (bq_cap q)))"

abbreviation bq_capn :: "'a bounded_queue \<Rightarrow> nat" where
  "bq_capn q \<equiv> unat (bq_cap q)"

section \<open>Windows of live objects\<close>

lemma live_window_slot:
  "live_window s st n c \<Longrightarrow> (st + i) mod c < length s"
  unfolding live_window_def by (meson less_le_trans mod_less_divisor le_less_trans zero_le)

lemma live_window_live:
  assumes "live_window s st n c" "i < n"
  obtains x where "s ! ((st + i) mod c) = Some x"
  using assms live_window_slot [OF assms(1), of i]
  by (fastforce simp: live_window_def ring_idx_def)

lemma live_window_start:
  assumes "live_window s st n c" "0 < n"
  obtains x where "st < length s" "s ! st = Some x"
  using assms live_window_live [OF assms(1), of 0] by (auto simp: live_window_def)

lemma live_window_push_back:
  assumes "live_window s st n c" "n < c"
  shows "live_window (s[(st + n) mod c := Some x]) st (Suc n) c"
  using assms live_window_slot [OF assms(1), of n]
  by (auto simp: live_window_def ring_idx_Suc nth_list_update)

lemma live_window_pop_front:
  assumes "live_window s st (Suc n) c"
  shows "live_window (s[st := None]) (Suc st mod c) n c"
  using assms
  by (auto simp: live_window_def ring_idx_pop_front nth_list_update)

lemma live_window_pop_back:
  assumes "live_window s st (Suc n) c"
  shows "live_window (s[(st + n) mod c := None]) st n c"
  using assms ring_idx_fresh [of n c st] live_window_slot [OF assms, of n]
  by (auto simp: live_window_def ring_idx_Suc nth_list_update)

lemma live_window_push_front:
  assumes "live_window s st n c" "n < c" "s' < c" "st = Suc s' mod c"
  shows "live_window (s[s' := Some x]) s' (Suc n) c"
  using assms by (auto simp: live_window_def ring_idx_push_front nth_list_update)

lemma live_window_rotate:
  assumes "live_window s st c c"
  shows "live_window (s[st := Some x]) (Suc st mod c) c c"
proof (cases c)
  case 0
  then show ?thesis using assms by (simp add: live_window_def)
next
  case (Suc n)
  have w: "live_window (s[st := None]) (Suc st mod c) n c"
    using assms Suc by (intro live_window_pop_front) simp
  have "(Suc st mod c + n) mod c = st"
    using assms ring_prev [of st c] Suc by (simp add: live_window_def)
  then show ?thesis
    using live_window_push_back [OF w, of x] Suc by simp
qed

lemma ring_list_rotate:
  assumes "st < c" "c \<le> length s"
  shows "ring_list (s[st := x]) (Suc st mod c) c c = tl (ring_list s st c c @ [x])"
proof (cases c)
  case 0
  then show ?thesis using assms by simp
next
  case (Suc n)
  have "(Suc st mod c + n) mod c = st"
    using assms ring_prev [of st c] Suc by simp
  then have "ring_list (s[st := x]) (Suc st mod c) (Suc n) c = ring_list s (Suc st mod c) n c @ [x]"
    using ring_list_push_back [of n c s "Suc st mod c" x] assms Suc by simp
  also have "\<dots> = tl (ring_list s st (Suc n) c @ [x])"
    by (simp add: ring_list_Cons)
  finally show ?thesis
    by (simp add: Suc)
qed

section \<open>Correctness\<close>

lemma bq_mod_unfold_less: "off < cap \<Longrightarrow> bq_mod off cap = Some off"
  by (subst bq_mod.simps) (simp add: not_le [symmetric])

lemma bq_mod_eq: "cap \<noteq> 0 \<Longrightarrow> bq_mod off cap = Some (off mod cap)"
proof (induction "unat off" arbitrary: off rule: less_induct)
  case less
  show ?case
  proof (cases "cap \<le> off")
    case False
    moreover from this have "off mod cap = off"
      by (intro word_unat_eq_iff [THEN iffD2]) (simp add: unat_mod_distrib word_le_nat_alt)
    ultimately show ?thesis
      by (simp add: bq_mod_unfold_less)
  next
    case True
    then have sub: "unat (off - cap) = unat off - unat cap"
      by (rule unat_sub_no_wrap)
    have "unat cap > 0"
      using less.prems by (simp add: unat_gt_0)
    then have "unat (off - cap) < unat off"
      using True sub by (simp add: word_le_nat_alt)
    then have "bq_mod (off - cap) cap = Some ((off - cap) mod cap)"
      using less by simp
    moreover have "(off - cap) mod cap = off mod cap"
    proof (rule word_unat_eq_iff [THEN iffD2])
      show "unat ((off - cap) mod cap) = unat (off mod cap)"
        using True by (simp add: unat_mod_distrib sub word_le_nat_alt le_mod_geq)
    qed
    ultimately show ?thesis
      using True by (subst bq_mod.simps) simp
  qed
qed

lemma bq_mod_zero: "bq_mod off 0 = None"
proof -
  have "\<not> (cap::u32) \<le> 0" if "bq_mod off cap = Some r" for off cap r
    using that by (rule bq_mod.raw_induct [where P = "\<lambda>off cap r. \<not> cap \<le> 0", rotated])
      (auto split: if_splits)
  then show ?thesis by (cases "bq_mod off 0") auto
qed

lemma bq_slot_ok:
  "cap \<noteq> 0 \<Longrightarrow> unat a + unat b < 2 ^ 32 \<Longrightarrow>
     bq_slot (a + b) cap = Inr ((unat a + unat b) mod unat cap)"
  by (simp add: bq_slot_def bq_mod_eq unat_mod_distrib unat_simps)

lemma bq_invE:
  assumes "bq_inv q" "bq_cap q \<noteq> 0"
  obtains s where "bq_items q = Some s"
    "live_window s (unat (bq_start q)) (unat (bq_count q)) (bq_capn q)"
    "bq_list q = map the (ring_list s (unat (bq_start q)) (unat (bq_count q)) (bq_capn q))"
    "unat (bq_start q) + unat (bq_count q) < 2 ^ 32"
proof -
  from assms obtain s where s: "bq_items q = Some s"
    and w: "live_window s (unat (bq_start q)) (unat (bq_count q)) (bq_capn q)"
    by (auto simp: bq_inv_def split: option.splits)
  moreover have "unat (bq_start q) + unat (bq_count q) < 2 ^ 32"
    using assms(1) w by (auto simp: bq_inv_def live_window_def)
  ultimately show ?thesis
    using that by (simp add: bq_list_def)
qed

lemma bq_invI:
  assumes "unat (bq_cap q) \<le> 2 ^ 31" "bq_cap q \<noteq> 0" "bq_items q = Some s"
    "live_window s (unat (bq_start q)) (unat (bq_count q)) (bq_capn q)"
  shows "bq_inv q"
  using assms by (simp add: bq_inv_def)

lemma length_bq_list: "bq_inv q \<Longrightarrow> length (bq_list q) = unat (bq_count q)"
  by (cases "bq_cap q = 0") (auto simp: bq_inv_def bq_list_def split: option.splits)

lemma bq_count_le: "bq_inv q \<Longrightarrow> unat (bq_count q) \<le> bq_capn q"
  by (auto simp: bq_inv_def live_window_def split: if_splits option.splits)

lemma bq_next_start:
  assumes "bq_inv q" "bq_cap q \<noteq> 0"
  shows "bq_mod (bq_start q + 1) (bq_cap q) = Some ((bq_start q + 1) mod bq_cap q)"
    "unat ((bq_start q + 1) mod bq_cap q) = Suc (unat (bq_start q)) mod bq_capn q"
proof -
  show "bq_mod (bq_start q + 1) (bq_cap q) = Some ((bq_start q + 1) mod bq_cap q)"
    using assms by (intro bq_mod_eq)
  have "bq_start q < bq_cap q"
    by (rule bq_invE [OF assms]) (simp add: live_window_def word_less_nat_alt)
  then have "unat (bq_start q + 1) = unat (bq_start q) + 1"
    by (rule unat_inc_less)
  then show "unat ((bq_start q + 1) mod bq_cap q) = Suc (unat (bq_start q)) mod bq_capn q"
    by (simp add: unat_mod_distrib)
qed

lemma bq_count_succ:
  "bq_count q < bq_cap q \<Longrightarrow> unat (bq_count q + 1) = Suc (unat (bq_count q))"
  using unat_inc_less [of "bq_count q" "bq_cap q"] by simp

text \<open>One push at the bottom, shared by \<open>push\<close>, \<open>elim_push\<close> and \<open>T *push()\<close>.\<close>

lemma bq_append:
  assumes "bq_inv q" "bq_count q < bq_cap q"
  shows "\<exists>i m. bq_slot (bq_start q + bq_count q) (bq_cap q) = Inr i \<and>
    construct_at (bq_items q) i x = Inr m \<and>
    bq_inv (q\<lparr>bq_items := m, bq_count := bq_count q + 1\<rparr>) \<and>
    bq_list (q\<lparr>bq_items := m, bq_count := bq_count q + 1\<rparr>) = bq_list q @ [x] \<and>
    read_at m i = Inr x"
proof -
  let ?st = "unat (bq_start q)" and ?n = "unat (bq_count q)" and ?c = "bq_capn q"
  have c: "bq_cap q \<noteq> 0"
    using assms(2) by auto
  obtain s where s: "bq_items q = Some s" and w: "live_window s ?st ?n ?c"
    and l: "bq_list q = map the (ring_list s ?st ?n ?c)" and b: "?st + ?n < 2 ^ 32"
    by (rule bq_invE [OF assms(1) c])
  let ?i = "(?st + ?n) mod ?c" and ?m = "Some (s[(?st + ?n) mod ?c := Some x])"
  have n: "?n < ?c"
    using assms(2) by (simp add: word_less_nat_alt)
  have i: "?i < length s"
    by (rule live_window_slot [OF w])
  have "bq_inv (q\<lparr>bq_items := ?m, bq_count := bq_count q + 1\<rparr>)"
    using assms c live_window_push_back [OF w n, of x]
    by (intro bq_invI) (simp_all add: bq_inv_def bq_count_succ)
  moreover have "bq_list (q\<lparr>bq_items := ?m, bq_count := bq_count q + 1\<rparr>) = bq_list q @ [x]"
    using l n w ring_list_push_back [of ?n ?c s ?st "Some x"]
    by (simp add: bq_list_def bq_count_succ [OF assms(2)] live_window_def)
  ultimately show ?thesis
    using c b s i by (intro exI [of _ ?i] exI [of _ ?m]) (simp add: bq_slot_ok)
qed

theorem bq_push_correct:
  assumes "bq_inv q"
  shows "\<exists>q'. bq_push x q = Inr (length (bq_list q) < bq_capn q, q') \<and> bq_inv q' \<and>
           bq_cap q' = bq_cap q \<and>
           bq_list q' = (if length (bq_list q) < bq_capn q then bq_list q @ [x] else bq_list q)"
proof (cases "bq_count q < bq_cap q")
  case True
  then have "length (bq_list q) < bq_capn q"
    using assms by (simp add: length_bq_list word_less_nat_alt)
  with True bq_append [OF assms True, of x] show ?thesis
    by (auto simp: bq_push_def)
next
  case False
  then have "\<not> length (bq_list q) < bq_capn q"
    using assms by (simp add: length_bq_list word_less_nat_alt)
  with False assms show ?thesis
    by (simp add: bq_push_def)
qed

theorem bq_elim_push_correct:
  assumes "bq_inv q" "bq_cap q \<noteq> 0"
  shows "\<exists>q'. bq_elim_push x q = Inr q' \<and> bq_inv q' \<and> bq_cap q' = bq_cap q \<and>
           bq_list q' = overwrite (bq_capn q) (bq_list q) x"
proof (cases "bq_count q < bq_cap q")
  case True
  then have "length (bq_list q) < bq_capn q"
    using assms by (simp add: length_bq_list word_less_nat_alt)
  with True bq_append [OF assms(1) True, of x] show ?thesis
    by (auto simp: bq_elim_push_def overwrite_def)
next
  case False
  let ?st = "unat (bq_start q)" and ?c = "bq_capn q"
  have full: "unat (bq_count q) = ?c"
    using False bq_count_le [OF assms(1)] by (simp add: word_less_nat_alt)
  obtain s where s: "bq_items q = Some s" and w: "live_window s ?st ?c ?c"
    and l: "bq_list q = map the (ring_list s ?st ?c ?c)"
    using bq_invE [OF assms] full by metis
  obtain y where y: "?st < length s" "s ! ?st = Some y"
    by (rule live_window_start [OF w]) (use assms(2) in \<open>simp add: unat_gt_0\<close>)
  let ?q = "q\<lparr>bq_items := Some (s[?st := Some x]), bq_start := (bq_start q + 1) mod bq_cap q\<rparr>"
  have push: "bq_elim_push x q = Inr ?q"
    using False s y bq_next_start(1) [OF assms] by (simp add: bq_elim_push_def)
  have inv: "bq_inv ?q"
    using assms s live_window_rotate [OF w, of x] full bq_next_start(2) [OF assms]
    by (intro bq_invI) (simp_all add: bq_inv_def)
  have "bq_list ?q = map the (tl (ring_list s ?st ?c ?c @ [Some x]))"
    using w ring_list_rotate [of ?st ?c s "Some x"] full bq_next_start(2) [OF assms]
    by (simp add: bq_list_def live_window_def)
  also have "\<dots> = overwrite ?c (bq_list q) x"
    using l by (simp add: overwrite_def map_tl)
  finally show ?thesis
    using push inv by simp
qed

lemma bq_prev_start_ok:
  assumes "bq_inv q" "bq_count q < bq_cap q"
  shows "unat (bq_prev_start q) < bq_capn q"
    "unat (bq_start q) = Suc (unat (bq_prev_start q)) mod bq_capn q"
proof -
  have c: "bq_cap q \<noteq> 0"
    using assms(2) by auto
  have st: "unat (bq_start q) < bq_capn q"
    by (rule bq_invE [OF assms(1) c]) (simp add: live_window_def)
  have "unat (bq_prev_start q) < bq_capn q \<and>
        unat (bq_start q) = Suc (unat (bq_prev_start q)) mod bq_capn q"
  proof (cases "bq_start q = 0")
    case True
    then have "unat (bq_prev_start q) = bq_capn q - 1"
      using c by (simp add: bq_prev_start_def unat_simps)
    then show ?thesis
      using st True by auto
  next
    case False
    then have "unat (bq_prev_start q) = unat (bq_start q) - 1"
      by (simp add: bq_prev_start_def unat_simps)
    moreover have "0 < unat (bq_start q)"
      using False by (simp add: unat_gt_0)
    ultimately show ?thesis
      using st by simp
  qed
  then show "unat (bq_prev_start q) < bq_capn q"
    "unat (bq_start q) = Suc (unat (bq_prev_start q)) mod bq_capn q" by auto
qed

lemma bq_prepend:
  assumes "bq_inv q" "bq_count q < bq_cap q"
  shows "\<exists>m. construct_at (bq_items q) (unat (bq_prev_start q)) x = Inr m \<and>
    bq_inv (q\<lparr>bq_items := m, bq_start := bq_prev_start q, bq_count := bq_count q + 1\<rparr>) \<and>
    bq_list (q\<lparr>bq_items := m, bq_start := bq_prev_start q, bq_count := bq_count q + 1\<rparr>)
      = x # bq_list q \<and>
    read_at m (unat (bq_prev_start q)) = Inr x"
proof -
  let ?st = "unat (bq_start q)" and ?n = "unat (bq_count q)" and ?c = "bq_capn q"
  let ?p = "unat (bq_prev_start q)"
  have c: "bq_cap q \<noteq> 0"
    using assms(2) by auto
  obtain s where s: "bq_items q = Some s" and w: "live_window s ?st ?n ?c"
    and l: "bq_list q = map the (ring_list s ?st ?n ?c)"
    by (rule bq_invE [OF assms(1) c])
  have n: "?n < ?c"
    using assms(2) by (simp add: word_less_nat_alt)
  note p = bq_prev_start_ok [OF assms]
  have w': "live_window (s[?p := Some x]) ?p (Suc ?n) ?c"
    by (rule live_window_push_front [OF w n p])
  have len: "?p < length s"
    using p w by (simp add: live_window_def)
  have "bq_inv (q\<lparr>bq_items := Some (s[?p := Some x]), bq_start := bq_prev_start q,
                   bq_count := bq_count q + 1\<rparr>)"
    using assms c w' by (intro bq_invI) (simp_all add: bq_inv_def bq_count_succ)
  moreover have "ring_list (s[?p := Some x]) ?p (Suc ?n) ?c = Some x # ring_list s ?st ?n ?c"
    using w n p by (intro ring_list_push_front) (simp_all add: live_window_def)
  ultimately show ?thesis
    using s l len by (intro exI [of _ "Some (s[?p := Some x])"])
      (simp add: bq_list_def bq_count_succ [OF assms(2)])
qed

theorem bq_push_top_correct:
  assumes "bq_inv q"
  shows "\<exists>q'. bq_push_top x q = Inr (length (bq_list q) < bq_capn q, q') \<and> bq_inv q' \<and>
           bq_cap q' = bq_cap q \<and>
           bq_list q' = (if length (bq_list q) < bq_capn q then x # bq_list q else bq_list q)"
proof (cases "bq_count q < bq_cap q")
  case True
  then have "length (bq_list q) < bq_capn q"
    using assms by (simp add: length_bq_list word_less_nat_alt)
  with True bq_prepend [OF assms True, of x] show ?thesis
    by (auto simp: bq_push_top_def Let_def)
next
  case False
  then have "\<not> length (bq_list q) < bq_capn q"
    using assms by (simp add: length_bq_list word_less_nat_alt)
  with False assms show ?thesis
    by (simp add: bq_push_top_def)
qed

lemma bq_nonempty:
  assumes "bq_inv q" "bq_count q \<noteq> 0"
  obtains s n where "bq_items q = Some s" "bq_cap q \<noteq> 0" "unat (bq_count q) = Suc n"
    "unat (bq_count q - 1) = n"
    "live_window s (unat (bq_start q)) (Suc n) (bq_capn q)"
    "bq_list q = map the (ring_list s (unat (bq_start q)) (Suc n) (bq_capn q))"
    "unat (bq_start q) + unat (bq_count q) < 2 ^ 32"
proof -
  have c: "bq_cap q \<noteq> 0"
    using assms by (auto simp: bq_inv_def)
  have "unat (bq_count q) = Suc (unat (bq_count q - 1))"
    using assms(2) by (simp add: unat_simps unat_gt_0)
  then show ?thesis
    using that bq_invE [OF assms(1) c] c by metis
qed

lemma bq_remove_front:
  assumes "bq_inv q" "bq_count q \<noteq> 0"
  shows "\<exists>m s. read_at (bq_items q) (unat (bq_start q)) = Inr (hd (bq_list q)) \<and>
    destroy_at (bq_items q) (unat (bq_start q)) = Inr m \<and>
    bq_mod (bq_start q + 1) (bq_cap q) = Some s \<and>
    bq_inv (q\<lparr>bq_count := bq_count q - 1, bq_items := m, bq_start := s\<rparr>) \<and>
    bq_list (q\<lparr>bq_count := bq_count q - 1, bq_items := m, bq_start := s\<rparr>) = tl (bq_list q)"
proof -
  let ?st = "unat (bq_start q)" and ?c = "bq_capn q"
  obtain s n where s: "bq_items q = Some s" and c: "bq_cap q \<noteq> 0"
    and n: "unat (bq_count q) = Suc n" "unat (bq_count q - 1) = n"
    and w: "live_window s ?st (Suc n) ?c" and l: "bq_list q = map the (ring_list s ?st (Suc n) ?c)"
    by (rule bq_nonempty [OF assms])
  obtain y where y: "?st < length s" "s ! ?st = Some y"
    by (rule live_window_start [OF w]) simp
  note nx = bq_next_start [OF assms(1) c]
  have lt: "?st < ?c"
    using w by (simp add: live_window_def)
  have hd: "hd (bq_list q) = y"
    using y l lt by (simp add: ring_list_Cons)
  have w': "live_window (s[?st := None]) (Suc ?st mod ?c) n ?c"
    by (rule live_window_pop_front [OF w])
  have "?st \<notin> ring_idx (Suc ?st mod ?c) n ?c"
    using w lt by (simp add: ring_idx_pop_front live_window_def)
  then have "ring_list (s[?st := None]) (Suc ?st mod ?c) n ?c = ring_list s (Suc ?st mod ?c) n ?c"
    by (rule ring_list_update_outside)
  then have "map the (ring_list (s[?st := None]) (Suc ?st mod ?c) n ?c) = tl (bq_list q)"
    using l by (simp add: ring_list_Cons)
  moreover have "bq_inv (q\<lparr>bq_count := bq_count q - 1, bq_items := Some (s[?st := None]),
                   bq_start := (bq_start q + 1) mod bq_cap q\<rparr>)"
    using assms c w' n nx(2) by (intro bq_invI) (simp_all add: bq_inv_def)
  ultimately show ?thesis
    using s y hd nx n by (intro exI [of _ "Some (s[?st := None])"] exI) (auto simp: bq_list_def)
qed

theorem bq_pop_correct:
  assumes "bq_inv q"
  shows "\<exists>q'. bq_pop_item q = Inr (case bq_list q of [] \<Rightarrow> None | x # _ \<Rightarrow> Some x, q') \<and>
           bq_pop q = Inr (bq_list q \<noteq> [], q') \<and> bq_inv q' \<and> bq_cap q' = bq_cap q \<and>
           bq_list q' = tl (bq_list q)"
proof (cases "bq_count q = 0")
  case True
  then have "bq_list q = []"
    using assms length_bq_list [of q] by simp
  with True assms show ?thesis
    by (simp add: bq_pop_item_def bq_pop_def)
next
  case False
  then have "bq_list q \<noteq> []"
    using assms length_bq_list [of q] by (metis list.size(3) unat_eq_zero)
  with False bq_remove_front [OF assms False] show ?thesis
    by (auto simp: bq_pop_item_def bq_pop_def neq_Nil_conv)
qed

lemma bq_remove_back:
  assumes "bq_inv q" "bq_count q \<noteq> 0"
  shows "\<exists>i m. bq_slot (bq_start q + (bq_count q - 1)) (bq_cap q) = Inr i \<and>
    read_at (bq_items q) i = Inr (last (bq_list q)) \<and> destroy_at (bq_items q) i = Inr m \<and>
    bq_inv (q\<lparr>bq_count := bq_count q - 1, bq_items := m\<rparr>) \<and>
    bq_list (q\<lparr>bq_count := bq_count q - 1, bq_items := m\<rparr>) = butlast (bq_list q)"
proof -
  let ?st = "unat (bq_start q)" and ?c = "bq_capn q"
  obtain s n where s: "bq_items q = Some s" and c: "bq_cap q \<noteq> 0"
    and n: "unat (bq_count q) = Suc n" "unat (bq_count q - 1) = n"
    and w: "live_window s ?st (Suc n) ?c" and l: "bq_list q = map the (ring_list s ?st (Suc n) ?c)"
    and b: "?st + unat (bq_count q) < 2 ^ 32"
    by (rule bq_nonempty [OF assms])
  let ?i = "(?st + n) mod ?c"
  have i: "?i < length s"
    by (rule live_window_slot [OF w])
  obtain y where y: "s ! ?i = Some y"
    by (rule live_window_live [OF w, of n]) simp
  have lst: "last (bq_list q) = y" and bl: "butlast (bq_list q) = map the (ring_list s ?st n ?c)"
    using y l by (simp_all add: ring_list_Suc)
  have "?i \<notin> ring_idx ?st n ?c"
    using w by (intro ring_idx_fresh) (simp add: live_window_def)
  then have "ring_list (s[?i := None]) ?st n ?c = ring_list s ?st n ?c"
    by (rule ring_list_update_outside)
  moreover have "bq_inv (q\<lparr>bq_count := bq_count q - 1, bq_items := Some (s[?i := None])\<rparr>)"
    using assms c live_window_pop_back [OF w] n by (intro bq_invI) (simp_all add: bq_inv_def)
  moreover have "bq_slot (bq_start q + (bq_count q - 1)) (bq_cap q) = Inr ?i"
    using bq_slot_ok [OF c, of "bq_start q" "bq_count q - 1"] b n by simp
  ultimately show ?thesis
    using s y i lst bl n
    by (intro exI [of _ ?i] exI [of _ "Some (s[?i := None])"]) (auto simp: bq_list_def)
qed

theorem bq_pop_bottom_correct:
  assumes "bq_inv q"
  shows "\<exists>q'. bq_pop_bottom_item q = Inr (if bq_list q = [] then None else Some (last (bq_list q)), q')
           \<and> bq_pop_bottom q = Inr (bq_list q \<noteq> [], q') \<and> bq_inv q' \<and> bq_cap q' = bq_cap q \<and>
           bq_list q' = butlast (bq_list q)"
proof (cases "bq_count q = 0")
  case True
  then have "bq_list q = []"
    using assms length_bq_list [of q] by simp
  with True assms show ?thesis
    by (simp add: bq_pop_bottom_item_def bq_pop_bottom_def)
next
  case False
  then have "bq_list q \<noteq> []"
    using assms length_bq_list [of q] by (metis list.size(3) unat_eq_zero)
  with False bq_remove_back [OF assms False] show ?thesis
    by (auto simp: bq_pop_bottom_item_def bq_pop_bottom_def Let_def)
qed

lemma bq_push_default_correct:
  assumes "bq_inv q"
  shows "\<exists>r q'. bq_push_default x q = Inr (r, q') \<and> bq_inv q' \<and>
           (case r of None \<Rightarrow> \<not> length (bq_list q) < bq_capn q \<and> q' = q
            | Some i \<Rightarrow> length (bq_list q) < bq_capn q \<and> bq_list q' = bq_list q @ [x] \<and>
                       read_at (bq_items q') i = Inr x)"
proof (cases "bq_count q < bq_cap q")
  case True
  then have "length (bq_list q) < bq_capn q"
    using assms by (simp add: length_bq_list word_less_nat_alt)
  with True bq_append [OF assms True, of x] show ?thesis
    by (auto simp: bq_push_default_def)
next
  case False
  with assms show ?thesis
    by (simp add: bq_push_default_def length_bq_list word_less_nat_alt)
qed

lemma bq_push_top_default_correct:
  assumes "bq_inv q"
  shows "\<exists>r q'. bq_push_top_default x q = Inr (r, q') \<and> bq_inv q' \<and>
           (case r of None \<Rightarrow> \<not> length (bq_list q) < bq_capn q \<and> q' = q
            | Some i \<Rightarrow> length (bq_list q) < bq_capn q \<and> bq_list q' = x # bq_list q \<and>
                       read_at (bq_items q') i = Inr x)"
proof (cases "bq_count q < bq_cap q")
  case True
  then have "length (bq_list q) < bq_capn q"
    using assms by (simp add: length_bq_list word_less_nat_alt)
  with True bq_prepend [OF assms True, of x] show ?thesis
    by (auto simp: bq_push_top_default_def Let_def)
next
  case False
  with assms show ?thesis
    by (simp add: bq_push_top_default_def length_bq_list word_less_nat_alt)
qed

text \<open>Clearing destroys every live object of the block, front to back, and no other slot.\<close>

lemma bq_clear_loop_ok:
  assumes "bq_cap q \<noteq> 0" "unat (bq_start q) + unat (bq_count q) < 2 ^ 32" "i \<le> bq_count q"
    "live_window s ((unat (bq_start q) + unat i) mod bq_capn q) (unat (bq_count q) - unat i) (bq_capn q)"
  shows "\<exists>s'. bq_clear_loop i q (Some s) = Inr (Some s') \<and> length s' = length s \<and>
           (\<forall>j < length s'. s' ! j = None)"
  using assms
proof (induction "unat (bq_count q) - unat i" arbitrary: i s)
  case 0
  then have "\<not> i < bq_count q"
    by (simp add: word_less_nat_alt)
  then show ?case
    using "0.hyps" "0.prems"(4) by (simp add: bq_clear_loop.simps [of i] live_window_def)
next
  case (Suc n)
  let ?j = "(unat (bq_start q) + unat i) mod bq_capn q"
  have lt: "i < bq_count q"
    using Suc.hyps(2) by (simp add: word_less_nat_alt)
  then have i1: "unat (i + 1) = Suc (unat i)"
    using unat_inc_less [of i "bq_count q"] by simp
  have n: "unat (bq_count q) - Suc (unat i) = n"
    using Suc.hyps(2) by simp
  have w: "live_window s ?j (Suc n) (bq_capn q)"
    using Suc.prems(4) Suc.hyps(2) by simp
  obtain y where y: "?j < length s" "s ! ?j = Some y"
    by (rule live_window_start [OF w]) simp
  have "live_window (s[?j := None]) (Suc ?j mod bq_capn q) n (bq_capn q)"
    by (rule live_window_pop_front [OF w])
  then have w': "live_window (s[?j := None]) ((unat (bq_start q) + unat (i + 1)) mod bq_capn q)
      (unat (bq_count q) - unat (i + 1)) (bq_capn q)"
    using n by (simp add: i1 mod_Suc_eq)
  have "bq_slot (bq_start q + i) (bq_cap q) = Inr ?j"
    using Suc.prems(1,2) lt by (intro bq_slot_ok) (simp_all add: word_less_nat_alt)
  then have "bq_clear_loop i q (Some s) = bq_clear_loop (i + 1) q (Some (s[?j := None]))"
    using lt y by (simp add: bq_clear_loop.simps [of i])
  moreover have "n = unat (bq_count q) - unat (i + 1)" "i + 1 \<le> bq_count q"
    using Suc.hyps(2) lt i1 by (simp_all add: word_le_nat_alt word_less_nat_alt)
  ultimately show ?case
    using Suc.hyps(1) [of "i + 1" "s[?j := None]"] Suc.prems(1,2) w' by auto
qed

theorem bq_clear_correct:
  assumes "bq_inv q"
  shows "\<exists>q'. bq_clear q = Inr q' \<and> bq_inv q' \<and> bq_list q' = [] \<and> bq_cap q' = bq_cap q \<and>
           (bq_cap q \<noteq> 0 \<longrightarrow> (\<exists>s. bq_items q' = Some s \<and> (\<forall>j < length s. s ! j = None)))"
proof (cases "bq_cap q = 0")
  case True
  then have "\<not> 0 < bq_count q"
    using assms by (simp add: bq_inv_def)
  then show ?thesis
    using True assms
    by (auto simp: bq_clear_def bq_clear_loop.simps [of 0] bq_inv_def bq_list_def split: option.splits)
next
  case False
  obtain s where s: "bq_items q = Some s"
    and w: "live_window s (unat (bq_start q)) (unat (bq_count q)) (bq_capn q)"
    and b: "unat (bq_start q) + unat (bq_count q) < 2 ^ 32"
    by (rule bq_invE [OF assms False])
  have "live_window s ((unat (bq_start q) + unat (0::u32)) mod bq_capn q)
          (unat (bq_count q) - unat (0::u32)) (bq_capn q)"
    using w by (simp add: live_window_def)
  from bq_clear_loop_ok [OF False b _ this] obtain s' where
    s': "bq_clear_loop 0 q (Some s) = Inr (Some s')" "length s' = length s"
      "\<forall>j < length s'. s' ! j = None"
    by auto
  have "live_window s' 0 0 (bq_capn q)"
    using s'(2,3) w by (auto simp: live_window_def)
  then show ?thesis
    using assms False s s' by (auto simp: bq_clear_def bq_inv_def bq_list_def)
qed

theorem bq_destroy_correct:
  assumes "bq_inv q"
  shows "\<exists>q'. bq_destroy q = Inr q' \<and> bq_list q' = [] \<and>
           (bq_ownership q = OWNS_STORAGE \<longrightarrow> bq_items q' = None)"
proof -
  obtain q' where q': "bq_clear q = Inr q'" "bq_list q' = []"
    using bq_clear_correct [OF assms] by blast
  moreover have "bq_ownership q' = bq_ownership q"
    using q'(1) by (auto simp: bq_clear_def bindE_eq_Inr)
  ultimately show ?thesis
    by (auto simp: bq_destroy_def bq_list_def)
qed

text \<open>
  The accessors: the address they return holds the item at that position of the queue, and they
  return null exactly outside the queue.
\<close>

definition item_at :: "'a bounded_queue \<Rightarrow> nat option \<Rightarrow> fault + 'a option" where
  "item_at q p =
     (case p of None \<Rightarrow> Inr None | Some i \<Rightarrow> bindE (read_at (bq_items q) i) (\<lambda>x. Inr (Some x)))"

lemma bq_read_slot:
  assumes "bq_inv q" "i < unat (bq_count q)"
  shows "read_at (bq_items q) ((unat (bq_start q) + i) mod bq_capn q) = Inr (bq_list q ! i)"
proof -
  have c: "bq_cap q \<noteq> 0"
    using assms by (auto simp: bq_inv_def)
  obtain s where s: "bq_items q = Some s"
    and w: "live_window s (unat (bq_start q)) (unat (bq_count q)) (bq_capn q)"
    and l: "bq_list q = map the (ring_list s (unat (bq_start q)) (unat (bq_count q)) (bq_capn q))"
    by (rule bq_invE [OF assms(1) c])
  obtain x where x: "s ! ((unat (bq_start q) + i) mod bq_capn q) = Some x"
    by (rule live_window_live [OF w assms(2)])
  then show ?thesis
    using s l live_window_slot [OF w, of i] assms(2) by (simp add: nth_ring_list)
qed

lemma bq_offset_less:
  assumes "bq_inv q" "i \<le> unat (bq_count q)" "bq_count q \<noteq> 0"
  shows "unat (bq_start q) + i < 2 ^ 32"
  by (rule bq_nonempty [OF assms(1,3)]) (use assms(2) in linarith)

theorem bq_top_at_correct:
  assumes "bq_inv q"
  shows "bindE (bq_top_at index q) (item_at q) =
           Inr (if unat index < length (bq_list q) then Some (bq_list q ! unat index) else None)"
proof (cases "index < ucast (bq_count q)")
  case True
  then have i: "unat index < unat (bq_count q)"
    by (simp add: word_less_nat_alt unat_ucast_up)
  then have c: "bq_cap q \<noteq> 0" and n: "bq_count q \<noteq> 0"
    using assms by (auto simp: bq_inv_def)
  have b: "unat (bq_start q) + unat index < 2 ^ 32"
    using bq_offset_less [OF assms _ n, of "unat index"] i by simp
  then have "unat (ucast (ucast (bq_start q) + index :: u64) :: u32) = unat (bq_start q) + unat index"
    by (simp add: unat_ucast_mod unat_word_ariths)
  then have "bq_slot (ucast (ucast (bq_start q) + index :: u64)) (bq_cap q)
      = Inr ((unat (bq_start q) + unat index) mod bq_capn q)"
    using c by (simp add: bq_slot_def bq_mod_eq unat_mod_distrib)
  then show ?thesis
    using True i bq_read_slot [OF assms i] length_bq_list [OF assms]
    by (simp add: bq_top_at_def item_at_def)
next
  case False
  then have "\<not> unat index < unat (bq_count q)"
    by (simp add: word_less_nat_alt unat_ucast_up)
  then show ?thesis
    using False length_bq_list [OF assms] by (simp add: bq_top_at_def item_at_def)
qed

theorem bq_bottom_at_correct:
  assumes "bq_inv q"
  shows "bindE (bq_bottom_at index q) (item_at q) =
           Inr (if unat index < length (bq_list q) then Some (rev (bq_list q) ! unat index) else None)"
proof (cases "index < ucast (bq_count q)")
  case True
  let ?k = "unat (bq_count q) - Suc (unat index)"
  from True have i: "unat index < unat (bq_count q)"
    by (simp add: word_less_nat_alt unat_ucast_up)
  then have c: "bq_cap q \<noteq> 0" and n: "bq_count q \<noteq> 0"
    using assms by (auto simp: bq_inv_def)
  have b: "unat (bq_start q) + unat (bq_count q) < 2 ^ 32"
    using bq_offset_less [OF assms _ n, of "unat (bq_count q)"] by simp
  let ?e = "ucast (bq_start q + bq_count q) :: u64"
  have e: "unat ?e = unat (bq_start q) + unat (bq_count q)"
    using b by (simp add: unat_ucast_up unat_simps)
  have "unat (?e - index) = unat ?e - unat index"
    using e i by (intro unat_sub_no_wrap) (simp add: word_le_nat_alt)
  moreover from this have "?e - index \<noteq> 0"
    using e i by (intro notI) simp
  ultimately have "unat (?e - index - 1) = unat (bq_start q) + ?k"
    using e i by (simp add: unat_sub_one)
  moreover have "unat (bq_start q) + ?k < 2 ^ 32"
    using b by linarith
  ultimately have "unat (ucast (?e - index - 1) :: u32) = unat (bq_start q) + ?k"
    by (simp add: unat_ucast_mod)
  then have "bq_slot (ucast (?e - index - 1)) (bq_cap q)
      = Inr ((unat (bq_start q) + ?k) mod bq_capn q)"
    using c by (simp add: bq_slot_def bq_mod_eq unat_mod_distrib)
  moreover have "rev (bq_list q) ! unat index = bq_list q ! ?k"
    using i length_bq_list [OF assms] by (simp add: rev_nth)
  ultimately show ?thesis
    using True i bq_read_slot [OF assms, of ?k] length_bq_list [OF assms]
    by (simp add: bq_bottom_at_def item_at_def)
next
  case False
  then have "\<not> unat index < unat (bq_count q)"
    by (simp add: word_less_nat_alt unat_ucast_up)
  then show ?thesis
    using False length_bq_list [OF assms] by (simp add: bq_bottom_at_def item_at_def)
qed

text \<open>\<open>top()\<close> is \<open>top(0)\<close> and \<open>bottom()\<close> is \<open>bottom(0)\<close>, as the comments promise.\<close>

lemma bq_top_is_top_at_0:
  assumes "bq_inv q"
  shows "bq_top_at 0 q = Inr (bq_top q)"
proof (cases "bq_count q = 0")
  case True
  then show ?thesis by (simp add: bq_top_at_def bq_top_def)
next
  case False
  obtain st: "unat (bq_start q) < bq_capn q" and c: "bq_cap q \<noteq> 0"
    by (rule bq_nonempty [OF assms False]) (simp add: live_window_def)
  have "(0::u64) < ucast (bq_count q)"
    using False by (simp add: word_less_nat_alt unat_ucast_up unat_gt_0)
  moreover have "bq_slot (ucast (ucast (bq_start q) :: u64)) (bq_cap q) = Inr (unat (bq_start q))"
    using c st by (simp add: bq_slot_def bq_mod_eq unat_mod_distrib unat_ucast_mod)
  ultimately show ?thesis
    using False by (simp add: bq_top_at_def bq_top_def)
qed

lemma bq_bottom_is_bottom_at_0:
  assumes "bq_inv q"
  shows "bq_bottom_at 0 q = bq_bottom q"
proof (cases "bq_count q = 0")
  case True
  then show ?thesis by (simp add: bq_bottom_at_def bq_bottom_def)
next
  case False
  have b: "unat (bq_start q) + unat (bq_count q) < 2 ^ 32"
    using bq_offset_less [OF assms _ False, of "unat (bq_count q)"] by simp
  have pos: "(0::u64) < ucast (bq_count q)"
    using False by (simp add: word_less_nat_alt unat_ucast_up unat_gt_0)
  let ?x = "bq_start q + bq_count q"
  have "unat ?x \<noteq> 0"
    using b False by (simp add: unat_simps unat_eq_zero)
  then have x: "?x \<noteq> 0" "(ucast ?x :: u64) \<noteq> 0"
    by (metis unat_0, metis unat_0 unat_ucast_up [where 'm=32 and 'n=64, of ?x, simplified])
  moreover have "(unat ?x - Suc 0) mod 4294967296 = unat ?x - Suc 0"
    using unat_u32_bound [of ?x] by (intro mod_less) linarith
  ultimately have "unat (ucast (ucast ?x - 1 :: u64) :: u32) = unat (?x - 1)"
    by (simp add: unat_ucast_mod unat_sub_one)
  then have "ucast (ucast ?x - 1 :: u64) = ?x - 1"
    by (simp add: word_unat_eq_iff)
  then show ?thesis
    using False pos by (simp add: bq_bottom_at_def bq_bottom_def)
qed

lemma bq_new_inv:
  assumes "sizeof_T \<noteq> 0" "capacity \<noteq> 0" "unat capacity \<le> 2 ^ 31"
    "unat capacity * unat sizeof_T < 2 ^ 64"
  shows "bq_inv (bq_new True sizeof_T capacity :: 'a bounded_queue)"
    and "bq_list (bq_new True sizeof_T capacity :: 'a bounded_queue) = []"
    and "bq_capn (bq_new True sizeof_T capacity :: 'a bounded_queue) = unat capacity"
proof -
  have cap: "unat (ucast capacity :: u32) = unat capacity"
    using assms(3) by (intro unat_ucast_small) simp
  have "unat (capacity * sizeof_T) = unat capacity * unat sizeof_T"
    using assms(4) by (simp add: unat_word_ariths)
  then have "unat (capacity * sizeof_T) div unat sizeof_T = unat capacity"
    using assms(1) by (simp add: unat_eq_zero)
  moreover have "(ucast capacity :: u32) \<noteq> 0"
    using cap assms(2) by (metis unat_0 unat_eq_zero)
  ultimately show "bq_inv (bq_new True sizeof_T capacity :: 'a bounded_queue)"
    "bq_list (bq_new True sizeof_T capacity :: 'a bounded_queue) = []"
    "bq_capn (bq_new True sizeof_T capacity :: 'a bounded_queue) = unat capacity"
    using assms cap
    by (simp_all add: bq_new_def bq_inv_def bq_list_def live_window_def unat_gt_0)
qed

lemma bq_from_memory_inv:
  assumes "length s = unat (memsize div sizeof_T)" "\<forall>j < length s. s ! j = None"
    "unat (memsize div sizeof_T) \<le> 2 ^ 31"
  shows "bq_inv (bq_from_memory sizeof_T (Some s) memsize own)"
proof -
  have "unat (ucast (memsize div sizeof_T) :: u32) = unat (memsize div sizeof_T)"
    using assms(3) by (intro unat_ucast_small) simp
  then show ?thesis
    using assms
    by (cases "memsize div sizeof_T = 0") (simp_all add: bq_from_memory_def bq_inv_def live_window_def unat_gt_0)
qed

section \<open>The queue as a displacement window\<close>

definition bq_elim_push_total :: "'a \<Rightarrow> 'a bounded_queue \<Rightarrow> 'a bounded_queue" where
  "bq_elim_push_total x q = (case bq_elim_push x q of Inl _ \<Rightarrow> q | Inr q' \<Rightarrow> q')"

interpretation bqw: overwriting_queue
  bq_list "\<lambda>q. unat (bq_cap q)" "\<lambda>q. bq_inv q \<and> bq_cap q \<noteq> 0" bq_elim_push_total
proof
  fix q :: "'a bounded_queue" and x :: 'a
  assume q: "bq_inv q \<and> bq_cap q \<noteq> 0"
  then obtain q' where "bq_elim_push x q = Inr q'" "bq_inv q'" "bq_cap q' = bq_cap q"
    "bq_list q' = overwrite (bq_capn q) (bq_list q) x"
    using bq_elim_push_correct [of q x] by auto
  with q show "bq_list (bq_elim_push_total x q) = overwrite (bq_capn q) (bq_list q) x"
    "bq_capn (bq_elim_push_total x q) = bq_capn q"
    "bq_inv (bq_elim_push_total x q) \<and> bq_cap (bq_elim_push_total x q) \<noteq> 0"
    by (simp_all add: bq_elim_push_total_def)
next
  fix q :: "'a bounded_queue"
  assume "bq_inv q \<and> bq_cap q \<noteq> 0"
  then show "length (bq_list q) \<le> bq_capn q"
    by (simp add: length_bq_list bq_count_le)
qed

section \<open>Sequences of operations\<close>

text \<open>
  The abstract double-ended queue of capacity \<open>c\<close>: what every operation returns and what the
  queue holds after it.
\<close>

datatype 'a bq_op = Push 'a | Elim_push 'a | Push_top 'a | Pop | Pop_bottom | Clear

datatype 'a bq_out = Flag bool | Item "'a option" | Nothing

fun deque_step :: "nat \<Rightarrow> 'a bq_op \<Rightarrow> 'a list \<Rightarrow> 'a bq_out \<times> 'a list" where
  "deque_step c (Push x) xs = (Flag (length xs < c), if length xs < c then xs @ [x] else xs)"
| "deque_step c (Elim_push x) xs = (Nothing, overwrite c xs x)"
| "deque_step c (Push_top x) xs = (Flag (length xs < c), if length xs < c then x # xs else xs)"
| "deque_step c Pop xs = (Item (case xs of [] \<Rightarrow> None | x # _ \<Rightarrow> Some x), tl xs)"
| "deque_step c Pop_bottom xs = (Item (if xs = [] then None else Some (last xs)), butlast xs)"
| "deque_step c Clear xs = (Nothing, [])"

fun deque_run :: "nat \<Rightarrow> 'a bq_op list \<Rightarrow> 'a list \<Rightarrow> 'a bq_out list \<times> 'a list" where
  "deque_run c [] xs = ([], xs)"
| "deque_run c (p # ps) xs =
     (let (out, ys) = deque_step c p xs; (outs, zs) = deque_run c ps ys in (out # outs, zs))"

text \<open>The same operations on the data structure; a fault ends the run.\<close>

fun bq_step :: "'a bq_op \<Rightarrow> 'a bounded_queue \<Rightarrow> fault + ('a bq_out \<times> 'a bounded_queue)" where
  "bq_step (Push x) q = bindE (bq_push x q) (\<lambda>(r, q'). Inr (Flag r, q'))"
| "bq_step (Elim_push x) q = bindE (bq_elim_push x q) (\<lambda>q'. Inr (Nothing, q'))"
| "bq_step (Push_top x) q = bindE (bq_push_top x q) (\<lambda>(r, q'). Inr (Flag r, q'))"
| "bq_step Pop q = bindE (bq_pop_item q) (\<lambda>(r, q'). Inr (Item r, q'))"
| "bq_step Pop_bottom q = bindE (bq_pop_bottom_item q) (\<lambda>(r, q'). Inr (Item r, q'))"
| "bq_step Clear q = bindE (bq_clear q) (\<lambda>q'. Inr (Nothing, q'))"

fun bq_run :: "'a bq_op list \<Rightarrow> 'a bounded_queue \<Rightarrow> fault + ('a bq_out list \<times> 'a bounded_queue)" where
  "bq_run [] q = Inr ([], q)"
| "bq_run (p # ps) q =
     bindE (bq_step p q) (\<lambda>(out, q'). bindE (bq_run ps q') (\<lambda>(outs, r). Inr (out # outs, r)))"

lemma bq_step_refines:
  assumes "bq_inv q" "bq_cap q \<noteq> 0"
  shows "\<exists>q'. bq_step p q = Inr (fst (deque_step (bq_capn q) p (bq_list q)), q') \<and>
           bq_inv q' \<and> bq_cap q' = bq_cap q \<and> bq_list q' = snd (deque_step (bq_capn q) p (bq_list q))"
proof (cases p)
  case (Push x)
  with bq_push_correct [OF assms(1), of x] show ?thesis
    by (elim exE conjE) simp
next
  case (Elim_push x)
  with bq_elim_push_correct [OF assms, of x] show ?thesis
    by (elim exE conjE) simp
next
  case (Push_top x)
  with bq_push_top_correct [OF assms(1), of x] show ?thesis
    by (elim exE conjE) simp
next
  case Pop
  with bq_pop_correct [OF assms(1)] show ?thesis
    by (elim exE conjE) simp
next
  case Pop_bottom
  with bq_pop_bottom_correct [OF assms(1)] show ?thesis
    by (elim exE conjE) simp
next
  case Clear
  with bq_clear_correct [OF assms(1)] show ?thesis
    by (elim exE conjE) simp
qed

lemma bq_run_refines_gen:
  assumes "bq_inv q" "bq_cap q \<noteq> 0"
  shows "\<exists>q'. bq_run ps q = Inr (fst (deque_run (bq_capn q) ps (bq_list q)), q') \<and> bq_inv q' \<and>
           bq_cap q' = bq_cap q \<and> bq_list q' = snd (deque_run (bq_capn q) ps (bq_list q))"
  using assms
proof (induction ps arbitrary: q)
  case Nil
  then show ?case by simp
next
  case (Cons p ps)
  obtain r where r: "bq_step p q = Inr (fst (deque_step (bq_capn q) p (bq_list q)), r)"
    "bq_inv r" "bq_cap r = bq_cap q" "bq_list r = snd (deque_step (bq_capn q) p (bq_list q))"
    using bq_step_refines [OF Cons.prems] by blast
  from Cons.IH [of r] r Cons.prems show ?case
    by (auto simp: case_prod_beta Let_def)
qed

text \<open>
  C18: from a freshly constructed queue of any capacity up to \<open>2 ^ 31\<close>, every sequence of
  \<open>push\<close>, \<open>elim_push\<close>, \<open>push_top\<close>, \<open>pop\<close>, \<open>pop_bottom\<close> and \<open>clear\<close> runs
  without touching a null pointer, a slot outside the block or a dead object, and returns what
  the abstract double-ended queue of that capacity returns.
\<close>

theorem bq_run_refines:
  fixes ps :: "'a bq_op list"
  assumes "sizeof_T \<noteq> 0" "capacity \<noteq> 0" "unat capacity \<le> 2 ^ 31"
    "unat capacity * unat sizeof_T < 2 ^ 64"
  shows "\<exists>q. bq_run ps (bq_new True sizeof_T capacity) =
               Inr (fst (deque_run (unat capacity) ps []), q) \<and>
             bq_inv q \<and> bq_list q = snd (deque_run (unat capacity) ps [])"
proof -
  let ?q = "bq_new True sizeof_T capacity :: 'a bounded_queue"
  have q: "bq_inv ?q" "bq_list ?q = []" "bq_capn ?q = unat capacity"
    using bq_new_inv [OF assms] by auto
  moreover from this have "bq_cap ?q \<noteq> 0"
    using assms(2) by (metis unat_0 unat_eq_zero)
  ultimately show ?thesis
    using bq_run_refines_gen [of ?q ps] by auto
qed

theorem bq_run_refines_witness:
  "\<exists>q. bq_run [Push 7, Push_top 5, Elim_push 9, Pop, Pop_bottom, Pop] (bq_new True 4 2) =
         Inr ([Flag True, Flag True, Nothing, Item (Some 7), Item (Some 9), Item None], q) \<and>
       bq_inv q \<and> bq_list q = ([] :: nat list)"
  using bq_run_refines [of 4 2 "[Push 7, Push_top 5, Elim_push 9, Pop, Pop_bottom, Pop :: nat bq_op]"]
  by (simp add: overwrite_def del: bq_run.simps)

text \<open>
  C19: a queue of capacity \<open>c\<close> that only uses \<open>elim_push\<close> holds the last \<open>c\<close> items pushed,
  in order, once at least \<open>c\<close> were pushed.
\<close>

theorem bq_elim_push_window:
  assumes "bq_inv q" "bq_cap q \<noteq> 0" "bq_capn q \<le> length xs"
  shows "bq_list (fold bq_elim_push_total xs q) = drop (length xs - bq_capn q) xs"
  using bqw.push_all_recent [of q xs] assms by simp

theorem bq_elim_push_window_witness:
  "bq_list (fold bq_elim_push_total [1, 2, 3, 4, 5] (bq_new True 8 3)) = [3, 4, 5 :: int]"
proof -
  let ?q = "bq_new True 8 3 :: int bounded_queue"
  have "bq_inv ?q" "bq_capn ?q = 3"
    using bq_new_inv [of 8 3, where 'a = int] by simp_all
  moreover from this have "bq_cap ?q \<noteq> 0"
    by auto
  ultimately show ?thesis
    using bq_elim_push_window [of ?q "[1, 2, 3, 4, 5]"] by simp
qed


section \<open>Progress\<close>

text \<open>
  A producer that only calls \<open>push\<close> and a consumer that only calls \<open>pop\<close>, interleaved in
  any order; pushes that the full queue refuses are part of the schedule.
\<close>

fun fifo_op :: "'a bq_op \<Rightarrow> bool" where
  "fifo_op (Push x) = True"
| "fifo_op Pop = True"
| "fifo_op _ = False"

fun is_pop :: "'a bq_op \<Rightarrow> bool" where
  "is_pop Pop = True"
| "is_pop _ = False"

fun popped :: "'a bq_out list \<Rightarrow> 'a option list" where
  "popped [] = []"
| "popped (Item r # outs) = r # popped outs"
| "popped (_ # outs) = popped outs"

lemma deque_delivers:
  "list_all fifo_op ps \<Longrightarrow> i < length xs \<Longrightarrow> i < length (filter is_pop ps) \<Longrightarrow>
     i < length (popped (fst (deque_run c ps xs))) \<and>
     popped (fst (deque_run c ps xs)) ! i = Some (xs ! i)"
proof (induction ps arbitrary: xs i)
  case Nil
  then show ?case by simp
next
  case (Cons p ps)
  from Cons.prems(1) consider (push) x where "p = Push x" | (pop) "p = Pop"
    by (cases p) auto
  then show ?case
  proof cases
    case push
    let ?ys = "if length xs < c then xs @ [x] else xs"
    from Cons.prems push Cons.IH [of i ?ys] show ?thesis
      by (simp add: case_prod_beta Let_def nth_append split: if_splits)
  next
    case pop
    with Cons.prems obtain y ys where xs: "xs = y # ys"
      by (cases xs) auto
    show ?thesis
    proof (cases i)
      case 0
      with pop xs show ?thesis by (simp add: case_prod_beta Let_def)
    next
      case (Suc j)
      with pop xs Cons.prems Cons.IH [of j ys] show ?thesis
        by (simp add: case_prod_beta Let_def)
    qed
  qed
qed

text \<open>
  C7: no starvation. An item that \<open>push\<close> accepts behind \<open>n\<close> others is delivered by the
  \<open>n + 1\<close>st of the later pops, whatever pushes are interleaved with them: every schedule of
  pushes and pops with that many pops runs to its end and hands the item out.
\<close>

theorem bq_push_delivered:
  assumes "bq_inv q" "length (bq_list q) < bq_capn q" "list_all fifo_op ps"
    "length (bq_list q) < length (filter is_pop ps)"
  shows "\<exists>outs q'. bq_run (Push x # ps) q = Inr (Flag True # outs, q') \<and>
           length (bq_list q) < length (popped outs) \<and>
           popped outs ! length (bq_list q) = Some x"
proof -
  let ?xs = "bq_list q @ [x]"
  have "bq_cap q \<noteq> 0"
    using assms(2) by auto
  then obtain q' where "bq_run (Push x # ps) q = Inr (fst (deque_run (bq_capn q) (Push x # ps) (bq_list q)), q')"
    using bq_run_refines_gen [OF assms(1), of "Push x # ps"] by blast
  moreover have "fst (deque_run (bq_capn q) (Push x # ps) (bq_list q)) =
      Flag True # fst (deque_run (bq_capn q) ps ?xs)"
    using assms(2) by (simp add: case_prod_beta Let_def)
  ultimately show ?thesis
    using deque_delivers [OF assms(3), of "length (bq_list q)" ?xs "bq_capn q"] assms(4) by auto
qed

theorem bq_push_delivered_witness:
  "\<exists>outs q'. bq_run [Push 7, Push 8, Push 9, Pop] (bq_new True 8 2) = Inr (Flag True # outs, q') \<and>
     0 < length (popped outs) \<and> popped outs ! 0 = Some (7 :: int)"
proof -
  let ?q = "bq_new True 8 2 :: int bounded_queue"
  have "bq_inv ?q" "bq_capn ?q = 2" "bq_list ?q = []"
    using bq_new_inv [of 8 2, where 'a = int] by simp_all
  then show ?thesis
    using bq_push_delivered [of ?q "[Push 8, Push 9, Pop]" 7] by (simp del: bq_run.simps)
qed

end
