(* ===== verification/Circular_Queue.thy ===== *)
theory Circular_Queue
  imports Queue_Spec
begin

text \<open>
  \<open>turbo::circular_queue\<close> (turbo/container/circular\_queue.h), the ring the log sinks use: a
  vector with one slot more than the capacity, a head, a tail and a counter of displaced items.
  A default-constructed or moved-from queue is disabled: it has no slots and drops every push.
\<close>

section \<open>State and operations\<close>

record 'a circular_queue =
  cq_max_items :: u64
  cq_head :: u64
  cq_tail :: u64
  cq_overrun :: u64
  cq_v :: "'a list"

definition cq_default :: "'a circular_queue" where
  "cq_default = \<lparr>cq_max_items = 0, cq_head = 0, cq_tail = 0, cq_overrun = 0, cq_v = []\<rparr>"

text \<open>
  \<open>v_(max_items_)\<close> value-initialises every element, here to \<open>dflt\<close>, and throws
  \<open>std::length_error\<close> beyond the largest object size.
\<close>

definition cq_new :: "'a \<Rightarrow> u64 \<Rightarrow> fault + 'a circular_queue" where
  "cq_new dflt max_items =
     (if unat (max_items + 1) < 2 ^ 63
      then Inr \<lparr>cq_max_items = max_items + 1, cq_head = 0, cq_tail = 0, cq_overrun = 0,
                cq_v = replicate (unat (max_items + 1)) dflt\<rparr>
      else Inl Length_error)"

definition cq_index :: "'a circular_queue \<Rightarrow> u64 \<Rightarrow> fault + 'a" where
  "cq_index q i = (if unat i < length (cq_v q) then Inr (cq_v q ! unat i) else Inl Out_of_range)"

definition cq_push_back :: "'a \<Rightarrow> 'a circular_queue \<Rightarrow> fault + 'a circular_queue" where
  "cq_push_back item q =
     (if cq_max_items q > 0
      then if unat (cq_tail q) < length (cq_v q)
           then let q1 = q\<lparr>cq_v := (cq_v q)[unat (cq_tail q) := item],
                           cq_tail := (cq_tail q + 1) mod cq_max_items q\<rparr>
                in Inr (if cq_tail q1 = cq_head q1
                        then q1\<lparr>cq_head := (cq_head q1 + 1) mod cq_max_items q1,
                                cq_overrun := cq_overrun q1 + 1\<rparr>
                        else q1)
           else Inl Out_of_range
      else Inr q)"

definition cq_front :: "'a circular_queue \<Rightarrow> fault + 'a" where
  "cq_front q = cq_index q (cq_head q)"

definition cq_size :: "'a circular_queue \<Rightarrow> u64" where
  "cq_size q =
     (if cq_tail q \<ge> cq_head q then cq_tail q - cq_head q
      else cq_max_items q - (cq_head q - cq_tail q))"

definition cq_at :: "u64 \<Rightarrow> 'a circular_queue \<Rightarrow> fault + 'a" where
  "cq_at i q =
     (if cq_max_items q = 0 then Inl Div_by_zero
      else cq_index q ((cq_head q + i) mod cq_max_items q))"

definition cq_pop_front :: "'a circular_queue \<Rightarrow> fault + 'a circular_queue" where
  "cq_pop_front q =
     (if cq_max_items q = 0 then Inl Div_by_zero
      else Inr (q\<lparr>cq_head := (cq_head q + 1) mod cq_max_items q\<rparr>))"

definition cq_empty :: "'a circular_queue \<Rightarrow> bool" where
  "cq_empty q \<longleftrightarrow> cq_tail q = cq_head q"

definition cq_full :: "'a circular_queue \<Rightarrow> bool" where
  "cq_full q \<longleftrightarrow>
     (if cq_max_items q > 0 then (cq_tail q + 1) mod cq_max_items q = cq_head q else False)"

definition cq_reset_overrun_counter :: "'a circular_queue \<Rightarrow> 'a circular_queue" where
  "cq_reset_overrun_counter q = q\<lparr>cq_overrun := 0\<rparr>"

text \<open>
  \<open>copy_moveable\<close>: the moved-to queue, and the source, which is left disabled. A moved-from
  vector is empty.
\<close>

definition cq_copy_moveable :: "'a circular_queue \<Rightarrow> 'a circular_queue \<times> 'a circular_queue" where
  "cq_copy_moveable other =
     (\<lparr>cq_max_items = cq_max_items other, cq_head = cq_head other, cq_tail = cq_tail other,
       cq_overrun = cq_overrun other, cq_v = cq_v other\<rparr>,
      other\<lparr>cq_max_items := 0, cq_head := 0, cq_tail := 0, cq_overrun := 0, cq_v := []\<rparr>)"

section \<open>Invariant and abstraction\<close>

text \<open>
  \<open>cq_fill\<close> is the number of stored items read off head and tail; the invariant also covers
  disabled queues.
\<close>

definition cq_fill :: "'a circular_queue \<Rightarrow> nat" where
  "cq_fill q = (unat (cq_tail q) + (unat (cq_max_items q) - unat (cq_head q))) mod unat (cq_max_items q)"

definition cq_list :: "'a circular_queue \<Rightarrow> 'a list" where
  "cq_list q = ring_list (cq_v q) (unat (cq_head q)) (cq_fill q) (unat (cq_max_items q))"

definition cq_capacity :: "'a circular_queue \<Rightarrow> nat" where
  "cq_capacity q = unat (cq_max_items q) - 1"

definition cq_enabled :: "'a circular_queue \<Rightarrow> bool" where
  "cq_enabled q \<longleftrightarrow>
     0 < unat (cq_max_items q) \<and> unat (cq_max_items q) < 2 ^ 63 \<and> length (cq_v q) = unat (cq_max_items q) \<and>
     cq_head q < cq_max_items q \<and> cq_tail q < cq_max_items q"

section \<open>Correctness\<close>

lemma cq_fill_less: "cq_enabled q \<Longrightarrow> cq_fill q < unat (cq_max_items q)"
  by (simp add: cq_fill_def cq_enabled_def)

lemma cq_tail_eq:
  assumes "cq_enabled q"
  shows "unat (cq_tail q) = (unat (cq_head q) + cq_fill q) mod unat (cq_max_items q)"
proof -
  let ?h = "unat (cq_head q)" and ?t = "unat (cq_tail q)" and ?m = "unat (cq_max_items q)"
  have lt: "?h < ?m" "?t < ?m"
    using assms by (auto simp: cq_enabled_def word_less_nat_alt)
  have "(?h + cq_fill q) mod ?m = (?h + (?t + (?m - ?h))) mod ?m"
    by (simp add: cq_fill_def mod_add_right_eq)
  also have "?h + (?t + (?m - ?h)) = ?t + ?m"
    using lt by simp
  finally show ?thesis
    using lt by simp
qed

lemma cq_fill_unique:
  assumes "cq_enabled q" "n < unat (cq_max_items q)"
    "unat (cq_tail q) = (unat (cq_head q) + n) mod unat (cq_max_items q)"
  shows "cq_fill q = n"
  using mod_add_inj [of "cq_fill q" "unat (cq_max_items q)" n "unat (cq_head q)"]
    cq_fill_less [OF assms(1)] cq_tail_eq [OF assms(1)] assms(2,3) by simp

lemma cq_succ:
  assumes "i < (m :: u64)"
  shows "unat ((i + 1) mod m) = Suc (unat i) mod unat m"
  using unat_inc_less [OF assms] by (simp add: unat_mod_distrib)

lemma cq_push_back_room:
  assumes q: "cq_enabled q" and room: "Suc (cq_fill q) < unat (cq_max_items q)"
  shows "\<exists>q'. cq_push_back x q = Inr q' \<and> cq_enabled q' \<and> cq_max_items q' = cq_max_items q \<and>
           cq_list q' = cq_list q @ [x] \<and> cq_overrun q' = cq_overrun q"
proof -
  let ?m = "cq_max_items q" and ?h = "unat (cq_head q)" and ?n = "cq_fill q"
  let ?q = "q\<lparr>cq_v := (cq_v q)[unat (cq_tail q) := x], cq_tail := (cq_tail q + 1) mod ?m\<rparr>"
  have lt: "cq_head q < ?m" "cq_tail q < ?m" "unat ?m > 0" "length (cq_v q) = unat ?m"
    using q by (auto simp: cq_enabled_def)
  have t: "unat ((cq_tail q + 1) mod ?m) = (?h + Suc ?n) mod unat ?m"
    using cq_tail_eq [OF q] cq_succ [OF lt(2)] by (simp add: mod_Suc_eq)
  have "(?h + Suc ?n) mod unat ?m \<noteq> (?h + 0) mod unat ?m"
    using mod_add_inj [of "Suc ?n" "unat ?m" 0 ?h] room by auto
  then have ne: "(cq_tail q + 1) mod ?m \<noteq> cq_head q"
    using t lt(1) by (auto simp: word_less_nat_alt)
  have en: "cq_enabled ?q"
    using q lt t by (auto simp: cq_enabled_def word_less_nat_alt)
  have "cq_fill ?q = Suc ?n"
    using t room by (intro cq_fill_unique [OF en]) simp_all
  then have "cq_list ?q = cq_list q @ [x]"
    using lt cq_fill_less [OF q] cq_tail_eq [OF q] by (simp add: cq_list_def ring_list_push_back)
  moreover have "cq_push_back x q = Inr ?q"
    using lt ne by (simp add: cq_push_back_def Let_def word_less_nat_alt)
  ultimately show ?thesis
    using en by simp
qed

lemma cq_push_back_full:
  assumes q: "cq_enabled q" and full: "Suc (cq_fill q) = unat (cq_max_items q)"
  shows "\<exists>q'. cq_push_back x q = Inr q' \<and> cq_enabled q' \<and> cq_max_items q' = cq_max_items q \<and>
           cq_list q' = tl (cq_list q @ [x]) \<and> cq_overrun q' = cq_overrun q + 1"
proof -
  let ?m = "cq_max_items q" and ?h = "unat (cq_head q)" and ?n = "cq_fill q"
  let ?v = "(cq_v q)[unat (cq_tail q) := x]"
  let ?q = "q\<lparr>cq_v := ?v, cq_tail := (cq_tail q + 1) mod ?m, cq_head := (cq_head q + 1) mod ?m,
              cq_overrun := cq_overrun q + 1\<rparr>"
  have lt: "cq_head q < ?m" "cq_tail q < ?m" "unat ?m > 0" "length (cq_v q) = unat ?m"
    using q by (auto simp: cq_enabled_def)
  have "(?h + Suc ?n) mod unat ?m = ?h"
    using full lt(1) by (simp add: word_less_nat_alt)
  then have t: "unat ((cq_tail q + 1) mod ?m) = ?h"
    using cq_tail_eq [OF q] cq_succ [OF lt(2)] by (simp add: mod_Suc_eq)
  then have eq: "(cq_tail q + 1) mod ?m = cq_head q"
    by (simp add: word_unat_eq_iff)
  have h: "unat ((cq_head q + 1) mod ?m) = Suc ?h mod unat ?m"
    by (rule cq_succ [OF lt(1)])
  have en: "cq_enabled ?q"
    using q lt h by (simp add: cq_enabled_def eq word_less_nat_alt)
  have "(Suc ?h mod unat ?m + ?n) mod unat ?m = ?h"
    using ring_prev [of ?h "unat ?m"] lt(1) by (simp add: word_less_nat_alt flip: full)
  then have f: "cq_fill ?q = ?n"
    using h full by (intro cq_fill_unique [OF en]) (simp_all add: eq)
  have "ring_list ?v ?h (Suc ?n) (unat ?m) = cq_list q @ [x]"
    using cq_tail_eq [OF q] lt(4) cq_fill_less [OF q] by (simp add: cq_list_def ring_list_push_back)
  then have "cq_list ?q = tl (cq_list q @ [x])"
    using f h ring_list_pop_front [of ?v ?h "unat ?m" ?n] by (simp add: cq_list_def)
  moreover have "cq_push_back x q = Inr ?q"
    using lt eq by (simp add: cq_push_back_def Let_def word_less_nat_alt)
  ultimately show ?thesis
    using en by simp
qed

lemma cq_push_back_correct:
  assumes "cq_enabled q"
  shows "\<exists>q'. cq_push_back x q = Inr q' \<and> cq_enabled q' \<and> cq_max_items q' = cq_max_items q \<and>
           cq_list q' = overwrite (cq_capacity q) (cq_list q) x \<and>
           cq_overrun q' = cq_overrun q + (if length (cq_list q) < cq_capacity q then 0 else 1)"
proof (cases "Suc (cq_fill q) < unat (cq_max_items q)")
  case True
  then have "length (cq_list q) < cq_capacity q"
    by (simp add: cq_list_def cq_capacity_def)
  with cq_push_back_room [OF assms True, of x] show ?thesis
    by (auto simp: overwrite_def)
next
  case False
  then have full: "Suc (cq_fill q) = unat (cq_max_items q)"
    using cq_fill_less [OF assms] by simp
  then have "\<not> length (cq_list q) < cq_capacity q"
    by (simp add: cq_list_def cq_capacity_def)
  with cq_push_back_full [OF assms full, of x] show ?thesis
    by (auto simp: overwrite_def)
qed

lemma length_cq_list: "length (cq_list q) = cq_fill q"
  by (simp add: cq_list_def)

lemma cq_size_eq:
  assumes "cq_enabled q"
  shows "unat (cq_size q) = length (cq_list q)"
proof -
  let ?h = "unat (cq_head q)" and ?t = "unat (cq_tail q)" and ?m = "unat (cq_max_items q)"
  have lt: "?h < ?m" "?t < ?m"
    using assms by (auto simp: cq_enabled_def word_less_nat_alt)
  show ?thesis
  proof (cases "cq_head q \<le> cq_tail q")
    case True
    then have size: "unat (cq_size q) = ?t - ?h" and le: "?h \<le> ?t"
      by (simp_all add: cq_size_def unat_simps word_le_nat_alt)
    have "?t + (?m - ?h) = (?t - ?h) + ?m"
      using le lt by arith
    then have "cq_fill q = (?t - ?h) mod ?m"
      by (simp add: cq_fill_def)
    with size lt show ?thesis
      by (simp add: length_cq_list)
  next
    case False
    then have le: "?t \<le> ?h"
      by (simp add: word_le_nat_alt)
    have a: "unat (cq_head q - cq_tail q) = ?h - ?t"
      using False by (intro unat_sub_no_wrap) simp
    have "cq_head q - cq_tail q \<le> cq_max_items q"
      using a lt by (simp add: word_le_nat_alt)
    then have "unat (cq_max_items q - (cq_head q - cq_tail q)) = ?m - (?h - ?t)"
      by (subst unat_sub_no_wrap) (simp_all add: a)
    then have size: "unat (cq_size q) = ?m - (?h - ?t)"
      using False by (simp add: cq_size_def)
    have "?t + (?m - ?h) = ?m - (?h - ?t)" "?t + (?m - ?h) < ?m"
      using le lt False by (auto simp: word_le_nat_alt)
    with size show ?thesis
      by (simp add: length_cq_list cq_fill_def)
  qed
qed

lemma cq_at_correct:
  assumes "cq_enabled q" "unat i < length (cq_list q)"
  shows "cq_at i q = Inr (cq_list q ! unat i)"
proof -
  let ?h = "unat (cq_head q)" and ?m = "unat (cq_max_items q)"
  have lt: "?h < ?m" "length (cq_v q) = ?m" "0 < ?m" "?m < 2 ^ 63"
    using assms(1) by (auto simp: cq_enabled_def word_less_nat_alt)
  have "unat i < ?m"
    using assms cq_fill_less [OF assms(1)] by (simp add: length_cq_list)
  then have "?h + unat i < 2 ^ 64"
    using lt by simp
  then have "unat ((cq_head q + i) mod cq_max_items q) = (?h + unat i) mod ?m"
    by (simp add: unat_mod_distrib unat_simps)
  then show ?thesis
    using lt assms(2) by (simp add: cq_at_def cq_index_def cq_list_def nth_ring_list unat_gt_0)
qed

lemma cq_front_correct:
  assumes "cq_enabled q" "cq_list q \<noteq> []"
  shows "cq_front q = Inr (hd (cq_list q))"
proof -
  let ?h = "unat (cq_head q)" and ?m = "unat (cq_max_items q)"
  have lt: "?h < ?m" "length (cq_v q) = ?m"
    using assms(1) by (auto simp: cq_enabled_def word_less_nat_alt)
  have "0 < cq_fill q"
    using assms(2) length_cq_list [of q] by (metis length_greater_0_conv)
  then have "hd (cq_list q) = cq_v q ! ?h"
    using lt nth_ring_list [of 0 "cq_fill q" "cq_v q" ?h ?m] assms(2)
    by (simp add: cq_list_def hd_conv_nth)
  then show ?thesis
    using lt by (simp add: cq_front_def cq_index_def)
qed

lemma cq_pop_front_correct:
  assumes q: "cq_enabled q" and ne: "cq_list q \<noteq> []"
  shows "\<exists>q'. cq_pop_front q = Inr q' \<and> cq_enabled q' \<and> cq_list q' = tl (cq_list q)"
proof -
  let ?h = "unat (cq_head q)" and ?m = "unat (cq_max_items q)"
  let ?q = "q\<lparr>cq_head := (cq_head q + 1) mod cq_max_items q\<rparr>"
  obtain n where n: "cq_fill q = Suc n"
    using ne length_cq_list [of q] by (metis length_0_conv not0_implies_Suc)
  have lt: "cq_head q < cq_max_items q" "0 < ?m"
    using q by (auto simp: cq_enabled_def)
  note h = cq_succ [OF lt(1)]
  have en: "cq_enabled ?q"
    using q h lt by (auto simp: cq_enabled_def word_less_nat_alt)
  have "unat (cq_tail ?q) = (Suc ?h mod ?m + n) mod ?m"
    using cq_tail_eq [OF q] n by (simp add: mod_add_left_eq)
  then have "cq_fill ?q = n"
    using h n cq_fill_less [OF q] by (intro cq_fill_unique [OF en]) simp_all
  then have "cq_list ?q = tl (cq_list q)"
    using h n ring_list_pop_front [of "cq_v q" ?h ?m n] by (simp add: cq_list_def)
  then show ?thesis
    using en lt by (auto simp: cq_pop_front_def unat_gt_0)
qed

lemma cq_empty_correct:
  assumes "cq_enabled q"
  shows "cq_empty q \<longleftrightarrow> cq_list q = []"
proof -
  let ?h = "unat (cq_head q)" and ?m = "unat (cq_max_items q)"
  have h: "(?h + 0) mod ?m = ?h"
    using assms by (simp add: cq_enabled_def word_less_nat_alt)
  have "cq_list q = [] \<longleftrightarrow> cq_fill q = 0"
    using length_cq_list [of q] by (metis length_0_conv)
  also have "\<dots> \<longleftrightarrow> (?h + cq_fill q) mod ?m = (?h + 0) mod ?m"
    using mod_add_inj [of "cq_fill q" ?m 0 ?h] cq_fill_less [OF assms] by auto
  also have "\<dots> \<longleftrightarrow> cq_tail q = cq_head q"
    using cq_tail_eq [OF assms] h by (simp add: word_unat_eq_iff)
  finally show ?thesis
    by (simp add: cq_empty_def)
qed

lemma cq_full_correct:
  assumes "cq_enabled q"
  shows "cq_full q \<longleftrightarrow> length (cq_list q) = cq_capacity q"
proof -
  let ?h = "unat (cq_head q)" and ?m = "unat (cq_max_items q)" and ?n = "cq_fill q"
  have lt: "cq_tail q < cq_max_items q" "?h < ?m"
    using assms by (auto simp: cq_enabled_def word_less_nat_alt)
  have t: "unat ((cq_tail q + 1) mod cq_max_items q) = (?h + Suc ?n) mod ?m"
    using cq_tail_eq [OF assms] cq_succ [OF lt(1)] by (simp add: mod_Suc_eq)
  have "(?h + Suc ?n) mod ?m = ?h \<longleftrightarrow> Suc ?n = ?m"
  proof
    assume eq: "(?h + Suc ?n) mod ?m = ?h"
    show "Suc ?n = ?m"
    proof (rule ccontr)
      assume "Suc ?n \<noteq> ?m"
      then have "Suc ?n < ?m"
        using cq_fill_less [OF assms] by simp
      then show False
        using mod_add_inj [of "Suc ?n" ?m 0 ?h] eq lt(2) by auto
    qed
  next
    assume "Suc ?n = ?m"
    then have "?h + Suc ?n = ?h + ?m" by simp
    with lt(2) show "(?h + Suc ?n) mod ?m = ?h" by simp
  qed
  then have "(cq_tail q + 1) mod cq_max_items q = cq_head q \<longleftrightarrow> Suc ?n = ?m"
    using t by (simp add: word_unat_eq_iff)
  moreover have "0 < cq_max_items q"
    using lt(2) by (simp add: word_less_nat_alt)
  ultimately show ?thesis
    using lt(2) by (auto simp: cq_full_def cq_capacity_def length_cq_list)
qed

lemma cq_new_enabled:
  assumes "unat c < 2 ^ 63 - 1"
  shows "\<exists>q. cq_new d c = Inr q \<and> cq_enabled q \<and> cq_list q = [] \<and> cq_capacity q = unat c \<and>
           cq_overrun q = 0"
proof -
  have c: "unat (c + 1) = unat c + 1"
    using assms by (intro unat_add_one_no_wrap) simp
  let ?q = "\<lparr>cq_max_items = c + 1, cq_head = 0, cq_tail = 0, cq_overrun = 0,
              cq_v = replicate (unat (c + 1)) d\<rparr>"
  have "cq_enabled ?q"
    using c assms by (simp add: cq_enabled_def word_less_nat_alt)
  moreover from this have "cq_fill ?q = 0"
    by (rule cq_fill_unique) (simp_all add: c)
  then have "cq_list ?q = []"
    by (simp add: cq_list_def)
  moreover have "cq_new d c = Inr ?q"
    using c assms by (simp add: cq_new_def)
  ultimately show ?thesis
    using c by (simp add: cq_capacity_def)
qed

text \<open>A disabled queue, such as the source of a move, ignores pushes.\<close>

lemma cq_moved_from_disabled:
  "cq_push_back x (snd (cq_copy_moveable q)) = Inr (snd (cq_copy_moveable q)) \<and>
   cq_empty (snd (cq_copy_moveable q)) \<and> \<not> cq_full (snd (cq_copy_moveable q)) \<and>
   fst (cq_copy_moveable q) = q"
  by (simp add: cq_copy_moveable_def cq_push_back_def cq_empty_def cq_full_def)

section \<open>The displacement window\<close>

definition cq_push_total :: "'a \<Rightarrow> 'a circular_queue \<Rightarrow> 'a circular_queue" where
  "cq_push_total x q = (case cq_push_back x q of Inl _ \<Rightarrow> q | Inr q' \<Rightarrow> q')"

lemma cq_push_total_correct:
  assumes "cq_enabled q"
  shows "cq_push_back x q = Inr (cq_push_total x q)" "cq_enabled (cq_push_total x q)"
    "cq_capacity (cq_push_total x q) = cq_capacity q"
    "cq_list (cq_push_total x q) = overwrite (cq_capacity q) (cq_list q) x"
    "cq_overrun (cq_push_total x q) =
       cq_overrun q + (if length (cq_list q) < cq_capacity q then 0 else 1)"
  using cq_push_back_correct [OF assms, of x]
  by (auto simp: cq_push_total_def cq_capacity_def)

interpretation cqw: overwriting_queue cq_list cq_capacity cq_enabled cq_push_total
proof
  fix q :: "'a circular_queue" and x
  assume "cq_enabled q"
  then show "cq_list (cq_push_total x q) = overwrite (cq_capacity q) (cq_list q) x"
    "cq_capacity (cq_push_total x q) = cq_capacity q" "cq_enabled (cq_push_total x q)"
    by (rule cq_push_total_correct)+
next
  fix q :: "'a circular_queue"
  assume "cq_enabled q"
  then show "length (cq_list q) \<le> cq_capacity q"
    using cq_fill_less [of q] by (simp add: length_cq_list cq_capacity_def)
qed

lemma cq_overrun_fold:
  assumes "cq_enabled q"
  shows "cq_overrun (fold cq_push_total xs q) =
           cq_overrun q + of_nat (length (cq_list q) + length xs - cq_capacity q)"
proof (induction xs rule: rev_induct)
  case Nil
  then show ?case using cqw.items_bounded [OF assms] by simp
next
  case (snoc x xs)
  let ?r = "fold cq_push_total xs q"
  have r: "cq_enabled ?r" "cq_capacity ?r = cq_capacity q"
    "length (cq_list ?r) = min (length (cq_list q) + length xs) (cq_capacity q)"
    using cqw.push_all_window [OF assms, of xs] by (auto simp: Let_def)
  have "cq_overrun (fold cq_push_total (xs @ [x]) q) =
      cq_overrun ?r + (if length (cq_list ?r) < cq_capacity q then 0 else 1)"
    using cq_push_total_correct(5) [OF r(1), of x] r(2) by simp
  also have "\<dots> = cq_overrun q + of_nat (length (cq_list q) + length (xs @ [x]) - cq_capacity q)"
    unfolding snoc r(3) by (auto simp: Suc_diff_le min_def)
  finally show ?case .
qed

text \<open>
  C21: a circular queue of capacity \<open>c\<close> into which the items \<open>xs\<close> are pushed holds the last
  \<open>c\<close> of them in order, and its overrun counter is the number of items displaced, modulo
  \<open>2 ^ 64\<close>. No push leaves the vector.
\<close>

theorem cq_push_window:
  assumes "unat c < 2 ^ 63 - 1"
  shows "\<exists>q. cq_new d c = Inr q \<and> cq_enabled (fold cq_push_total xs q) \<and>
           cq_list (fold cq_push_total xs q) = drop (length xs - unat c) xs \<and>
           cq_overrun (fold cq_push_total xs q) = of_nat (length xs - unat c) \<and>
           (\<forall>x. cq_push_back x (fold cq_push_total xs q) = Inr (fold cq_push_total (xs @ [x]) q))"
proof -
  obtain q where q: "cq_new d c = Inr q" "cq_enabled q" "cq_list q = []" "cq_capacity q = unat c"
    "cq_overrun q = 0"
    using cq_new_enabled [OF assms, of d] by auto
  have "cq_push_back x (fold cq_push_total xs q) = Inr (fold cq_push_total (xs @ [x]) q)" for x
    using cqw.push_all_window [OF q(2), of xs] by (simp add: cq_push_total_correct(1))
  then show ?thesis
    using q cqw.push_all_window [OF q(2), of xs] cq_overrun_fold [OF q(2), of xs]
    by (simp add: Let_def)
qed

theorem cq_push_window_witness:
  "\<exists>q. cq_new 0 2 = Inr q \<and> cq_list (fold cq_push_total [10, 20, 30, 40] q) = [30, 40 :: int] \<and>
       cq_overrun (fold cq_push_total [10, 20, 30, 40] q) = 2"
  using cq_push_window [of 2 "0::int" "[10, 20, 30, 40]"] by auto

end
