(* ===== verification/Node_Set.thy ===== *)
theory Node_Set
  imports Prelude
begin

text \<open>
  \<open>NodeSet\<close> of turbo/synchronization/internal/graphcycles.cc: the open-addressing hash set of
  non-negative 32-bit integers that holds the neighbours of a graph node. A table has a power of
  two of slots, linear probing finds a slot, deleted slots stay occupied, and the table doubles
  when three quarters of it are occupied.

  Values are \<open>int\<close> (the source's \<open>int32_t\<close>); slot numbers and table sizes are \<open>nat\<close> (the
  source's \<open>uint32_t\<close>, which a table of fewer than \<open>2 ^ 31\<close> slots never overflows); the hash
  is computed at 32 bits.
\<close>

section \<open>State and operations\<close>

definition kInline :: nat where "kInline = 8"

definition kEmpty :: int where "kEmpty = - 1"

definition kDel :: int where "kDel = - 2"

record node_set =
  ns_table :: "int list"
  ns_occupied :: nat

definition ns_hash :: "int \<Rightarrow> nat" where
  "ns_hash a = unat (word_of_int (a * 41) :: u32)"

text \<open>The probe loop of \<open>FindIndex\<close>, with its locals \<open>i\<close>, \<open>deleted_index\<close> and
  \<open>seen_deleted_element\<close>.\<close>

partial_function (option) ns_probe :: "int list \<Rightarrow> int \<Rightarrow> nat \<Rightarrow> nat \<Rightarrow> bool \<Rightarrow> nat option" where
  "ns_probe t v i deleted_index seen =
     (let e = t ! i; nxt = (i + 1) AND (length t - 1) in
      if v = e then Some i
      else if e = kEmpty then Some (if seen then deleted_index else i)
      else if e = kDel \<and> \<not> seen then ns_probe t v nxt i True
      else ns_probe t v nxt deleted_index seen)"

definition ns_find_index :: "int list \<Rightarrow> int \<Rightarrow> nat option" where
  "ns_find_index t v = ns_probe t v (ns_hash v AND (length t - 1)) 0 False"

definition ns_init :: node_set where
  "ns_init = \<lparr>ns_table = replicate kInline kEmpty, ns_occupied = 0\<rparr>"

definition ns_clear :: "node_set \<Rightarrow> node_set" where
  "ns_clear s = ns_init"

definition ns_contains :: "node_set \<Rightarrow> int \<Rightarrow> bool option" where
  "ns_contains s v = map_option (\<lambda>i. ns_table s ! i = v) (ns_find_index (ns_table s) v)"

text \<open>
  \<open>insert\<close> calls \<open>Grow\<close>, which inserts the elements of the old table into one twice the size.
  The first argument bounds how deep these calls nest; two levels are enough
  (\<open>ns_insert_correct\<close>). The second function is the loop of \<open>Grow\<close>.
\<close>

function (sequential) ns_insert_depth :: "nat \<Rightarrow> node_set \<Rightarrow> int \<Rightarrow> (bool \<times> node_set) option"
  and ns_insert_all :: "nat \<Rightarrow> int list \<Rightarrow> node_set \<Rightarrow> node_set option" where
  "ns_insert_depth 0 s v = None"
| "ns_insert_depth (Suc d) s v =
     (case ns_find_index (ns_table s) v of
        None \<Rightarrow> None
      | Some i \<Rightarrow>
          if ns_table s ! i = v then Some (False, s)
          else
            let occ = (if ns_table s ! i = kEmpty then ns_occupied s + 1 else ns_occupied s);
                t = (ns_table s)[i := v]
            in if occ \<ge> length t - length t div 4
               then map_option (\<lambda>s'. (True, s'))
                      (ns_insert_all d t
                         \<lparr>ns_table = replicate (length t * 2) kEmpty, ns_occupied = 0\<rparr>)
               else Some (True, \<lparr>ns_table = t, ns_occupied = occ\<rparr>))"
| "ns_insert_all d [] s = Some s"
| "ns_insert_all d (e # es) s =
     (if e \<ge> 0
      then case ns_insert_depth d s e of None \<Rightarrow> None | Some (_, s') \<Rightarrow> ns_insert_all d es s'
      else ns_insert_all d es s)"
  by pat_completeness auto
termination
  by (relation "inv_image (less_than <*lex*> less_than)
        (\<lambda>x. case x of Inl (d, s, v) \<Rightarrow> (d, 0) | Inr (d, es, s) \<Rightarrow> (d, Suc (length es)))") auto

definition ns_insert :: "node_set \<Rightarrow> int \<Rightarrow> (bool \<times> node_set) option" where
  "ns_insert s v = ns_insert_depth 2 s v"

definition ns_erase :: "node_set \<Rightarrow> int \<Rightarrow> node_set option" where
  "ns_erase s v =
     map_option (\<lambda>i. if ns_table s ! i = v then s\<lparr>ns_table := (ns_table s)[i := kDel]\<rparr> else s)
       (ns_find_index (ns_table s) v)"

text \<open>\<open>Next\<close>: the first non-negative slot from the cursor on, and the new cursor.\<close>

function ns_next :: "int list \<Rightarrow> nat \<Rightarrow> (nat \<times> int) option" where
  "ns_next t cursor =
     (if cursor < length t
      then if t ! cursor \<ge> 0 then Some (cursor + 1, t ! cursor) else ns_next t (cursor + 1)
      else None)"
  by pat_completeness auto
termination
  by (relation "measure (\<lambda>(t, c). length t - c)") auto

declare ns_next.simps [simp del]

lemma ns_next_cursor: "ns_next t c = Some (c', e) \<Longrightarrow> c < c' \<and> c' \<le> length t"
  by (induction t c rule: ns_next.induct) (subst (asm) (2) ns_next.simps, auto split: if_splits)

text \<open>\<open>HASH_FOR_EACH\<close>: the elements in the order in which \<open>Next\<close> gives them.\<close>

function ns_elements_from :: "int list \<Rightarrow> nat \<Rightarrow> int list" where
  "ns_elements_from t c =
     (case ns_next t c of None \<Rightarrow> [] | Some (c', e) \<Rightarrow> e # ns_elements_from t c')"
  by pat_completeness auto
termination
  by (relation "measure (\<lambda>(t, c). length t - c)") (auto dest!: ns_next_cursor)

declare ns_elements_from.simps [simp del]

definition ns_elements :: "node_set \<Rightarrow> int list" where
  "ns_elements s = ns_elements_from (ns_table s) 0"

section \<open>Iteration\<close>

lemma ns_elements_from_eq:
  "ns_elements_from t c = filter (\<lambda>v. v \<ge> 0) (drop c t)"
proof (induction "length t - c" arbitrary: c rule: less_induct)
  case less
  show ?case
  proof (cases "c < length t")
    case True
    then have d: "drop c t = t ! c # drop (Suc c) t"
      by (rule Cons_nth_drop_Suc [symmetric])
    have IH: "ns_elements_from t (Suc c) = filter (\<lambda>v. v \<ge> 0) (drop (Suc c) t)"
      using True by (intro less) simp
    show ?thesis
    proof (cases "t ! c \<ge> 0")
      case True
      with \<open>c < length t\<close> have "ns_next t c = Some (Suc c, t ! c)"
        by (subst ns_next.simps) simp
      then have "ns_elements_from t c = t ! c # ns_elements_from t (Suc c)"
        by (subst ns_elements_from.simps) simp
      with IH True d show ?thesis by simp
    next
      case False
      with \<open>c < length t\<close> have "ns_next t c = ns_next t (Suc c)"
        by (subst ns_next.simps) simp
      then have "ns_elements_from t c = ns_elements_from t (Suc c)"
        by (simp add: ns_elements_from.simps [of t c] ns_elements_from.simps [of t "Suc c"])
      with IH False d show ?thesis by simp
    qed
  next
    case False
    then have "ns_next t c = None"
      by (subst ns_next.simps) simp
    with False show ?thesis by (subst ns_elements_from.simps) simp
  qed
qed

section \<open>Abstraction and invariant\<close>

definition ns_set :: "node_set \<Rightarrow> int set" where
  "ns_set s = {v \<in> set (ns_table s). v \<ge> 0}"

text \<open>The \<open>n\<close>-th slot of the probe sequence of \<open>v\<close> in a table of \<open>sz\<close> slots.\<close>

definition ns_pos :: "nat \<Rightarrow> int \<Rightarrow> nat \<Rightarrow> nat" where
  "ns_pos sz v n = (ns_hash v + n) mod sz"

text \<open>
  The table invariant: every element is at a slot of its own probe sequence with no empty slot
  before it, and no element is stored twice.
\<close>

definition ns_table_ok :: "int list \<Rightarrow> bool" where
  "ns_table_ok t \<longleftrightarrow>
     (\<exists>k. length t = 2 ^ k) \<and>
     (\<forall>j < length t. t ! j \<ge> 0 \<longrightarrow>
        (\<exists>n < length t. j = ns_pos (length t) (t ! j) n \<and>
           (\<forall>m < n. t ! ns_pos (length t) (t ! j) m \<noteq> kEmpty))) \<and>
     (\<forall>i < length t. \<forall>j < length t. t ! i \<ge> 0 \<longrightarrow> t ! i = t ! j \<longrightarrow> i = j)"

abbreviation ns_used :: "int list \<Rightarrow> nat" where
  "ns_used t \<equiv> length (filter (\<lambda>e. e \<noteq> kEmpty) t)"

definition ns_inv :: "node_set \<Rightarrow> bool" where
  "ns_inv s \<longleftrightarrow>
     ns_table_ok (ns_table s) \<and> kInline \<le> length (ns_table s) \<and>
     ns_occupied s = ns_used (ns_table s) \<and>
     ns_occupied s < length (ns_table s) - length (ns_table s) div 4"

lemma ns_elements_set: "set (ns_elements s) = ns_set s"
  by (auto simp: ns_elements_def ns_elements_from_eq ns_set_def)

lemma and_mask_mod:
  assumes "length t = 2 ^ k"
  shows "i AND (length t - 1) = i mod length t"
proof -
  have "i AND mask k = i mod 2 ^ k"
    by (simp add: take_bit_eq_mod flip: take_bit_eq_mask)
  then show ?thesis
    by (simp add: assms mask_eq_exp_minus_1)
qed

lemma ns_pos_less: "0 < sz \<Longrightarrow> ns_pos sz v n < sz"
  by (simp add: ns_pos_def)

lemma ns_pos_Suc: "(ns_pos sz v n + 1) mod sz = ns_pos sz v (Suc n)"
  by (simp add: ns_pos_def mod_Suc_eq)

lemma ns_pos_surj:
  assumes "j < sz"
  obtains n where "n < sz" "ns_pos sz v n = j"
proof
  let ?n = "(j + (sz - ns_hash v mod sz)) mod sz"
  show "?n < sz" using assms by simp
  have "ns_pos sz v ?n = (ns_hash v mod sz + (j + (sz - ns_hash v mod sz))) mod sz"
    by (simp add: ns_pos_def mod_add_left_eq mod_add_right_eq)
  also have "ns_hash v mod sz + (j + (sz - ns_hash v mod sz)) = j + sz"
    using assms mod_less_divisor [of sz "ns_hash v"] by linarith
  finally show "ns_pos sz v ?n = j"
    using assms by simp
qed

section \<open>Probing\<close>

text \<open>
  What \<open>FindIndex\<close> promises: a slot that holds the value, or, when the value is absent, a free
  slot (empty or deleted) with no empty slot before it in the probe sequence.
\<close>

definition ns_free_slot :: "int list \<Rightarrow> int \<Rightarrow> nat \<Rightarrow> bool" where
  "ns_free_slot t v i \<longleftrightarrow>
     i < length t \<and> (t ! i = kEmpty \<or> t ! i = kDel) \<and>
     (\<exists>n < length t. i = ns_pos (length t) v n \<and> (\<forall>m < n. t ! ns_pos (length t) v m \<noteq> kEmpty))"

lemma ns_free_slotI:
  "n < length t \<Longrightarrow> t ! ns_pos (length t) v n \<in> {kEmpty, kDel} \<Longrightarrow>
   \<forall>m < n. t ! ns_pos (length t) v m \<noteq> kEmpty \<Longrightarrow> ns_free_slot t v (ns_pos (length t) v n)"
  unfolding ns_free_slot_def using ns_pos_less [of "length t" v n, OF le_less_trans [of 0 n]] by auto

lemma ns_probe_correct:
  assumes "length t = 2 ^ k" "e < length t" "t ! ns_pos (length t) v e \<in> {v, kEmpty}"
    "\<forall>m < e. t ! ns_pos (length t) v m \<notin> {v, kEmpty}"
    "n \<le> e" "seen \<longrightarrow> ns_free_slot t v del"
  shows "\<exists>i. ns_probe t v (ns_pos (length t) v n) del seen = Some i \<and>
           (if t ! ns_pos (length t) v e = v then i = ns_pos (length t) v e else ns_free_slot t v i)"
  using assms(5,6)
proof (induction "e - n" arbitrary: n del seen)
  case 0
  then have "n = e" by simp
  let ?i = "ns_pos (length t) v e"
  have "ns_free_slot t v ?i" if "t ! ?i = kEmpty"
    using that assms(2,4) by (intro ns_free_slotI) auto
  then show ?case
    using assms(3) 0 \<open>n = e\<close> by (subst ns_probe.simps) (auto simp: Let_def)
next
  case (Suc d)
  let ?i = "ns_pos (length t) v n"
  have n: "n < e" using Suc.hyps(2) by simp
  then have ne: "t ! ?i \<noteq> v" "t ! ?i \<noteq> kEmpty"
    using assms(4) by auto
  have nxt: "(?i + 1) AND (length t - 1) = ns_pos (length t) v (Suc n)"
    using and_mask_mod [OF assms(1)] ns_pos_Suc [of "length t" v n] by simp
  have d: "d = e - Suc n" "Suc n \<le> e"
    using Suc.hyps(2) by simp_all
  have free: "ns_free_slot t v ?i" if "t ! ?i = kDel"
    using that n assms(2,4) by (intro ns_free_slotI) auto
  show ?case
  proof (cases "t ! ?i = kDel \<and> \<not> seen")
    case True
    then have "ns_probe t v ?i del seen = ns_probe t v (ns_pos (length t) v (Suc n)) ?i True"
      using ne nxt by (subst ns_probe.simps) (simp add: Let_def)
    with Suc.hyps(1) [OF d, where del = ?i and seen = True] free True show ?thesis by auto
  next
    case False
    then have "ns_probe t v ?i del seen = ns_probe t v (ns_pos (length t) v (Suc n)) del seen"
      using ne nxt by (subst ns_probe.simps) (auto simp: Let_def)
    with Suc.hyps(1) [OF d Suc.prems(2)] show ?thesis by auto
  qed
qed

lemma ns_find_index_correct:
  assumes ok: "ns_table_ok t" and emp: "kEmpty \<in> set t" and v: "v \<ge> 0"
  shows "\<exists>i. ns_find_index t v = Some i \<and>
           (if v \<in> set t then i < length t \<and> t ! i = v else ns_free_slot t v i)"
proof -
  let ?p = "ns_pos (length t) v"
  obtain k where k: "length t = 2 ^ k"
    using ok by (auto simp: ns_table_ok_def)
  have pos: "0 < length t" using k by simp
  obtain j where j: "j < length t" "t ! j = kEmpty"
    using emp by (auto simp: in_set_conv_nth)
  then obtain n where n: "n < length t" "?p n = j"
    using ns_pos_surj by blast
  define e where "e = (LEAST m. t ! ?p m \<in> {v, kEmpty})"
  have e: "t ! ?p e \<in> {v, kEmpty}" "e \<le> n"
    unfolding e_def using n j LeastI [of "\<lambda>m. t ! ?p m \<in> {v, kEmpty}" n]
      Least_le [of "\<lambda>m. t ! ?p m \<in> {v, kEmpty}" n] by simp_all
  have min: "\<forall>m < e. t ! ?p m \<notin> {v, kEmpty}"
    unfolding e_def using not_less_Least by blast
  have start: "ns_hash v AND (length t - 1) = ?p 0"
    using and_mask_mod [OF k] by (simp add: ns_pos_def)
  obtain i where i: "ns_find_index t v = Some i"
    "if t ! ?p e = v then i = ?p e else ns_free_slot t v i"
    using ns_probe_correct [OF k _ e(1) min, of 0 False 0] e(2) n(1) start
    by (auto simp: ns_find_index_def)
  show ?thesis
  proof (cases "t ! ?p e = v")
    case True
    then have "v \<in> set t"
      using ns_pos_less [OF pos, of v e] by (metis nth_mem)
    with i True ns_pos_less [OF pos, of v e] show ?thesis by auto
  next
    case False
    have "v \<notin> set t"
    proof
      assume "v \<in> set t"
      then obtain j' where j': "j' < length t" "t ! j' = v"
        by (auto simp: in_set_conv_nth)
      then obtain n' where n': "j' = ?p n'" "\<forall>m < n'. t ! ?p m \<noteq> kEmpty"
        using ok v unfolding ns_table_ok_def by blast
      have "t ! ?p e = kEmpty" using e(1) False by simp
      then have "\<not> e < n'" using n'(2) by auto
      moreover have "\<not> n' < e" using min j' n'(1) by auto
      ultimately show False using False j' n'(1) by (auto simp: not_less_iff_gr_or_eq)
    qed
    with i False show ?thesis by auto
  qed
qed

section \<open>Updates of the table\<close>

lemma ns_used_less_empty:
  assumes "ns_used t < length t"
  shows "kEmpty \<in> set t"
proof (rule ccontr)
  assume "kEmpty \<notin> set t"
  then have "filter (\<lambda>e. e \<noteq> kEmpty) t = t"
    by (intro filter_True) auto
  with assms show False by simp
qed

lemma ns_used_update:
  assumes "i < length t" "v \<noteq> kEmpty"
  shows "ns_used (t[i := v]) = (if t ! i = kEmpty then ns_used t + 1 else ns_used t)"
proof -
  have t: "t = take i t @ t ! i # drop (Suc i) t" and
    u: "t[i := v] = take i t @ v # drop (Suc i) t"
    using assms(1) by (rule id_take_nth_drop, rule upd_conv_take_nth_drop)
  have "ns_used t = ns_used (take i t) + (if t ! i = kEmpty then 0 else 1) + ns_used (drop (Suc i) t)"
    by (subst t) simp
  moreover have "ns_used (t[i := v]) = ns_used (take i t) + 1 + ns_used (drop (Suc i) t)"
    unfolding u using assms(2) by simp
  ultimately show ?thesis by simp
qed

lemma set_update_unique:
  assumes i: "i < length t" and u: "\<And>j. j < length t \<Longrightarrow> t ! j = t ! i \<Longrightarrow> j = i"
  shows "set (t[i := w]) = insert w (set t - {t ! i})"
proof (intro equalityI subsetI)
  fix x assume "x \<in> set (t[i := w])"
  then obtain j where "j < length t" "t[i := w] ! j = x"
    by (auto simp: in_set_conv_nth)
  with i u [of j] show "x \<in> insert w (set t - {t ! i})"
    by (cases "j = i") auto
next
  fix x assume "x \<in> insert w (set t - {t ! i})"
  then consider "x = w" | j where "j < length t" "t ! j = x" "x \<noteq> t ! i"
    by (auto simp: in_set_conv_nth)
  then show "x \<in> set (t[i := w])"
  proof cases
    case 1
    with i show ?thesis by (simp add: set_update_memI)
  next
    case 2
    then have "j \<noteq> i" by auto
    with 2 show ?thesis by (metis length_list_update nth_list_update_neq nth_mem)
  qed
qed

lemma ns_table_ok_inj:
  "ns_table_ok t \<Longrightarrow> i < length t \<Longrightarrow> j < length t \<Longrightarrow> t ! i \<ge> 0 \<Longrightarrow> t ! i = t ! j \<Longrightarrow> i = j"
  unfolding ns_table_ok_def by blast

lemma ns_table_ok_path:
  "ns_table_ok t \<Longrightarrow> j < length t \<Longrightarrow> t ! j \<ge> 0 \<Longrightarrow>
     \<exists>n < length t. j = ns_pos (length t) (t ! j) n \<and>
       (\<forall>m < n. t ! ns_pos (length t) (t ! j) m \<noteq> kEmpty)"
  unfolding ns_table_ok_def by blast

text \<open>
  Overwriting a slot with anything but \<open>kEmpty\<close> keeps the probe sequences of the other elements.
\<close>

lemma ns_table_ok_update:
  assumes ok: "ns_table_ok t" and i: "i < length t" and v: "v \<noteq> kEmpty"
    and new: "v \<ge> 0 \<Longrightarrow> ns_free_slot t v i \<and> v \<notin> set t"
  shows "ns_table_ok (t[i := v])"
proof -
  let ?u = "t[i := v]"
  have keep: "?u ! j \<noteq> kEmpty" if "t ! j \<noteq> kEmpty" for j
    using that v i by (cases "j = i") auto
  have path: "\<exists>n < length ?u. j = ns_pos (length ?u) (?u ! j) n \<and>
      (\<forall>m < n. ?u ! ns_pos (length ?u) (?u ! j) m \<noteq> kEmpty)"
    if j: "j < length ?u" "?u ! j \<ge> 0" for j
  proof -
    have "\<exists>n < length t. j = ns_pos (length t) (?u ! j) n \<and>
            (\<forall>m < n. t ! ns_pos (length t) (?u ! j) m \<noteq> kEmpty)"
    proof (cases "j = i")
      case True
      then have "?u ! j = v" using i by simp
      with j(2) new True show ?thesis by (auto simp: ns_free_slot_def)
    next
      case False
      then have "?u ! j = t ! j" by simp
      with ns_table_ok_path [OF ok, of j] j show ?thesis by simp
    qed
    then show ?thesis using keep by auto
  qed
  have inj: "a = b" if ab: "a < length t" "b < length t" "?u ! a \<ge> 0" "?u ! a = ?u ! b" for a b
  proof (cases "v \<ge> 0")
    case True
    then have nv: "v \<notin> set t" using new by simp
    then have "t ! j \<noteq> v" if "j < length t" for j
      using that by (metis nth_mem)
    then have "a = i \<longleftrightarrow> b = i"
      using ab by (metis nth_list_update_eq nth_list_update_neq i)
    then show ?thesis
      using ab ns_table_ok_inj [OF ok] by (metis nth_list_update_neq)
  next
    case False
    then have "a \<noteq> i" "b \<noteq> i"
      using ab i by auto
    then show ?thesis
      using ab ns_table_ok_inj [OF ok] by (metis nth_list_update_neq)
  qed
  show ?thesis
    using ok path inj unfolding ns_table_ok_def by auto
qed

lemma ns_inv_empty: "ns_inv s \<Longrightarrow> kEmpty \<in> set (ns_table s)"
  by (intro ns_used_less_empty) (auto simp: ns_inv_def)

lemma ns_table_ok_replicate: "ns_table_ok (replicate (2 ^ k) kEmpty)"
  by (auto simp: ns_table_ok_def kEmpty_def)

lemma ns_init_inv: "ns_inv ns_init \<and> ns_set ns_init = {}"
proof -
  have "ns_table_ok (replicate (2 ^ 3) kEmpty)"
    by (rule ns_table_ok_replicate)
  then show ?thesis
    by (auto simp: ns_inv_def ns_init_def kInline_def ns_set_def kEmpty_def)
qed

lemma ns_contains_correct:
  assumes "ns_inv s" "v \<ge> 0"
  shows "ns_contains s v = Some (v \<in> ns_set s)"
proof -
  obtain i where "ns_find_index (ns_table s) v = Some i"
    "if v \<in> set (ns_table s) then i < length (ns_table s) \<and> ns_table s ! i = v
     else ns_free_slot (ns_table s) v i"
    using ns_find_index_correct [of "ns_table s" v] ns_inv_empty [OF assms(1)] assms
    by (auto simp: ns_inv_def)
  then show ?thesis
    using assms(2) by (auto simp: ns_contains_def ns_set_def ns_free_slot_def kEmpty_def kDel_def
        split: if_splits)
qed

lemma ns_erase_correct:
  assumes "ns_inv s" "v \<ge> 0"
  shows "\<exists>s'. ns_erase s v = Some s' \<and> ns_inv s' \<and> ns_set s' = ns_set s - {v}"
proof -
  let ?t = "ns_table s"
  obtain i where i: "ns_find_index ?t v = Some i"
    "if v \<in> set ?t then i < length ?t \<and> ?t ! i = v else ns_free_slot ?t v i"
    using ns_find_index_correct [of ?t v] ns_inv_empty [OF assms(1)] assms
    by (auto simp: ns_inv_def)
  show ?thesis
  proof (cases "v \<in> set ?t")
    case True
    then have iv: "i < length ?t" "?t ! i = v"
      using i by auto
    have ne: "v \<noteq> kEmpty" using assms(2) by (simp add: kEmpty_def)
    have "ns_table_ok (?t[i := kDel])"
      using assms iv by (intro ns_table_ok_update) (auto simp: ns_inv_def kDel_def kEmpty_def)
    then have "ns_inv (s\<lparr>ns_table := ?t[i := kDel]\<rparr>)"
      using assms(1) iv ne ns_used_update [OF iv(1), of kDel]
      by (simp add: ns_inv_def kDel_def kEmpty_def)
    moreover have "ns_set (s\<lparr>ns_table := ?t[i := kDel]\<rparr>) = ns_set s - {v}"
    proof -
      have "ns_table_ok ?t" using assms(1) by (simp add: ns_inv_def)
      then have "j = i" if "j < length ?t" "?t ! j = ?t ! i" for j
        using ns_table_ok_inj [of ?t j i] that iv assms(2) by simp
      from set_update_unique [OF iv(1) this, of kDel]
      have "set (?t[i := kDel]) = insert kDel (set ?t - {v})"
        using iv(2) by simp
      then show ?thesis by (auto simp: ns_set_def kDel_def)
    qed
    ultimately show ?thesis
      using i(1) iv by (simp add: ns_erase_def)
  next
    case False
    then have "ns_free_slot ?t v i" using i by simp
    then have "?t ! i \<noteq> v"
      using assms(2) by (auto simp: ns_free_slot_def kEmpty_def kDel_def)
    then show ?thesis
      using assms(1) i(1) False by (auto simp: ns_erase_def ns_set_def)
  qed
qed

section \<open>Insertion and growth\<close>

lemma ns_store:
  assumes "ns_inv s" "v \<ge> 0" "v \<notin> ns_set s"
  obtains i where "ns_find_index (ns_table s) v = Some i" "i < length (ns_table s)"
    "ns_table s ! i \<noteq> v" "ns_table_ok ((ns_table s)[i := v])"
    "{e \<in> set ((ns_table s)[i := v]). e \<ge> 0} = insert v (ns_set s)"
    "ns_used ((ns_table s)[i := v]) =
       (if ns_table s ! i = kEmpty then ns_occupied s + 1 else ns_occupied s)"
proof -
  let ?t = "ns_table s"
  have ok: "ns_table_ok ?t" and occ: "ns_occupied s = ns_used ?t"
    using assms(1) by (simp_all add: ns_inv_def)
  have nv: "v \<notin> set ?t"
    using assms(2,3) by (simp add: ns_set_def)
  obtain i where i: "ns_find_index ?t v = Some i" "ns_free_slot ?t v i"
    using ns_find_index_correct [OF ok ns_inv_empty [OF assms(1)] assms(2)] nv by auto
  have lt: "i < length ?t" and e: "?t ! i < 0"
    using i(2) by (auto simp: ns_free_slot_def kEmpty_def kDel_def)
  have ne: "v \<noteq> kEmpty"
    using assms(2) by (simp add: kEmpty_def)
  have "set (?t[i := v]) \<subseteq> insert v (set ?t)"
    by (rule set_update_subset_insert)
  moreover have "insert v {x \<in> set ?t. x \<ge> 0} \<subseteq> set (?t[i := v])"
  proof
    fix x assume "x \<in> insert v {x \<in> set ?t. x \<ge> 0}"
    then consider "x = v" | j where "j < length ?t" "?t ! j = x" "x \<ge> 0"
      by (auto simp: in_set_conv_nth)
    then show "x \<in> set (?t[i := v])"
    proof cases
      case 1
      with lt show ?thesis by (simp add: set_update_memI)
    next
      case 2
      then have "j \<noteq> i" using e by auto
      with 2 show ?thesis by (metis length_list_update nth_list_update_neq nth_mem)
    qed
  qed
  ultimately have "{e \<in> set (?t[i := v]). e \<ge> 0} = insert v (ns_set s)"
    using assms(2) unfolding ns_set_def by blast
  then show ?thesis
    using that [OF i(1) lt] e assms(2) ns_table_ok_update [OF ok lt ne] i(2) nv
      ns_used_update [OF lt ne] occ by auto
qed

lemma ns_present:
  assumes "ns_inv s" "v \<in> ns_set s"
  obtains i where "ns_find_index (ns_table s) v = Some i" "ns_table s ! i = v"
  using ns_find_index_correct [of "ns_table s" v] ns_inv_empty [OF assms(1)] assms
  by (auto simp: ns_inv_def ns_set_def)

text \<open>An insertion with room for one more slot does not grow the table.\<close>

lemma ns_insert_room:
  assumes "ns_inv s" "v \<ge> 0"
    "Suc (ns_occupied s) < length (ns_table s) - length (ns_table s) div 4"
  shows "\<exists>s'. ns_insert_depth (Suc d) s v = Some (v \<notin> ns_set s, s') \<and> ns_inv s' \<and>
           ns_set s' = insert v (ns_set s) \<and> length (ns_table s') = length (ns_table s) \<and>
           ns_occupied s' \<le> Suc (ns_occupied s)"
proof (cases "v \<in> ns_set s")
  case True
  obtain i where "ns_find_index (ns_table s) v = Some i" "ns_table s ! i = v"
    by (rule ns_present [OF assms(1) True])
  with True assms(1) show ?thesis
    by (simp add: insert_absorb)
next
  case False
  then obtain i where i: "ns_find_index (ns_table s) v = Some i" "i < length (ns_table s)"
    "ns_table s ! i \<noteq> v" "ns_table_ok ((ns_table s)[i := v])"
    "{e \<in> set ((ns_table s)[i := v]). e \<ge> 0} = insert v (ns_set s)"
    "ns_used ((ns_table s)[i := v]) =
       (if ns_table s ! i = kEmpty then ns_occupied s + 1 else ns_occupied s)"
    by (rule ns_store [OF assms(1,2)])
  let ?occ = "if ns_table s ! i = kEmpty then ns_occupied s + 1 else ns_occupied s"
  let ?s = "\<lparr>ns_table = (ns_table s)[i := v], ns_occupied = ?occ\<rparr>"
  have occ: "?occ < length (ns_table s) - length (ns_table s) div 4"
    using assms(3) by simp
  then have "ns_insert_depth (Suc d) s v = Some (True, ?s)"
    using i(1,3) by (simp add: Let_def)
  moreover have "ns_inv ?s"
    using assms(1) i(4,6) occ by (simp add: ns_inv_def)
  ultimately show ?thesis
    using False i(5) by (simp add: ns_set_def)
qed

lemma ns_insert_all_room:
  assumes "ns_inv s"
    "ns_occupied s + length es < length (ns_table s) - length (ns_table s) div 4"
  shows "\<exists>s'. ns_insert_all (Suc d) es s = Some s' \<and> ns_inv s' \<and>
           ns_set s' = ns_set s \<union> {e \<in> set es. e \<ge> 0}"
  using assms
proof (induction es arbitrary: s)
  case Nil
  then show ?case by simp
next
  case (Cons e es)
  show ?case
  proof (cases "e \<ge> 0")
    case True
    have "Suc (ns_occupied s) < length (ns_table s) - length (ns_table s) div 4"
      using Cons.prems(2) by simp
    from ns_insert_room [OF Cons.prems(1) True this, of d] obtain s1 where
      s1: "ns_insert_depth (Suc d) s e = Some (e \<notin> ns_set s, s1)" "ns_inv s1"
        "ns_set s1 = insert e (ns_set s)" "length (ns_table s1) = length (ns_table s)"
        "ns_occupied s1 \<le> Suc (ns_occupied s)"
      by auto
    have "ns_occupied s1 + length es < length (ns_table s1) - length (ns_table s1) div 4"
      using Cons.prems(2) s1(4,5) by simp
    from Cons.IH [OF s1(2) this] s1 True show ?thesis
      by (auto simp del: ns_insert_depth.simps)
  next
    case False
    with Cons.IH [OF Cons.prems(1)] Cons.prems(2) show ?thesis by auto
  qed
qed

lemma ns_grown_inv:
  assumes "ns_table_ok t" "kInline \<le> length t"
  shows "ns_inv \<lparr>ns_table = replicate (length t * 2) kEmpty, ns_occupied = 0\<rparr>"
proof -
  obtain k where "length t = 2 ^ k"
    using assms(1) by (auto simp: ns_table_ok_def)
  then have "ns_table_ok (replicate (length t * 2) kEmpty)"
    using ns_table_ok_replicate [of "Suc k"] by (simp add: mult.commute)
  with assms(2) show ?thesis
    by (simp add: ns_inv_def kInline_def)
qed

lemma ns_insert_correct:
  assumes "ns_inv s" "v \<ge> 0"
  shows "\<exists>s'. ns_insert s v = Some (v \<notin> ns_set s, s') \<and> ns_inv s' \<and> ns_set s' = insert v (ns_set s)"
proof (cases "Suc (ns_occupied s) < length (ns_table s) - length (ns_table s) div 4 \<or> v \<in> ns_set s")
  case True
  then show ?thesis
  proof
    assume "Suc (ns_occupied s) < length (ns_table s) - length (ns_table s) div 4"
    from ns_insert_room [OF assms this, of 1] show ?thesis
      by (auto simp: ns_insert_def numeral_2_eq_2 simp del: ns_insert_depth.simps)
  next
    assume v: "v \<in> ns_set s"
    obtain i where "ns_find_index (ns_table s) v = Some i" "ns_table s ! i = v"
      by (rule ns_present [OF assms(1) v])
    with v assms(1) show ?thesis
      by (simp add: ns_insert_def numeral_2_eq_2 insert_absorb)
  qed
next
  case False
  then have nv: "v \<notin> ns_set s" by simp
  obtain i where i: "ns_find_index (ns_table s) v = Some i" "i < length (ns_table s)"
    "ns_table s ! i \<noteq> v" "ns_table_ok ((ns_table s)[i := v])"
    "{e \<in> set ((ns_table s)[i := v]). e \<ge> 0} = insert v (ns_set s)"
    "ns_used ((ns_table s)[i := v]) =
       (if ns_table s ! i = kEmpty then ns_occupied s + 1 else ns_occupied s)"
    by (rule ns_store [OF assms nv])
  let ?t = "(ns_table s)[i := v]"
  let ?occ = "if ns_table s ! i = kEmpty then ns_occupied s + 1 else ns_occupied s"
  let ?g = "\<lparr>ns_table = replicate (length ?t * 2) kEmpty, ns_occupied = 0\<rparr>"
  show ?thesis
  proof (cases "?occ \<ge> length ?t - length ?t div 4")
    case True
    have len: "kInline \<le> length ?t"
      using assms(1) by (simp add: ns_inv_def)
    have g: "ns_inv ?g"
      by (rule ns_grown_inv [OF i(4) len])
    have "ns_occupied ?g + length ?t < length (ns_table ?g) - length (ns_table ?g) div 4"
      using len by (simp add: kInline_def)
    from ns_insert_all_room [OF g this, of 0] obtain s' where
      s': "ns_insert_all (Suc 0) ?t ?g = Some s'" "ns_inv s'"
        "ns_set s' = ns_set ?g \<union> {e \<in> set ?t. e \<ge> 0}"
      by auto
    have "ns_set ?g = {}"
      by (auto simp: ns_set_def kEmpty_def)
    with s' i(5) have "ns_set s' = insert v (ns_set s)"
      by simp
    moreover have "ns_insert s v = Some (True, s')"
      using i(1,3) True s'(1) by (simp add: ns_insert_def numeral_2_eq_2 Let_def)
    ultimately show ?thesis
      using s'(2) nv by simp
  next
    case occ: False
    let ?s = "\<lparr>ns_table = ?t, ns_occupied = ?occ\<rparr>"
    have "ns_insert s v = Some (True, ?s)"
      using i(1,3) occ by (simp add: ns_insert_def numeral_2_eq_2 Let_def)
    moreover have "ns_inv ?s"
      using assms(1) i(4,6) occ by (simp add: ns_inv_def)
    ultimately show ?thesis
      using nv i(5) by (simp add: ns_set_def)
  qed
qed

section \<open>The interface of the graph\<close>

text \<open>
  What the graph relies on: a finite set of non-negative integers whose operations return, and an
  enumeration of it.
\<close>

locale neighbour_set =
  fixes elems :: "'s \<Rightarrow> int set"
    and invar :: "'s \<Rightarrow> bool"
    and contains :: "'s \<Rightarrow> int \<Rightarrow> bool option"
    and insert_elem :: "'s \<Rightarrow> int \<Rightarrow> (bool \<times> 's) option"
    and erase :: "'s \<Rightarrow> int \<Rightarrow> 's option"
    and elements :: "'s \<Rightarrow> int list"
  assumes contains_spec: "invar s \<Longrightarrow> v \<ge> 0 \<Longrightarrow> contains s v = Some (v \<in> elems s)"
    and insert_spec: "invar s \<Longrightarrow> v \<ge> 0 \<Longrightarrow>
      \<exists>s'. insert_elem s v = Some (v \<notin> elems s, s') \<and> invar s' \<and> elems s' = insert v (elems s)"
    and erase_spec: "invar s \<Longrightarrow> v \<ge> 0 \<Longrightarrow>
      \<exists>s'. erase s v = Some s' \<and> invar s' \<and> elems s' = elems s - {v}"
    and elements_spec: "invar s \<Longrightarrow> set (elements s) = elems s"
    and elems_nonneg: "invar s \<Longrightarrow> v \<in> elems s \<Longrightarrow> v \<ge> 0"
begin

text \<open>Undoing an insertion of a fresh element gives the old set back.\<close>

lemma insert_erase_undo:
  assumes "invar s" "v \<ge> 0" "v \<notin> elems s" "insert_elem s v = Some (r, s1)"
  shows "\<exists>s2. erase s1 v = Some s2 \<and> invar s2 \<and> elems s2 = elems s"
proof -
  have "invar s1" "elems s1 = insert v (elems s)"
    using insert_spec [OF assms(1,2)] assms(4) by auto
  with erase_spec [of s1 v] assms(2,3) show ?thesis by auto
qed

text \<open>A removed element is no longer found; a stored one is.\<close>

lemma contains_after_erase:
  "invar s \<Longrightarrow> v \<ge> 0 \<Longrightarrow> w \<ge> 0 \<Longrightarrow> erase s v = Some s' \<Longrightarrow>
     contains s' w = Some (w \<in> elems s \<and> w \<noteq> v)"
  using erase_spec [of s v] contains_spec [of s' w] by auto

lemma contains_after_insert:
  "invar s \<Longrightarrow> v \<ge> 0 \<Longrightarrow> w \<ge> 0 \<Longrightarrow> insert_elem s v = Some (r, s') \<Longrightarrow>
     contains s' w = Some (w = v \<or> w \<in> elems s)"
  using insert_spec [of s v] contains_spec [of s' w] by auto

end

interpretation ns: neighbour_set ns_set ns_inv ns_contains ns_insert ns_erase ns_elements
proof
  show "\<And>s v. ns_inv s \<Longrightarrow> v \<ge> 0 \<Longrightarrow> ns_contains s v = Some (v \<in> ns_set s)"
    by (rule ns_contains_correct)
  show "\<And>s v. ns_inv s \<Longrightarrow> v \<ge> 0 \<Longrightarrow>
      \<exists>s'. ns_insert s v = Some (v \<notin> ns_set s, s') \<and> ns_inv s' \<and> ns_set s' = insert v (ns_set s)"
    by (rule ns_insert_correct)
  show "\<And>s v. ns_inv s \<Longrightarrow> v \<ge> 0 \<Longrightarrow>
      \<exists>s'. ns_erase s v = Some s' \<and> ns_inv s' \<and> ns_set s' = ns_set s - {v}"
    by (rule ns_erase_correct)
  show "\<And>s. ns_inv s \<Longrightarrow> set (ns_elements s) = ns_set s"
    by (rule ns_elements_set)
  show "\<And>s v. ns_inv s \<Longrightarrow> v \<in> ns_set s \<Longrightarrow> v \<ge> 0"
    by (simp add: ns_set_def)
qed

section \<open>Sequences of updates\<close>

datatype ns_op = NS_Insert int | NS_Erase int

fun ns_run :: "ns_op list \<Rightarrow> node_set \<Rightarrow> node_set option" where
  "ns_run [] s = Some s"
| "ns_run (NS_Insert v # ps) s = (case ns_insert s v of None \<Rightarrow> None | Some (_, s') \<Rightarrow> ns_run ps s')"
| "ns_run (NS_Erase v # ps) s = (case ns_erase s v of None \<Rightarrow> None | Some s' \<Rightarrow> ns_run ps s')"

fun ns_op_value :: "ns_op \<Rightarrow> int" where
  "ns_op_value (NS_Insert v) = v"
| "ns_op_value (NS_Erase v) = v"

fun ns_spec :: "ns_op list \<Rightarrow> int set \<Rightarrow> int set" where
  "ns_spec [] A = A"
| "ns_spec (NS_Insert v # ps) A = ns_spec ps (insert v A)"
| "ns_spec (NS_Erase v # ps) A = ns_spec ps (A - {v})"

lemma ns_run_correct:
  "ns_inv s \<Longrightarrow> \<forall>p \<in> set ps. ns_op_value p \<ge> 0 \<Longrightarrow>
     \<exists>s'. ns_run ps s = Some s' \<and> ns_inv s' \<and> ns_set s' = ns_spec ps (ns_set s)"
proof (induction ps arbitrary: s)
  case Nil
  then show ?case by simp
next
  case (Cons p ps)
  show ?case
  proof (cases p)
    case (NS_Insert v)
    with ns.insert_spec [OF Cons.prems(1), of v] Cons show ?thesis by fastforce
  next
    case (NS_Erase v)
    with ns.erase_spec [OF Cons.prems(1), of v] Cons show ?thesis by fastforce
  qed
qed



end
