(* ===== verification/Rank_Order.thy ===== *)
theory Rank_Order
  imports Prelude "HOL-Library.Multiset"
begin

text \<open>
  The order-theoretic core of the Pearce-Kelly step of \<open>GraphCycles\<close>: \<open>std::merge\<close> on the
  rank lists, and the fact that handing the merged ranks out to the backward set and then to the
  forward set repairs the topological order. Ranks are a function from node numbers to integers, so
  that nothing here depends on the representation of the graph.
\<close>

section \<open>Merging sorted lists\<close>

fun std_merge :: "int list \<Rightarrow> int list \<Rightarrow> int list" where
  "std_merge [] ys = ys"
| "std_merge xs [] = xs"
| "std_merge (x # xs) (y # ys) =
     (if y < x then y # std_merge (x # xs) ys else x # std_merge xs (y # ys))"

lemma std_merge_mset: "mset (std_merge xs ys) = mset xs + mset ys"
  by (induction xs ys rule: std_merge.induct) auto

lemma std_merge_set: "set (std_merge xs ys) = set xs \<union> set ys"
  by (metis std_merge_mset mset_append set_append set_mset_mset)

lemma std_merge_length: "length (std_merge xs ys) = length xs + length ys"
  by (metis std_merge_mset mset_append length_append size_mset)

lemma std_merge_sorted: "sorted xs \<Longrightarrow> sorted ys \<Longrightarrow> sorted (std_merge xs ys)"
  by (induction xs ys rule: std_merge.induct) (auto simp: std_merge_set)

lemma std_merge_distinct:
  "distinct xs \<Longrightarrow> distinct ys \<Longrightarrow> set xs \<inter> set ys = {} \<Longrightarrow> distinct (std_merge xs ys)"
  using std_merge_mset [of xs ys] mset_eq_imp_distinct_iff [of "std_merge xs ys" "xs @ ys"] by simp

text \<open>A list that is merged with another can only move to smaller values at its own positions.\<close>

lemma std_merge_nth_le:
  "sorted xs \<Longrightarrow> k < length xs \<Longrightarrow> std_merge xs ys ! k \<le> xs ! k"
proof (induction xs ys arbitrary: k rule: std_merge.induct)
  case (3 x xs y ys)
  show ?case
  proof (cases "y < x")
    case True
    show ?thesis
    proof (cases k)
      case (Suc k')
      have "std_merge (x # xs) ys ! k' \<le> (x # xs) ! k'"
        using True 3 Suc by auto
      also have "\<dots> \<le> (x # xs) ! k"
        using "3.prems" Suc by (intro sorted_nth_mono) auto
      finally show ?thesis using True Suc by simp
    qed (use True in simp)
  next
    case False
    then show ?thesis using 3 by (cases k) auto
  qed
qed auto

text \<open>The other list, placed after the first one, can only move to larger values.\<close>

lemma std_merge_nth_ge:
  "sorted xs \<Longrightarrow> sorted ys \<Longrightarrow> k < length ys \<Longrightarrow> ys ! k \<le> std_merge xs ys ! (length xs + k)"
proof (induction xs ys arbitrary: k rule: std_merge.induct)
  case (3 x xs y ys)
  show ?case
  proof (cases "y < x")
    case True
    show ?thesis
    proof (cases k)
      case 0
      have "std_merge (x # xs) ys ! length xs \<in> set (std_merge (x # xs) ys)"
        by (intro nth_mem) (simp add: std_merge_length)
      then have "y \<le> std_merge (x # xs) ys ! length xs"
        using "3.prems" True by (auto simp: std_merge_set)
      then show ?thesis using True 0 by simp
    next
      case (Suc k')
      then show ?thesis using True 3 by auto
    qed
  next
    case False
    then show ?thesis using 3 by auto
  qed
qed auto

section \<open>Handing out ranks\<close>

lemma reassign_image:
  assumes L: "length L = length M" "set M = rk ` set L"
    and new: "\<And>k. k < length L \<Longrightarrow> rk' (L ! k) = M ! k"
    and old: "\<And>i. i \<notin> set L \<Longrightarrow> rk' i = rk i"
  shows "rk' ` set L = rk ` set L"
proof -
  have "rk' ` set L = set (map rk' L)" by simp
  also have "map rk' L = M" using L(1) new by (intro nth_equalityI) auto
  finally show ?thesis using L(2) by simp
qed

text \<open>Reassigned ranks are again a bijection onto the same set.\<close>

lemma reassign_bij:
  assumes bij: "bij_betw rk A R" and L: "distinct L" "set L \<subseteq> A"
    and M: "length L = length M" "set M = rk ` set L"
    and new: "\<And>k. k < length L \<Longrightarrow> rk' (L ! k) = M ! k"
    and old: "\<And>i. i \<notin> set L \<Longrightarrow> rk' i = rk i"
  shows "bij_betw rk' A R"
proof -
  have im: "rk' ` set L = rk ` set L"
    by (rule reassign_image [OF M new old])
  have "card (rk ` set L) = card (set L)"
    using bij L(2) by (meson bij_betw_def card_image inj_on_subset)
  then have "inj_on rk' (set L)"
    using im by (intro eq_card_imp_inj_on) auto
  then have b1: "bij_betw rk' (set L) (rk ` set L)"
    using im by (simp add: bij_betw_def)
  have "bij_betw rk (A - set L) (rk ` (A - set L))"
    using bij by (meson Diff_subset bij_betw_subset)
  then have b2: "bij_betw rk' (A - set L) (rk ` (A - set L))"
    using old by (subst bij_betw_cong [of _ _ rk]) auto
  have "rk ` set L \<inter> rk ` (A - set L) = {}"
    using bij L(2) by (auto simp: bij_betw_def inj_on_def)
  then have "bij_betw rk' (set L \<union> (A - set L)) (rk ` set L \<union> rk ` (A - set L))"
    by (rule bij_betw_combine [OF b1 b2])
  moreover have "set L \<union> (A - set L) = A" using L(2) by auto
  moreover have "rk ` set L \<union> rk ` (A - set L) = R"
    using bij L(2) by (auto simp: bij_betw_def)
  ultimately show ?thesis by simp
qed

text \<open>
  The reassignment of \<open>Reorder\<close>: \<open>sb\<close> and \<open>sf\<close> are the backward and the forward set in the
  order of their old ranks, and the nodes of \<open>sb @ sf\<close> get the merged old ranks.
\<close>

definition reassigned :: "(nat \<Rightarrow> int) \<Rightarrow> nat list \<Rightarrow> nat list \<Rightarrow> (nat \<Rightarrow> int) \<Rightarrow> bool" where
  "reassigned rk sb sf rk' \<longleftrightarrow>
     (\<forall>k < length (sb @ sf). rk' ((sb @ sf) ! k) = std_merge (map rk sb) (map rk sf) ! k) \<and>
     (\<forall>i. i \<notin> set (sb @ sf) \<longrightarrow> rk' i = rk i)"

lemma reassigned_back:
  assumes "reassigned rk sb sf rk'" "k < length sb"
  shows "rk' (sb ! k) = std_merge (map rk sb) (map rk sf) ! k"
  using assms unfolding reassigned_def by (metis length_append nth_append trans_less_add1)

lemma reassigned_fwd:
  assumes "reassigned rk sb sf rk'" "k < length sf"
  shows "rk' (sf ! k) = std_merge (map rk sb) (map rk sf) ! (length sb + k)"
  using assms unfolding reassigned_def by (metis length_append nat_add_left_cancel_less nth_append_length_plus)

lemma reassigned_outside: "reassigned rk sb sf rk' \<Longrightarrow> i \<notin> set sb \<Longrightarrow> i \<notin> set sf \<Longrightarrow> rk' i = rk i"
  by (simp add: reassigned_def)

lemma reassigned_back_le:
  assumes "reassigned rk sb sf rk'" "sorted (map rk sb)" "b \<in> set sb"
  shows "rk' b \<le> rk b"
proof -
  obtain k where k: "k < length sb" "b = sb ! k" using assms(3) by (metis in_set_conv_nth)
  then show ?thesis
    using std_merge_nth_le [of "map rk sb" k "map rk sf"] reassigned_back [OF assms(1)] assms(2)
    by simp
qed

lemma reassigned_fwd_ge:
  assumes "reassigned rk sb sf rk'" "sorted (map rk sb)" "sorted (map rk sf)" "f \<in> set sf"
  shows "rk f \<le> rk' f"
proof -
  obtain k where k: "k < length sf" "f = sf ! k" using assms(4) by (metis in_set_conv_nth)
  then show ?thesis
    using std_merge_nth_ge [of "map rk sb" "map rk sf" k] reassigned_fwd [OF assms(1)] assms(2,3)
    by simp
qed

text \<open>Earlier nodes of \<open>sb @ sf\<close> get smaller ranks.\<close>

lemma reassigned_mono:
  assumes r: "reassigned rk sb sf rk'" and s: "sorted (map rk sb)" "sorted (map rk sf)"
    and d: "distinct (map rk (sb @ sf))" and kl: "k < l" "l < length (sb @ sf)"
  shows "rk' ((sb @ sf) ! k) < rk' ((sb @ sf) ! l)"
proof -
  let ?M = "std_merge (map rk sb) (map rk sf)"
  have "sorted ?M" "distinct ?M"
    using s d by (auto intro!: std_merge_sorted std_merge_distinct)
  then have "sorted_wrt (<) ?M" by (simp add: strict_sorted_iff)
  then have "?M ! k < ?M ! l"
    using kl by (auto simp: std_merge_length sorted_wrt_iff_nth_less)
  then show ?thesis using r kl by (auto simp: reassigned_def)
qed

lemma reassigned_mem:
  assumes "reassigned rk sb sf rk'" "i \<in> set (sb @ sf)"
  shows "rk' i \<in> rk ` (set sb \<union> set sf)"
proof -
  let ?M = "std_merge (map rk sb) (map rk sf)"
  obtain k where k: "k < length (sb @ sf)" "i = (sb @ sf) ! k"
    using assms(2) by (metis in_set_conv_nth)
  then have "rk' i = ?M ! k" using assms(1) unfolding reassigned_def by metis
  moreover have "?M ! k \<in> set ?M" using k by (intro nth_mem) (simp add: std_merge_length)
  ultimately show ?thesis by (auto simp: std_merge_set)
qed

lemma sorted_key_index_less:
  assumes "sorted (map rk xs)" "k < length xs" "l < length xs" "rk (xs ! k) < (rk (xs ! l) :: int)"
  shows "k < l"
proof (rule ccontr)
  assume "\<not> k < l"
  then have "map rk xs ! l \<le> map rk xs ! k"
    using assms by (intro sorted_nth_mono) auto
  then show False using assms by simp
qed

lemma reassigned_within:
  assumes r: "reassigned rk sb sf rk'" and s: "sorted (map rk sb)" "sorted (map rk sf)"
    and d: "distinct (map rk (sb @ sf))" and lt: "rk i < rk j"
    and ij: "i \<in> set sb \<and> j \<in> set sb \<or> i \<in> set sf \<and> j \<in> set sf"
  shows "rk' i < rk' j"
  using ij
proof
  assume "i \<in> set sb \<and> j \<in> set sb"
  then obtain k l where "k < length sb" "i = sb ! k" "l < length sb" "j = sb ! l"
    by (auto simp: in_set_conv_nth)
  then show ?thesis
    using reassigned_mono [OF r s d, of k l] sorted_key_index_less [OF s(1), of k l] lt
    by (simp add: nth_append)
next
  assume "i \<in> set sf \<and> j \<in> set sf"
  then obtain k l where "k < length sf" "i = sf ! k" "l < length sf" "j = sf ! l"
    by (auto simp: in_set_conv_nth)
  then show ?thesis
    using reassigned_mono [OF r s d, of "length sb + k" "length sb + l"]
      sorted_key_index_less [OF s(2), of k l] lt
    by (simp add: nth_append)
qed

lemma reassigned_across:
  assumes r: "reassigned rk sb sf rk'" and s: "sorted (map rk sb)" "sorted (map rk sf)"
    and d: "distinct (map rk (sb @ sf))" and ij: "i \<in> set sb" "j \<in> set sf"
  shows "rk' i < rk' j"
proof -
  obtain k l where "k < length sb" "i = sb ! k" "l < length sf" "j = sf ! l"
    using ij by (metis in_set_conv_nth)
  then show ?thesis
    using reassigned_mono [OF r s d, of k "length sb + l"] by (simp add: nth_append)
qed

section \<open>The repaired order\<close>

text \<open>
  \<open>E\<close> holds the new edge \<open>(x, y)\<close>, all other edges respect the ranks; the forward set is closed
  under successors below \<open>rk x\<close> and the backward set under predecessors above \<open>rk y\<close>.
\<close>

lemma reorder_topological:
  assumes r: "reassigned rk sb sf rk'" and s: "sorted (map rk sb)" "sorted (map rk sf)"
    and d: "distinct (map rk (sb @ sf))"
    and inj: "inj_on rk A" and EA: "\<And>i j. (i, j) \<in> E \<Longrightarrow> i \<in> A \<and> j \<in> A" and A: "y \<in> A"
    and ok: "\<And>i j. (i, j) \<in> E \<Longrightarrow> (i, j) \<noteq> (x, y) \<Longrightarrow> rk i < rk j"
    and xy: "x \<in> set sb" "y \<in> set sf"
    and fr: "\<And>f. f \<in> set sf \<Longrightarrow> rk y \<le> rk f \<and> rk f < rk x"
    and br: "\<And>b. b \<in> set sb \<Longrightarrow> rk y < rk b \<and> rk b \<le> rk x"
    and fc: "\<And>i j. i \<in> set sf \<Longrightarrow> (i, j) \<in> E \<Longrightarrow> j \<in> set sf \<or> rk x < rk j"
    and bc: "\<And>i j. j \<in> set sb \<Longrightarrow> (i, j) \<in> E \<Longrightarrow> i \<in> set sb \<or> i \<in> set sf \<or> rk i \<le> rk y"
    and e: "(i, j) \<in> E"
  shows "rk' i < rk' j"
proof -
  have dis: "set sb \<inter> set sf = {}" using d by (auto simp: distinct_map)
  have range: "rk y \<le> rk' k \<and> rk' k \<le> rk x" if "k \<in> set sb \<union> set sf" for k
    using reassigned_mem [OF r, of k] that fr br by fastforce
  consider (forw) "i \<in> set sf" | (bwd) "i \<in> set sb" | (out) "i \<notin> set sb" "i \<notin> set sf" by blast
  then show ?thesis
  proof cases
    case forw
    then consider "j \<in> set sf" | "rk x < rk j" "j \<notin> set sf" using fc e by blast
    then show ?thesis
    proof cases
      case 1
      then show ?thesis
        using reassigned_within [OF r s d] forw ok [OF e] dis xy by (metis disjoint_iff prod.inject)
    next
      case 2
      then have "rk' j = rk j" using br by (intro reassigned_outside [OF r]) force+
      then show ?thesis using range [of i] forw 2 by simp
    qed
  next
    case bwd
    consider "j \<in> set sf" | "j \<in> set sb" "j \<noteq> y" | "j \<notin> set sf" "j \<notin> set sb" "j \<noteq> y"
      using xy dis by blast
    then show ?thesis
    proof cases
      case 1 then show ?thesis using reassigned_across [OF r s d] bwd by blast
    next
      case 2 then show ?thesis using reassigned_within [OF r s d] bwd ok [OF e] by blast
    next
      case 3
      then have "rk i < rk j" using ok [OF e] by simp
      then show ?thesis
        using reassigned_back_le [OF r s(1) bwd] reassigned_outside [OF r 3(2,1)] by simp
    qed
  next
    case out
    have lt: "rk i < rk j" using ok [OF e] out xy by auto
    have i: "rk' i = rk i" by (rule reassigned_outside [OF r out])
    consider "j \<in> set sf" | "j \<in> set sb" | "j \<notin> set sb" "j \<notin> set sf" by blast
    then show ?thesis
    proof cases
      case 1 then show ?thesis using reassigned_fwd_ge [OF r s, of j] i lt by simp
    next
      case 2
      have "i \<noteq> y" using out xy by blast
      then have "rk i \<noteq> rk y" using inj EA [OF e] A by (meson inj_onD)
      then have "rk i < rk y" using bc [OF 2 e] out by auto
      then show ?thesis using range [of j] 2 i by simp
    next
      case 3 then show ?thesis using reassigned_outside [OF r 3] i lt by simp
    qed
  qed
qed

end
