(* ===== verification/Graph_Cycles.thy ===== *)
theory Graph_Cycles
  imports Node_Set Rank_Order
begin

text \<open>
  \<open>GraphCycles\<close> (turbo/synchronization/internal/graphcycles.cc), the deadlock detector behind
  \<open>Mutex\<close>: a directed graph that refuses edges which would close a cycle, with the incremental
  topological order of Pearce and Kelly. A node is a slot of \<open>nodes_\<close>; the source's
  \<open>int32_t\<close> node numbers and ranks are \<open>int\<close>, versions are 32-bit words and handles are
  64-bit words. The scratch vectors of the representation are results of the functions that fill
  them; the stack of a depth-first search is a list with its back first.
\<close>

section \<open>State\<close>

record gnode =
  gn_rank :: int
  gn_version :: u32
  gn_next_hash :: int
  gn_visited :: bool
  gn_masked_ptr :: u64
  gn_in :: node_set
  gn_out :: node_set
  gn_priority :: int
  gn_nstack :: int
  gn_stack :: "u64 list"

record graph_rep =
  gr_nodes :: "gnode list"
  gr_free :: "int list"
  gr_table :: "nat \<Rightarrow> int"

type_synonym graph_id = u64

section \<open>Identifiers and pointers\<close>

definition InvalidGraphId :: graph_id where
  "InvalidGraphId = 0"

definition MakeId :: "int \<Rightarrow> u32 \<Rightarrow> graph_id" where
  "MakeId index version = push_bit 32 (ucast version) OR ucast (word_of_int index :: u32)"

definition NodeIndex :: "graph_id \<Rightarrow> int" where
  "NodeIndex gid = sint (ucast gid :: u32)"

definition NodeVersion :: "graph_id \<Rightarrow> u32" where
  "NodeVersion gid = ucast (drop_bit 32 gid)"

definition HideMask :: u64 where
  "HideMask = push_bit ((8 - 4) * 8) 0xF03A5F7B OR 0xF03A5F7B"

definition HidePtr :: "u64 \<Rightarrow> u64" where
  "HidePtr p = p XOR HideMask"

definition UnhidePtr :: "u64 \<Rightarrow> u64" where
  "UnhidePtr hidden = hidden XOR HideMask"

text \<open>\<open>static_cast<uint32_t>\<close> of a node number, as an index of \<open>nodes_\<close>.\<close>

definition vec_index :: "int \<Rightarrow> nat" where
  "vec_index v = unat (word_of_int v :: u32)"

definition node_at :: "gnode list \<Rightarrow> int \<Rightarrow> fault + gnode" where
  "node_at ns v = (if vec_index v < length ns then Inr (ns ! vec_index v) else Inl Out_of_range)"

definition upd_node :: "int \<Rightarrow> (gnode \<Rightarrow> gnode) \<Rightarrow> gnode list \<Rightarrow> gnode list" where
  "upd_node v f ns = ns[vec_index v := f (ns ! vec_index v)]"

section \<open>The pointer map\<close>

text \<open>
  \<open>None\<close> is the outcome of a chain that does not end or that leaves \<open>nodes_\<close>.
\<close>

definition kHashTableSize :: nat where
  "kHashTableSize = 262139"

definition pm_hash :: "u64 \<Rightarrow> nat" where
  "pm_hash p = unat p mod kHashTableSize"

partial_function (option) pm_find_from :: "gnode list \<Rightarrow> u64 \<Rightarrow> int \<Rightarrow> int option" where
  "pm_find_from ns masked i =
     (if i = - 1 then Some (- 1)
      else if vec_index i < length ns
      then let n = ns ! vec_index i in
           if gn_masked_ptr n = masked then Some i else pm_find_from ns masked (gn_next_hash n)
      else None)"

definition pm_find :: "graph_rep \<Rightarrow> u64 \<Rightarrow> int option" where
  "pm_find r p = pm_find_from (gr_nodes r) (HidePtr p) (gr_table r (pm_hash p))"

definition pm_add :: "u64 \<Rightarrow> int \<Rightarrow> graph_rep \<Rightarrow> graph_rep" where
  "pm_add p i r =
     r\<lparr>gr_nodes := upd_node i (\<lambda>n. n\<lparr>gn_next_hash := gr_table r (pm_hash p)\<rparr>) (gr_nodes r),
       gr_table := (gr_table r)(pm_hash p := i)\<rparr>"

text \<open>
  \<open>Remove\<close> follows the chain with a pointer to the slot that names the current entry: the bucket
  (\<open>None\<close>) or the \<open>next_hash\<close> of the previous entry.
\<close>

definition pm_slot :: "graph_rep \<Rightarrow> nat \<Rightarrow> int option \<Rightarrow> int" where
  "pm_slot r h slot =
     (case slot of None \<Rightarrow> gr_table r h | Some prev \<Rightarrow> gn_next_hash (gr_nodes r ! vec_index prev))"

definition pm_set_slot :: "nat \<Rightarrow> int option \<Rightarrow> int \<Rightarrow> graph_rep \<Rightarrow> graph_rep" where
  "pm_set_slot h slot v r =
     (case slot of
        None \<Rightarrow> r\<lparr>gr_table := (gr_table r)(h := v)\<rparr>
      | Some prev \<Rightarrow>
          r\<lparr>gr_nodes := upd_node prev (\<lambda>n. n\<lparr>gn_next_hash := v\<rparr>) (gr_nodes r)\<rparr>)"

partial_function (option) pm_remove_from ::
    "nat \<Rightarrow> u64 \<Rightarrow> int option \<Rightarrow> graph_rep \<Rightarrow> (int \<times> graph_rep) option" where
  "pm_remove_from h masked slot r =
     (let index = pm_slot r h slot in
      if index = - 1 then Some (- 1, r)
      else if vec_index index < length (gr_nodes r)
      then let n = gr_nodes r ! vec_index index in
           if gn_masked_ptr n = masked
           then let r1 = pm_set_slot h slot (gn_next_hash n) r
                in Some (index,
                     r1\<lparr>gr_nodes := upd_node index (\<lambda>m. m\<lparr>gn_next_hash := - 1\<rparr>) (gr_nodes r1)\<rparr>)
           else pm_remove_from h masked (Some index) r
      else None)"

definition pm_remove :: "u64 \<Rightarrow> graph_rep \<Rightarrow> (int \<times> graph_rep) option" where
  "pm_remove p r = pm_remove_from (pm_hash p) (HidePtr p) None r"

section \<open>Nodes\<close>

definition gc_new :: graph_rep where
  "gc_new = \<lparr>gr_nodes = [], gr_free = [], gr_table = (\<lambda>_. - 1)\<rparr>"

definition FindNode :: "graph_rep \<Rightarrow> graph_id \<Rightarrow> fault + int option" where
  "FindNode r gid =
     bindE (node_at (gr_nodes r) (NodeIndex gid)) (\<lambda>n.
     Inr (if gn_version n = NodeVersion gid then Some (NodeIndex gid) else None))"

text \<open>
  \<open>GetId\<close>. The fields a fresh node does not set (the stack array, \<open>next_hash\<close> before
  \<open>Add\<close>) start from a caller-given \<open>junk\<close> node.
\<close>

definition gc_get_id :: "gnode \<Rightarrow> u64 \<Rightarrow> graph_rep \<Rightarrow> (graph_id \<times> graph_rep) option" where
  "gc_get_id junk p r =
     (case pm_find r p of None \<Rightarrow> None
      | Some i \<Rightarrow>
          if i \<noteq> - 1 then Some (MakeId i (gn_version (gr_nodes r ! vec_index i)), r)
          else if gr_free r = [] then
            let rank = int (length (gr_nodes r));
                n = junk\<lparr>gn_version := 1, gn_visited := False, gn_rank := rank,
                         gn_masked_ptr := HidePtr p, gn_in := ns_init, gn_out := ns_init,
                         gn_nstack := 0, gn_priority := 0\<rparr>
            in Some (MakeId rank 1, pm_add p rank (r\<lparr>gr_nodes := gr_nodes r @ [n]\<rparr>))
          else
            let k = last (gr_free r);
                r1 = r\<lparr>gr_free := butlast (gr_free r),
                       gr_nodes := upd_node k (\<lambda>n. n\<lparr>gn_masked_ptr := HidePtr p, gn_nstack := 0,
                                                  gn_priority := 0\<rparr>) (gr_nodes r)\<rparr>
            in Some (MakeId k (gn_version (gr_nodes r ! vec_index k)), pm_add p k r1))"

text \<open>The two loops of \<open>RemoveNode\<close> over the neighbours.\<close>

fun erase_in_all :: "int \<Rightarrow> int list \<Rightarrow> gnode list \<Rightarrow> gnode list option" where
  "erase_in_all i [] ns = Some ns"
| "erase_in_all i (y # ys) ns =
     (if vec_index y < length ns
      then case ns_erase (gn_in (ns ! vec_index y)) i of None \<Rightarrow> None
           | Some s \<Rightarrow> erase_in_all i ys (upd_node y (\<lambda>n. n\<lparr>gn_in := s\<rparr>) ns)
      else None)"

fun erase_out_all :: "int \<Rightarrow> int list \<Rightarrow> gnode list \<Rightarrow> gnode list option" where
  "erase_out_all i [] ns = Some ns"
| "erase_out_all i (y # ys) ns =
     (if vec_index y < length ns
      then case ns_erase (gn_out (ns ! vec_index y)) i of None \<Rightarrow> None
           | Some s \<Rightarrow> erase_out_all i ys (upd_node y (\<lambda>n. n\<lparr>gn_out := s\<rparr>) ns)
      else None)"

definition gc_remove_node :: "u64 \<Rightarrow> graph_rep \<Rightarrow> graph_rep option" where
  "gc_remove_node p r =
     (case pm_remove p r of None \<Rightarrow> None
      | Some (i, r0) \<Rightarrow>
          if i = - 1 then Some r0
          else
            case erase_in_all i (ns_elements (gn_out (gr_nodes r0 ! vec_index i))) (gr_nodes r0) of
              None \<Rightarrow> None
            | Some ns1 \<Rightarrow>
                case erase_out_all i (ns_elements (gn_in (ns1 ! vec_index i))) ns1 of
                  None \<Rightarrow> None
                | Some ns2 \<Rightarrow>
                    let ns3 = upd_node i (\<lambda>n. n\<lparr>gn_in := ns_clear (gn_in n), gn_out := ns_clear (gn_out n),
                                                gn_masked_ptr := HidePtr 0\<rparr>) ns2;
                        v = gn_version (ns3 ! vec_index i)
                    in if v = - 1 then Some (r0\<lparr>gr_nodes := ns3\<rparr>)
                       else Some (r0\<lparr>gr_nodes := upd_node i (\<lambda>n. n\<lparr>gn_version := v + 1\<rparr>) ns3,
                                    gr_free := gr_free r0 @ [i]\<rparr>))"

definition gc_ptr :: "graph_rep \<Rightarrow> graph_id \<Rightarrow> fault + u64" where
  "gc_ptr r gid =
     bindE (FindNode r gid) (\<lambda>f.
     Inr (case f of None \<Rightarrow> 0 | Some i \<Rightarrow> UnhidePtr (gn_masked_ptr (gr_nodes r ! vec_index i))))"

definition gc_has_node :: "graph_rep \<Rightarrow> graph_id \<Rightarrow> fault + bool" where
  "gc_has_node r gid = bindE (FindNode r gid) (\<lambda>f. Inr (f \<noteq> None))"

definition gc_has_edge :: "graph_rep \<Rightarrow> graph_id \<Rightarrow> graph_id \<Rightarrow> fault + bool" where
  "gc_has_edge r x y =
     bindE (FindNode r x) (\<lambda>fx.
       case fx of None \<Rightarrow> Inr False
       | Some i \<Rightarrow> bindE (FindNode r y) (\<lambda>fy.
           case fy of None \<Rightarrow> Inr False
           | Some _ \<Rightarrow> returns (ns_contains (gn_out (gr_nodes r ! vec_index i)) (NodeIndex y))))"

definition gc_remove_edge :: "graph_rep \<Rightarrow> graph_id \<Rightarrow> graph_id \<Rightarrow> fault + graph_rep" where
  "gc_remove_edge r x y =
     bindE (FindNode r x) (\<lambda>fx. bindE (FindNode r y) (\<lambda>fy.
       case (fx, fy) of
         (Some i, Some j) \<Rightarrow>
           bindE (returns (ns_erase (gn_out (gr_nodes r ! vec_index i)) (NodeIndex y))) (\<lambda>s.
           let ns1 = upd_node i (\<lambda>n. n\<lparr>gn_out := s\<rparr>) (gr_nodes r) in
           bindE (returns (ns_erase (gn_in (ns1 ! vec_index j)) (NodeIndex x))) (\<lambda>t.
           Inr (r\<lparr>gr_nodes := upd_node j (\<lambda>n. n\<lparr>gn_in := t\<rparr>) ns1\<rparr>)))
       | _ \<Rightarrow> Inr r))"

definition gc_update_stack_trace ::
    "(u64 list \<Rightarrow> int \<times> u64 list) \<Rightarrow> graph_id \<Rightarrow> int \<Rightarrow> graph_rep \<Rightarrow> fault + graph_rep" where
  "gc_update_stack_trace get_stack_trace gid priority r =
     bindE (FindNode r gid) (\<lambda>f.
       case f of None \<Rightarrow> Inr r
       | Some i \<Rightarrow>
           if gn_priority (gr_nodes r ! vec_index i) \<ge> priority then Inr r
           else let (k, st) = get_stack_trace (gn_stack (gr_nodes r ! vec_index i))
                in Inr (r\<lparr>gr_nodes := upd_node i (\<lambda>n. n\<lparr>gn_stack := st, gn_nstack := k,
                                                       gn_priority := priority\<rparr>) (gr_nodes r)\<rparr>))"

definition gc_get_stack_trace :: "graph_id \<Rightarrow> graph_rep \<Rightarrow> fault + (int \<times> u64 list option)" where
  "gc_get_stack_trace gid r =
     bindE (FindNode r gid) (\<lambda>f.
       Inr (case f of None \<Rightarrow> (0, None)
            | Some i \<Rightarrow> (gn_nstack (gr_nodes r ! vec_index i), Some (gn_stack (gr_nodes r ! vec_index i)))))"

section \<open>Depth-first searches\<close>

text \<open>
  The neighbours of a popped node: a neighbour that satisfies \<open>stop\<close> ends the search, one that
  is not visited and satisfies \<open>go\<close> is pushed.
\<close>

fun dfs_push ::
    "(gnode \<Rightarrow> bool) \<Rightarrow> (gnode \<Rightarrow> bool) \<Rightarrow> gnode list \<Rightarrow> int list \<Rightarrow> int list \<Rightarrow> fault + int list option" where
  "dfs_push stop go ns [] stack = Inr (Some stack)"
| "dfs_push stop go ns (w # ws) stack =
     bindE (node_at ns w) (\<lambda>nw.
       if stop nw then Inr None
       else dfs_push stop go ns ws (if \<not> gn_visited nw \<and> go nw then w # stack else stack))"

definition unvisited :: "gnode list \<Rightarrow> nat" where
  "unvisited ns = length (filter (\<lambda>n. \<not> gn_visited n) ns)"

lemma unvisited_mark:
  assumes "i < length ns" "\<not> gn_visited (ns ! i)"
  shows "unvisited (ns[i := (ns ! i)\<lparr>gn_visited := True\<rparr>]) < unvisited ns"
proof -
  let ?n = "ns ! i"
  have t: "ns = take i ns @ ?n # drop (Suc i) ns"
    and u: "ns[i := ?n\<lparr>gn_visited := True\<rparr>] = take i ns @ ?n\<lparr>gn_visited := True\<rparr> # drop (Suc i) ns"
    using assms(1) by (rule id_take_nth_drop, rule upd_conv_take_nth_drop)
  have "unvisited ns = unvisited (take i ns) + 1 + unvisited (drop (Suc i) ns)"
    using assms(2) by (subst t) (simp add: unvisited_def)
  moreover have "unvisited (ns[i := ?n\<lparr>gn_visited := True\<rparr>])
      = unvisited (take i ns) + unvisited (drop (Suc i) ns)"
    unfolding u by (simp add: unvisited_def)
  ultimately show ?thesis by simp
qed

text \<open>The search loop: the result, the marked nodes and the visited nodes in order.\<close>

function dfs_loop ::
    "(gnode \<Rightarrow> node_set) \<Rightarrow> (gnode \<Rightarrow> bool) \<Rightarrow> (gnode \<Rightarrow> bool) \<Rightarrow> gnode list \<Rightarrow> int list \<Rightarrow> int list \<Rightarrow>
       fault + (bool \<times> gnode list \<times> int list)" where
  "dfs_loop nbrs stop go ns [] delta = Inr (True, ns, delta)"
| "dfs_loop nbrs stop go ns (n # stack) delta =
     (if vec_index n < length ns
      then let nn = ns ! vec_index n in
           if gn_visited nn then dfs_loop nbrs stop go ns stack delta
           else let ns' = ns[vec_index n := nn\<lparr>gn_visited := True\<rparr>]; delta' = delta @ [n] in
                bindE (dfs_push stop go ns' (ns_elements (nbrs nn)) stack) (\<lambda>r.
                  case r of None \<Rightarrow> Inr (False, ns', delta')
                  | Some stack' \<Rightarrow> dfs_loop nbrs stop go ns' stack' delta')
      else Inl Out_of_range)"
  by pat_completeness auto
termination
  by (relation "measures [\<lambda>(nb, stp, go, ns, st, d). unvisited ns, \<lambda>(nb, stp, go, ns, st, d). length st]")
    (auto simp: unvisited_mark)

definition ForwardDFS :: "gnode list \<Rightarrow> int \<Rightarrow> int \<Rightarrow> fault + (bool \<times> gnode list \<times> int list)" where
  "ForwardDFS ns n upper_bound =
     dfs_loop gn_out (\<lambda>nw. gn_rank nw = upper_bound) (\<lambda>nw. gn_rank nw < upper_bound) ns [n] []"

definition BackwardDFS :: "gnode list \<Rightarrow> int \<Rightarrow> int \<Rightarrow> fault + (bool \<times> gnode list \<times> int list)" where
  "BackwardDFS ns n lower_bound =
     dfs_loop gn_in (\<lambda>_. False) (\<lambda>nw. lower_bound < gn_rank nw) ns [n] []"

section \<open>Reordering\<close>

definition rank_of :: "gnode list \<Rightarrow> int \<Rightarrow> int" where
  "rank_of ns v = gn_rank (ns ! vec_index v)"

definition Sort :: "gnode list \<Rightarrow> int list \<Rightarrow> int list" where
  "Sort ns delta = sort_key (rank_of ns) delta"

text \<open>\<open>MoveToList\<close>: the nodes, \<open>src\<close> with every node replaced by its rank, and \<open>dst\<close>.\<close>

fun MoveToList :: "gnode list \<Rightarrow> int list \<Rightarrow> int list \<Rightarrow> gnode list \<times> int list \<times> int list" where
  "MoveToList ns [] dst = (ns, [], dst)"
| "MoveToList ns (w # src) dst =
     (let v = rank_of ns w;
          ns1 = upd_node w (\<lambda>n. n\<lparr>gn_visited := False\<rparr>) ns;
          (ns2, ranks, dst') = MoveToList ns1 src (dst @ [w])
      in (ns2, v # ranks, dst'))"

fun assign_ranks :: "int list \<Rightarrow> int list \<Rightarrow> gnode list \<Rightarrow> gnode list" where
  "assign_ranks (w # ws) (m # ms) ns = assign_ranks ws ms (upd_node w (\<lambda>n. n\<lparr>gn_rank := m\<rparr>) ns)"
| "assign_ranks _ _ ns = ns"

definition Reorder :: "gnode list \<Rightarrow> int list \<Rightarrow> int list \<Rightarrow> gnode list" where
  "Reorder ns deltab deltaf =
     (let sb = Sort ns deltab; sf = Sort ns deltaf;
          (ns1, rb, list1) = MoveToList ns sb [];
          (ns2, rf, list2) = MoveToList ns1 sf list1
      in assign_ranks list2 (std_merge rb rf) ns2)"

section \<open>Inserting an edge\<close>

fun clear_visited :: "int list \<Rightarrow> gnode list \<Rightarrow> gnode list" where
  "clear_visited [] ns = ns"
| "clear_visited (d # ds) ns = clear_visited ds (upd_node d (\<lambda>n. n\<lparr>gn_visited := False\<rparr>) ns)"

definition gc_insert_edge :: "graph_rep \<Rightarrow> graph_id \<Rightarrow> graph_id \<Rightarrow> fault + (bool \<times> graph_rep)" where
  "gc_insert_edge r idx idy =
     bindE (FindNode r idx) (\<lambda>fx. bindE (FindNode r idy) (\<lambda>fy.
       case (fx, fy) of
         (Some x, Some y) \<Rightarrow>
           if vec_index x = vec_index y then Inr (False, r)
           else
             bindE (returns (ns_insert (gn_out (gr_nodes r ! vec_index x)) y)) (\<lambda>(new, s).
             let ns1 = upd_node x (\<lambda>n. n\<lparr>gn_out := s\<rparr>) (gr_nodes r) in
             if \<not> new then Inr (True, r\<lparr>gr_nodes := ns1\<rparr>)
             else
               bindE (returns (ns_insert (gn_in (ns1 ! vec_index y)) x)) (\<lambda>(_, t).
               let ns2 = upd_node y (\<lambda>n. n\<lparr>gn_in := t\<rparr>) ns1 in
               if rank_of ns2 x \<le> rank_of ns2 y then Inr (True, r\<lparr>gr_nodes := ns2\<rparr>)
               else
                 bindE (ForwardDFS ns2 y (rank_of ns2 x)) (\<lambda>(ok, ns3, deltaf).
                 if \<not> ok then
                   bindE (returns (ns_erase (gn_out (ns3 ! vec_index x)) y)) (\<lambda>s'.
                   let ns4 = upd_node x (\<lambda>n. n\<lparr>gn_out := s'\<rparr>) ns3 in
                   bindE (returns (ns_erase (gn_in (ns4 ! vec_index y)) x)) (\<lambda>t'.
                   let ns5 = upd_node y (\<lambda>n. n\<lparr>gn_in := t'\<rparr>) ns4 in
                   Inr (False, r\<lparr>gr_nodes := clear_visited deltaf ns5\<rparr>)))
                 else
                   bindE (BackwardDFS ns3 x (rank_of ns3 y)) (\<lambda>(_, ns4, deltab).
                   Inr (True, r\<lparr>gr_nodes := Reorder ns4 deltab deltaf\<rparr>)))))
       | _ \<Rightarrow> Inr (True, r)))"

section \<open>Paths and self-checks\<close>

text \<open>
  \<open>HASH_FOR_EACH(w, nodes_[n]->out) if (seen.insert(w)) stack_.push_back(w)\<close>.
\<close>

fun path_push :: "int list \<Rightarrow> node_set \<Rightarrow> int list \<Rightarrow> (node_set \<times> int list) option" where
  "path_push [] seen stack = Some (seen, stack)"
| "path_push (w # ws) seen stack =
     (case ns_insert seen w of None \<Rightarrow> None
      | Some (new, seen') \<Rightarrow> path_push ws seen' (if new then w # stack else stack))"

text \<open>
  The loop of \<open>FindPath\<close>. The caller's array is the list \<open>path\<close> of \<open>max_path_len\<close> entries
  (a store at or above \<open>max_path_len\<close> is skipped by the code). \<open>None\<close> is a loop that does not end or
  that leaves \<open>nodes_\<close>.
\<close>

partial_function (option) path_loop ::
    "gnode list \<Rightarrow> int \<Rightarrow> int \<Rightarrow> node_set \<Rightarrow> int list \<Rightarrow> int \<Rightarrow> graph_id list \<Rightarrow>
       (int \<times> graph_id list) option" where
  "path_loop ns y max_path_len seen stack path_len path =
     (case stack of
        [] \<Rightarrow> Some (0, path)
      | n # rest \<Rightarrow>
          if n < 0 then path_loop ns y max_path_len seen rest (path_len - 1) path
          else if vec_index n < length ns
          then let path' = (if path_len < max_path_len
                            then path[nat path_len := MakeId n (gn_version (ns ! vec_index n))] else path)
               in if n = y then Some (path_len + 1, path')
                  else case path_push (ns_elements (gn_out (ns ! vec_index n))) seen (- 1 # rest) of
                         None \<Rightarrow> None
                       | Some (seen', stack') \<Rightarrow>
                           path_loop ns y max_path_len seen' stack' (path_len + 1) path'
          else None)"

definition gc_find_path ::
    "graph_rep \<Rightarrow> graph_id \<Rightarrow> graph_id \<Rightarrow> int \<Rightarrow> graph_id list \<Rightarrow> fault + (int \<times> graph_id list)" where
  "gc_find_path r idx idy max_path_len path =
     bindE (FindNode r idx) (\<lambda>fx.
       case fx of None \<Rightarrow> Inr (0, path)
       | Some x \<Rightarrow> bindE (FindNode r idy) (\<lambda>fy.
           case fy of None \<Rightarrow> Inr (0, path)
           | Some y \<Rightarrow> returns (path_loop (gr_nodes r) y max_path_len ns_init [x] 0 path)))"

definition gc_is_reachable :: "graph_rep \<Rightarrow> graph_id \<Rightarrow> graph_id \<Rightarrow> fault + bool" where
  "gc_is_reachable r x y = bindE (gc_find_path r x y 0 []) (\<lambda>(n, _). Inr (n > 0))"

text \<open>
  \<open>CheckInvariants\<close>: \<open>Some True\<close> when the function returns \<open>true\<close>, \<open>Some False\<close> when it
  reaches one of its \<open>FATAL\<close> log statements.
\<close>

fun check_edges :: "gnode list \<Rightarrow> int \<Rightarrow> int list \<Rightarrow> bool option" where
  "check_edges ns rank [] = Some True"
| "check_edges ns rank (y # ys) =
     (if vec_index y < length ns
      then if rank \<ge> rank_of ns y then Some False else check_edges ns rank ys
      else None)"

function check_nodes :: "graph_rep \<Rightarrow> node_set \<Rightarrow> nat \<Rightarrow> bool option" where
  "check_nodes r ranks x =
     (if x < length (gr_nodes r)
      then let nx = gr_nodes r ! x; p = UnhidePtr (gn_masked_ptr nx) in
           case (if p \<noteq> 0 then map_option (\<lambda>i. vec_index i \<noteq> x) (pm_find r p) else Some False) of
             None \<Rightarrow> None
           | Some True \<Rightarrow> Some False
           | Some False \<Rightarrow>
               if gn_visited nx then Some False
               else case ns_insert ranks (gn_rank nx) of None \<Rightarrow> None
                    | Some (False, _) \<Rightarrow> Some False
                    | Some (True, ranks') \<Rightarrow>
                        case check_edges (gr_nodes r) (gn_rank nx) (ns_elements (gn_out nx)) of
                          Some True \<Rightarrow> check_nodes r ranks' (x + 1)
                        | res \<Rightarrow> res
      else Some True)"
  by pat_completeness auto
termination
  by (relation "measure (\<lambda>(r, s, x). length (gr_nodes r) - x)") auto

declare check_nodes.simps [simp del]

definition gc_check_invariants :: "graph_rep \<Rightarrow> bool option" where
  "gc_check_invariants r = check_nodes r ns_init 0"

end
