(* ===== verification/Graph_Order.thy ===== *)
theory Graph_Order
  imports Graph_Cycles
begin

text \<open>
  Correctness of the order maintenance of \<open>GraphCycles\<close>: the edge relation of a representation,
  the well-formedness of its adjacency sets and ranks, and \<open>InsertEdge\<close>, \<open>RemoveEdge\<close> and their
  searches against it.
\<close>

section \<open>Node numbers\<close>

lemma vec_index_nat: "0 \<le> v \<Longrightarrow> v < 2 ^ 32 \<Longrightarrow> vec_index v = nat v"
  by (simp add: vec_index_def unsigned_of_int take_bit_int_eq_self)

section \<open>Edges\<close>

definition edges :: "gnode list \<Rightarrow> (nat \<times> nat) set" where
  "edges ns = {(i, j). i < length ns \<and> int j \<in> ns_set (gn_out (ns ! i))}"

definition adj_ok :: "gnode list \<Rightarrow> bool" where
  "adj_ok ns \<longleftrightarrow> length ns \<le> 2 ^ 31 \<and>
     (\<forall>i < length ns. ns_inv (gn_out (ns ! i)) \<and> ns_inv (gn_in (ns ! i)) \<and>
        ns_set (gn_out (ns ! i)) \<subseteq> {0..<int (length ns)} \<and>
        ns_set (gn_in (ns ! i)) \<subseteq> {0..<int (length ns)}) \<and>
     (\<forall>i < length ns. \<forall>j < length ns.
        int j \<in> ns_set (gn_out (ns ! i)) \<longleftrightarrow> int i \<in> ns_set (gn_in (ns ! j)))"

definition rank_fn :: "gnode list \<Rightarrow> nat \<Rightarrow> int" where
  "rank_fn ns i = gn_rank (ns ! i)"

text \<open>The ranks are a permutation of \<open>[0, size - 1]\<close> and every edge goes up.\<close>

definition ranks_ok :: "gnode list \<Rightarrow> bool" where
  "ranks_ok ns \<longleftrightarrow>
     bij_betw (rank_fn ns) {..<length ns} {0..<int (length ns)} \<and>
     (\<forall>(i, j) \<in> edges ns. rank_fn ns i < rank_fn ns j)"

definition none_visited :: "gnode list \<Rightarrow> bool" where
  "none_visited ns \<longleftrightarrow> (\<forall>n \<in> set ns. \<not> gn_visited n)"

definition order_ok :: "gnode list \<Rightarrow> bool" where
  "order_ok ns \<longleftrightarrow> adj_ok ns \<and> ranks_ok ns \<and> none_visited ns"

text \<open>What the order maintenance leaves alone.\<close>

definition gn_identity :: "gnode \<Rightarrow> u32 \<times> int \<times> u64 \<times> int \<times> int \<times> u64 list" where
  "gn_identity n =
     (gn_version n, gn_next_hash n, gn_masked_ptr n, gn_priority n, gn_nstack n, gn_stack n)"

lemma gn_identity_update [simp]:
  "gn_identity (n\<lparr>gn_out := s\<rparr>) = gn_identity n" "gn_identity (n\<lparr>gn_in := s\<rparr>) = gn_identity n"
  "gn_identity (n\<lparr>gn_visited := b\<rparr>) = gn_identity n" "gn_identity (n\<lparr>gn_rank := k\<rparr>) = gn_identity n"
  by (simp_all add: gn_identity_def)

definition gn_adj :: "gnode \<Rightarrow> node_set \<times> node_set" where
  "gn_adj n = (gn_in n, gn_out n)"

lemma adj_ok_cong:
  assumes "map gn_adj ns' = map gn_adj ns"
  shows "adj_ok ns' \<longleftrightarrow> adj_ok ns" and "edges ns' = edges ns"
proof -
  have len: "length ns' = length ns"
    using arg_cong [OF assms, of length] by simp
  have nth: "gn_in (ns' ! i) = gn_in (ns ! i) \<and> gn_out (ns' ! i) = gn_out (ns ! i)" if "i < length ns" for i
  proof -
    have "map gn_adj ns' ! i = map gn_adj ns ! i" using assms by simp
    then show ?thesis using that len by (simp add: gn_adj_def)
  qed
  show "adj_ok ns' \<longleftrightarrow> adj_ok ns"
    unfolding adj_ok_def len using nth by (simp cong: conj_cong)
  show "edges ns' = edges ns"
    unfolding edges_def len using nth by auto
qed

lemma adj_okD:
  assumes "adj_ok ns" "i < length ns"
  shows "ns_inv (gn_out (ns ! i))" "ns_inv (gn_in (ns ! i))"
    "v \<in> ns_set (gn_out (ns ! i)) \<Longrightarrow> 0 \<le> v \<and> v < int (length ns)"
    "v \<in> ns_set (gn_in (ns ! i)) \<Longrightarrow> 0 \<le> v \<and> v < int (length ns)"
  using assms unfolding adj_ok_def by (blast dest: subsetD atLeastLessThan_iff [THEN iffD1])+

lemma adj_ok_sym:
  "adj_ok ns \<Longrightarrow> i < length ns \<Longrightarrow> j < length ns \<Longrightarrow>
     int j \<in> ns_set (gn_out (ns ! i)) \<longleftrightarrow> int i \<in> ns_set (gn_in (ns ! j))"
  unfolding adj_ok_def by blast

lemma adj_ok_length: "adj_ok ns \<Longrightarrow> length ns \<le> 2 ^ 31"
  by (simp add: adj_ok_def)

lemma edges_range: "adj_ok ns \<Longrightarrow> (i, j) \<in> edges ns \<Longrightarrow> i < length ns \<and> j < length ns"
  using adj_okD(3) [of ns i "int j"] by (auto simp: edges_def)

lemma edges_pred:
  "adj_ok ns \<Longrightarrow> j < length ns \<Longrightarrow> (i, j) \<in> edges ns \<longleftrightarrow> int i \<in> ns_set (gn_in (ns ! j))"
  using adj_ok_sym [of ns i j] adj_okD(4) [of ns j "int i"] by (auto simp: edges_def)

lemma vec_index_int: "i < length ns \<Longrightarrow> length ns \<le> 2 ^ 31 \<Longrightarrow> vec_index (int i) = i"
  by (subst vec_index_nat) auto

lemma ranks_ok_inj:
  "ranks_ok ns \<Longrightarrow> i < length ns \<Longrightarrow> j < length ns \<Longrightarrow> rank_fn ns i = rank_fn ns j \<Longrightarrow> i = j"
  unfolding ranks_ok_def bij_betw_def by (auto dest: inj_onD)

lemma ranks_ok_edge: "ranks_ok ns \<Longrightarrow> (i, j) \<in> edges ns \<Longrightarrow> rank_fn ns i < rank_fn ns j"
  unfolding ranks_ok_def by auto

lemma ranks_ok_path: "(i, j) \<in> (edges ns)\<^sup>* \<Longrightarrow> ranks_ok ns \<Longrightarrow> i = j \<or> rank_fn ns i < rank_fn ns j"
  by (induction rule: rtrancl_induct) (fastforce dest: ranks_ok_edge)+

lemma ranks_ok_acyclic: "ranks_ok ns \<Longrightarrow> acyclic (edges ns)"
  by (rule acyclicI_order [where f = "\<lambda>i. - rank_fn ns i"]) (simp add: ranks_ok_edge)

section \<open>Visited marks\<close>

definition with_visited :: "gnode list \<Rightarrow> nat set \<Rightarrow> gnode list" where
  "with_visited ns V = map (\<lambda>i. (ns ! i)\<lparr>gn_visited := i \<in> V\<rparr>) [0..<length ns]"

lemma with_visited_length [simp]: "length (with_visited ns V) = length ns"
  by (simp add: with_visited_def)

lemma with_visited_nth [simp]:
  "i < length ns \<Longrightarrow> with_visited ns V ! i = (ns ! i)\<lparr>gn_visited := i \<in> V\<rparr>"
  by (simp add: with_visited_def)

lemma with_visited_none: "none_visited ns \<Longrightarrow> with_visited ns {} = ns"
  by (intro nth_equalityI) (auto simp: none_visited_def)

lemma with_visited_again: "with_visited (with_visited ns V) W = with_visited ns W"
  by (intro nth_equalityI) auto

lemma with_visited_set:
  "i < length ns \<Longrightarrow>
     (with_visited ns V)[i := (ns ! i)\<lparr>gn_visited := b\<rparr>] = with_visited ns (if b then insert i V else V - {i})"
  by (intro nth_equalityI) (auto simp: nth_list_update)

lemma with_visited_none_visited: "none_visited (with_visited ns {})"
  by (auto simp: none_visited_def in_set_conv_nth)

lemma with_visited_adj: "map gn_adj (with_visited ns V) = map gn_adj ns"
  by (intro nth_equalityI) (auto simp: gn_adj_def)

lemma with_visited_identity: "map gn_identity (with_visited ns V) = map gn_identity ns"
  by (intro nth_equalityI) auto

lemma with_visited_rank: "i < length ns \<Longrightarrow> rank_fn (with_visited ns V) i = rank_fn ns i"
  by (simp add: rank_fn_def)

lemma clear_visited_with_visited:
  "length ns \<le> 2 ^ 31 \<Longrightarrow> \<forall>d \<in> set ds. 0 \<le> d \<and> d < int (length ns) \<Longrightarrow>
     clear_visited ds (with_visited ns V) = with_visited ns (V - nat ` set ds)"
proof (induction ds arbitrary: V)
  case (Cons d ds)
  then have "vec_index d = nat d" "nat d < length ns" by (auto simp: vec_index_nat)
  then have "upd_node d (\<lambda>n. n\<lparr>gn_visited := False\<rparr>) (with_visited ns V) = with_visited ns (V - {nat d})"
    using with_visited_set [of "nat d" ns V False] by (simp add: upd_node_def)
  moreover have "V - {nat d} - nat ` set ds = V - nat ` set (d # ds)" by auto
  ultimately show ?case using Cons.IH [of "V - {nat d}"] Cons.prems by simp
qed simp

section \<open>Depth-first search\<close>

text \<open>Selectors and tests that do not look at the visited mark.\<close>

definition mark_free :: "(gnode \<Rightarrow> 'a) \<Rightarrow> bool" where
  "mark_free f \<longleftrightarrow> (\<forall>n b. f (n\<lparr>gn_visited := b\<rparr>) = f n)"

lemma dfs_push_eq:
  assumes stop: "mark_free stop" and go: "mark_free go" and len: "length ns \<le> 2 ^ 31"
    and ws: "\<forall>w \<in> set ws. 0 \<le> w \<and> w < int (length ns)"
  shows "dfs_push stop go (with_visited ns V) ws st =
     Inr (if \<exists>w \<in> set ws. stop (ns ! nat w) then None
          else Some (rev (filter (\<lambda>w. nat w \<notin> V \<and> go (ns ! nat w)) ws) @ st))"
  using ws
proof (induction ws arbitrary: st)
  case (Cons w ws)
  then have "vec_index w = nat w" "nat w < length ns" using len by (auto simp: vec_index_nat)
  then have "node_at (with_visited ns V) w = Inr ((ns ! nat w)\<lparr>gn_visited := nat w \<in> V\<rparr>)"
    by (simp add: node_at_def)
  then show ?case
    using Cons stop go by (simp add: mark_free_def)
qed simp

definition step_rel :: "(gnode \<Rightarrow> node_set) \<Rightarrow> (gnode \<Rightarrow> bool) \<Rightarrow> gnode list \<Rightarrow> (nat \<times> nat) set" where
  "step_rel nbrs go ns = {(i, j). int j \<in> ns_set (nbrs (ns ! i)) \<and> go (ns ! j)}"

definition dfs_delta_ok :: "(nat \<times> nat) set \<Rightarrow> gnode list \<Rightarrow> nat set \<Rightarrow> nat \<Rightarrow> int list \<Rightarrow> bool" where
  "dfs_delta_ok R ns W s delta \<longleftrightarrow> distinct delta \<and>
     (\<forall>d \<in> set delta. 0 \<le> d \<and> d < int (length ns) \<and> nat d \<notin> W \<and> (s, nat d) \<in> R\<^sup>*)"

definition dfs_closed ::
    "(gnode \<Rightarrow> node_set) \<Rightarrow> (gnode \<Rightarrow> bool) \<Rightarrow> (gnode \<Rightarrow> bool) \<Rightarrow> gnode list \<Rightarrow> nat set \<Rightarrow> int list \<Rightarrow> bool" where
  "dfs_closed nbrs stop go ns A delta \<longleftrightarrow>
     (\<forall>d \<in> set delta. \<forall>w \<in> ns_set (nbrs (ns ! nat d)).
        \<not> stop (ns ! nat w) \<and> (go (ns ! nat w) \<longrightarrow> nat w \<in> A))"

text \<open>
  The outcome of a search from \<open>s\<close> with the nodes of \<open>W\<close> already visited.
\<close>

definition dfs_post ::
    "(gnode \<Rightarrow> node_set) \<Rightarrow> (gnode \<Rightarrow> bool) \<Rightarrow> (gnode \<Rightarrow> bool) \<Rightarrow> gnode list \<Rightarrow> nat set \<Rightarrow> nat \<Rightarrow>
       bool \<times> gnode list \<times> int list \<Rightarrow> bool" where
  "dfs_post nbrs stop go ns W s = (\<lambda>(res, ns', delta).
     ns' = with_visited ns (W \<union> nat ` set delta) \<and>
     dfs_delta_ok (step_rel nbrs go ns) ns W s delta \<and>
     (if res then dfs_closed nbrs stop go ns (W \<union> nat ` set delta) delta \<and> s \<in> W \<union> nat ` set delta
      else \<exists>d \<in> set delta. \<exists>w \<in> ns_set (nbrs (ns ! nat d)). stop (ns ! nat w)))"

lemma dfs_delta_ok_snoc:
  assumes "dfs_delta_ok R ns W s delta" "0 \<le> n" "n < int (length ns)" "(s, nat n) \<in> R\<^sup>*"
    "nat n \<notin> W \<union> nat ` set delta"
  shows "dfs_delta_ok R ns W s (delta @ [n])"
  using assms by (auto simp: dfs_delta_ok_def)

lemma dfs_closed_mono:
  "dfs_closed nbrs stop go ns A delta \<Longrightarrow> A \<subseteq> B \<Longrightarrow> dfs_closed nbrs stop go ns B delta"
  unfolding dfs_closed_def by blast

lemma dfs_closed_snoc:
  "dfs_closed nbrs stop go ns A (delta @ [n]) \<longleftrightarrow>
     dfs_closed nbrs stop go ns A delta \<and>
     (\<forall>w \<in> ns_set (nbrs (ns ! nat n)). \<not> stop (ns ! nat w) \<and> (go (ns ! nat w) \<longrightarrow> nat w \<in> A))"
  by (auto simp: dfs_closed_def)

lemma dfs_loop_correct:
  assumes nbrs: "mark_free nbrs" and stop: "mark_free stop" and go: "mark_free go"
    and len: "length ns \<le> 2 ^ 31"
    and range: "\<And>i w. i < length ns \<Longrightarrow> w \<in> ns_set (nbrs (ns ! i)) \<Longrightarrow> w < int (length ns)"
    and "ns1 = with_visited ns (W \<union> nat ` set delta)"
    and "dfs_delta_ok (step_rel nbrs go ns) ns W s delta"
    and "\<forall>n \<in> set st. 0 \<le> n \<and> n < int (length ns) \<and> (s, nat n) \<in> (step_rel nbrs go ns)\<^sup>*"
    and "dfs_closed nbrs stop go ns (W \<union> nat ` set delta \<union> nat ` set st) delta"
    and "s \<in> W \<union> nat ` set delta \<union> nat ` set st"
  shows "\<exists>res. dfs_loop nbrs stop go ns1 st delta = Inr res \<and> dfs_post nbrs stop go ns W s res"
  using assms
proof (induction nbrs stop go ns1 st delta rule: dfs_loop.induct)
  case (1 nbrs stop go ns1 delta)
  then show ?case by (simp add: dfs_post_def)
next
  case (2 nbrs stop go ns1 n st delta)
  let ?R = "step_rel nbrs go ns" and ?V = "W \<union> nat ` set delta"
  have n: "vec_index n = nat n" "nat n < length ns" "0 \<le> n" "n < int (length ns)" "(s, nat n) \<in> ?R\<^sup>*"
    using "2.prems"(4,8) by (auto simp: vec_index_nat)
  have ns1: "ns1 = with_visited ns ?V" by (rule "2.prems"(6))
  show ?case
  proof (cases "nat n \<in> ?V")
    case True
    have A: "?V \<union> nat ` set (n # st) = ?V \<union> nat ` set st" using True by auto
    have "\<exists>res. dfs_loop nbrs stop go ns1 st delta = Inr res \<and> dfs_post nbrs stop go ns W s res"
    proof (rule "2.IH"(1))
      show "dfs_closed nbrs stop go ns (?V \<union> nat ` set st) delta"
        using "2.prems"(9) unfolding A .
      show "s \<in> ?V \<union> nat ` set st" using "2.prems"(10) unfolding A .
    qed (use "2.prems" n True in auto)
    then show ?thesis using n True ns1 by simp
  next
    case False
    let ?d = "delta @ [n]" and ?ns = "with_visited ns (W \<union> nat ` set (delta @ [n]))"
    let ?ws = "ns_elements (nbrs (ns ! nat n))"
    have upd: "ns1[vec_index n := (ns1 ! vec_index n)\<lparr>gn_visited := True\<rparr>] = ?ns"
      using with_visited_set [OF n(2), of ?V True] n ns1 by simp
    have delta: "dfs_delta_ok ?R ns W s ?d"
      using dfs_delta_ok_snoc "2.prems"(7) n False by blast
    have ws: "\<forall>w \<in> set ?ws. 0 \<le> w \<and> w < int (length ns)"
      using "2.prems"(5) [OF n(2)] by (auto simp: ns_elements_set ns_set_def)
    have nb: "nbrs (ns1 ! vec_index n) = nbrs (ns ! nat n)"
      using n ns1 "2.prems"(1) by (simp add: mark_free_def)
    note push = dfs_push_eq [OF "2.prems"(2,3,4) ws, of "W \<union> nat ` set ?d" st]
    show ?thesis
    proof (cases "\<exists>w \<in> set ?ws. stop (ns ! nat w)")
      case True
      then have "dfs_post nbrs stop go ns W s (False, ?ns, ?d)"
        using delta by (auto simp: dfs_post_def ns_elements_set)
      then show ?thesis using n False ns1 push upd nb True by (simp add: Let_def)
    next
      case nostop: False
      let ?st = "rev (filter (\<lambda>w. nat w \<notin> W \<union> nat ` set ?d \<and> go (ns ! nat w)) ?ws) @ st"
      let ?A = "W \<union> nat ` set ?d \<union> nat ` set ?st"
      have pushed: "w \<in> set ?ws \<Longrightarrow> go (ns ! nat w) \<Longrightarrow> nat w \<in> ?A" for w by auto
      have "\<exists>res. dfs_loop nbrs stop go ?ns ?st ?d = Inr res \<and> dfs_post nbrs stop go ns W s res"
      proof (rule "2.IH"(2) [of "ns1 ! vec_index n" ?ns ?d "Some ?st" ?st, unfolded upd])
        show "dfs_closed nbrs stop go ns ?A ?d"
          unfolding dfs_closed_snoc
        proof
          show "dfs_closed nbrs stop go ns ?A delta"
            by (rule dfs_closed_mono [OF "2.prems"(9)]) auto
          show "\<forall>w \<in> ns_set (nbrs (ns ! nat n)).
                  \<not> stop (ns ! nat w) \<and> (go (ns ! nat w) \<longrightarrow> nat w \<in> ?A)"
            using nostop pushed unfolding ns_elements_set by blast
        qed
        show "\<forall>m \<in> set ?st. 0 \<le> m \<and> m < int (length ns) \<and> (s, nat m) \<in> ?R\<^sup>*"
        proof
          fix m assume "m \<in> set ?st"
          then consider "m \<in> set st" | "m \<in> set ?ws" "go (ns ! nat m)" by auto
          then show "0 \<le> m \<and> m < int (length ns) \<and> (s, nat m) \<in> ?R\<^sup>*"
          proof cases
            case 2
            then have "(nat n, nat m) \<in> ?R" using ws by (auto simp: step_rel_def ns_elements_set)
            then show ?thesis using ws 2 n(5) by (auto intro: rtrancl_into_rtrancl)
          qed (use "2.prems"(8) in auto)
        qed
        show "s \<in> ?A" using "2.prems"(10) by auto
      qed (use "2.prems"(1-5) delta n False ns1 push nb nostop in \<open>auto simp: upd\<close>)
      then show ?thesis using n False ns1 push upd nb nostop by (simp add: Let_def)
    qed
  qed
qed

section \<open>Reordering\<close>

lemma insort_key_cong: "\<forall>z \<in> insert x (set xs). f z = g z \<Longrightarrow> insort_key f x xs = insort_key g x xs"
  by (induction xs) auto

lemma sort_key_cong: "\<forall>z \<in> set xs. f z = g z \<Longrightarrow> sort_key f xs = sort_key g xs"
proof (induction xs)
  case (Cons x xs)
  then have "sort_key f (x # xs) = insort_key f x (sort_key g xs)" by simp
  also have "\<dots> = insort_key g x (sort_key g xs)"
    using Cons.prems by (intro insort_key_cong) simp
  finally show ?case by simp
qed simp

definition in_range :: "gnode list \<Rightarrow> int list \<Rightarrow> bool" where
  "in_range ns vs \<longleftrightarrow> length ns \<le> 2 ^ 31 \<and> (\<forall>v \<in> set vs. 0 \<le> v \<and> v < int (length ns))"

lemma in_rangeD:
  "in_range ns vs \<Longrightarrow> v \<in> set vs \<Longrightarrow> vec_index v = nat v \<and> nat v < length ns"
  by (auto simp: in_range_def vec_index_nat)

lemma in_range_nat_inj: "in_range ns vs \<Longrightarrow> inj_on nat (set vs)"
  unfolding in_range_def inj_on_def by (metis eq_nat_nat_iff)

lemma rank_of_visited:
  "in_range ns vs \<Longrightarrow> v \<in> set vs \<Longrightarrow> rank_of (with_visited ns V) v = rank_fn ns (nat v)"
  using in_rangeD by (simp add: rank_of_def rank_fn_def)

lemma Sort_visited:
  assumes "in_range ns delta"
  shows "Sort (with_visited ns V) delta = sort_key (\<lambda>v. rank_fn ns (nat v)) delta"
  unfolding Sort_def by (rule sort_key_cong) (simp add: rank_of_visited [OF assms])

lemma MoveToList_eq:
  "in_range ns src \<Longrightarrow>
     MoveToList (with_visited ns V) src dst =
       (with_visited ns (V - nat ` set src), map (\<lambda>v. rank_fn ns (nat v)) src, dst @ src)"
proof (induction src arbitrary: V dst)
  case (Cons w src)
  have r: "in_range ns src" using Cons.prems by (simp add: in_range_def)
  have w: "vec_index w = nat w" "nat w < length ns" using in_rangeD [OF Cons.prems, of w] by auto
  have "upd_node w (\<lambda>n. n\<lparr>gn_visited := False\<rparr>) (with_visited ns V) = with_visited ns (V - {nat w})"
    using with_visited_set [of "nat w" ns V False] w by (simp add: upd_node_def)
  moreover have "V - {nat w} - nat ` set src = V - nat ` set (w # src)" by auto
  ultimately show ?case
    using Cons.IH [OF r, of "V - {nat w}" "dst @ [w]"] rank_of_visited [OF Cons.prems, of w V] by simp
qed simp

definition set_ranks :: "(nat \<Rightarrow> int) \<Rightarrow> gnode list \<Rightarrow> gnode list" where
  "set_ranks rk ns = map (\<lambda>i. (ns ! i)\<lparr>gn_rank := rk i\<rparr>) [0..<length ns]"

lemma set_ranks_length [simp]: "length (set_ranks rk ns) = length ns"
  by (simp add: set_ranks_def)

lemma set_ranks_nth [simp]: "i < length ns \<Longrightarrow> set_ranks rk ns ! i = (ns ! i)\<lparr>gn_rank := rk i\<rparr>"
  by (simp add: set_ranks_def)

lemma set_ranks_adj: "map gn_adj (set_ranks rk ns) = map gn_adj ns"
  by (intro nth_equalityI) (auto simp: gn_adj_def)

lemma set_ranks_identity: "map gn_identity (set_ranks rk ns) = map gn_identity ns"
  by (intro nth_equalityI) auto

lemma set_ranks_none_visited: "none_visited ns \<Longrightarrow> none_visited (set_ranks rk ns)"
  by (auto simp: none_visited_def set_ranks_def)

lemma set_ranks_upd:
  "i < length ns \<Longrightarrow>
     (set_ranks rk ns)[i := (set_ranks rk ns ! i)\<lparr>gn_rank := m\<rparr>] = set_ranks (rk(i := m)) ns"
  by (intro nth_equalityI) (auto simp: nth_list_update)

lemma set_ranks_self: "set_ranks (rank_fn ns) (with_visited ns V) = with_visited ns V"
  by (intro nth_equalityI) (auto simp: rank_fn_def)

fun give_ranks :: "int list \<Rightarrow> int list \<Rightarrow> (nat \<Rightarrow> int) \<Rightarrow> nat \<Rightarrow> int" where
  "give_ranks (w # ws) (m # ms) rk = give_ranks ws ms (rk(nat w := m))"
| "give_ranks _ _ rk = rk"

lemma assign_ranks_set_ranks:
  "in_range ns ws \<Longrightarrow> length ws = length ms \<Longrightarrow>
     assign_ranks ws ms (set_ranks rk ns) = set_ranks (give_ranks ws ms rk) ns"
proof (induction ws ms arbitrary: rk rule: list_induct2')
  case (4 w ws m ms)
  have r: "in_range ns ws" using "4.prems" by (simp add: in_range_def)
  have w: "vec_index w = nat w" "nat w < length ns" using in_rangeD [OF "4.prems"(1), of w] by auto
  have "upd_node w (\<lambda>n. n\<lparr>gn_rank := m\<rparr>) (set_ranks rk ns) = set_ranks (rk(nat w := m)) ns"
    using set_ranks_upd [of "nat w" ns rk m] w by (simp add: upd_node_def)
  then show ?case using "4.IH" [OF r] "4.prems" by simp
qed auto

lemma give_ranks_outside:
  "i \<notin> nat ` set ws \<Longrightarrow> give_ranks ws ms rk i = rk i"
  by (induction ws ms arbitrary: rk rule: list_induct2') auto

lemma give_ranks_nth:
  "inj_on nat (set ws) \<Longrightarrow> distinct ws \<Longrightarrow> length ws = length ms \<Longrightarrow> k < length ws \<Longrightarrow>
     give_ranks ws ms rk (nat (ws ! k)) = ms ! k"
proof (induction ws ms arbitrary: rk k rule: list_induct2')
  case (4 w ws m ms)
  have inj: "inj_on nat (set ws)" "nat w \<notin> nat ` set ws"
    using "4.prems" by auto
  show ?case
  proof (cases k)
    case 0
    then show ?thesis using give_ranks_outside [of "nat w" ws ms "rk(nat w := m)"] inj by simp
  next
    case (Suc k')
    then show ?thesis using "4.IH" [OF inj(1), of k'] "4.prems" by simp
  qed
qed auto

lemma Reorder_eq:
  assumes r: "in_range ns (deltab @ deltaf)" and d: "distinct (deltab @ deltaf)"
  defines "sb \<equiv> sort_key (\<lambda>v. rank_fn ns (nat v)) deltab"
    and "sf \<equiv> sort_key (\<lambda>v. rank_fn ns (nat v)) deltaf"
  shows "\<exists>rk'. reassigned (rank_fn ns) (map nat sb) (map nat sf) rk' \<and>
           Reorder (with_visited ns (nat ` set deltaf \<union> nat ` set deltab)) deltab deltaf
             = set_ranks rk' (with_visited ns {})"
proof -
  let ?ns = "with_visited ns {}" and ?g = "\<lambda>v. rank_fn ns (nat v)"
  let ?M = "std_merge (map ?g sb) (map ?g sf)"
  let ?rk' = "give_ranks (sb @ sf) ?M (rank_fn ns)"
  have ranges: "in_range ns deltab" "in_range ns deltaf" "in_range ns sb" "in_range ns sf"
    "in_range ?ns (sb @ sf)" "in_range ns (sb @ sf)"
    using r by (auto simp: in_range_def sb_def sf_def)
  have dist: "distinct (sb @ sf)" using d by (simp add: sb_def sf_def)
  have none: "nat ` set deltaf \<union> nat ` set deltab - nat ` set deltab - nat ` set deltaf = {}" by blast
  have len: "length (sb @ sf) = length ?M" by (simp add: std_merge_length)
  have "Reorder (with_visited ns (nat ` set deltaf \<union> nat ` set deltab)) deltab deltaf
      = assign_ranks (sb @ sf) ?M ?ns"
    using ranges by (simp add: Reorder_def Sort_visited MoveToList_eq sb_def sf_def none)
  also have "\<dots> = set_ranks ?rk' ?ns"
    using assign_ranks_set_ranks [OF ranges(5) len, of "rank_fn ns"] by (simp add: set_ranks_self)
  finally have eq: "Reorder (with_visited ns (nat ` set deltaf \<union> nat ` set deltab)) deltab deltaf
      = set_ranks ?rk' ?ns" .
  have "reassigned (rank_fn ns) (map nat sb) (map nat sf) ?rk'"
    unfolding reassigned_def
  proof (intro conjI allI impI)
    fix k assume "k < length (map nat sb @ map nat sf)"
    then show "?rk' ((map nat sb @ map nat sf) ! k)
        = std_merge (map (rank_fn ns) (map nat sb)) (map (rank_fn ns) (map nat sf)) ! k"
      using give_ranks_nth [OF in_range_nat_inj [OF ranges(6)] dist len, of k]
      by (simp add: comp_def flip: map_append)
  next
    fix i assume "i \<notin> set (map nat sb @ map nat sf)"
    then show "?rk' i = rank_fn ns i" by (intro give_ranks_outside) auto
  qed
  then show ?thesis using eq by blast
qed

section \<open>Changing an edge\<close>

definition put_edge :: "nat \<Rightarrow> nat \<Rightarrow> node_set \<Rightarrow> node_set \<Rightarrow> gnode list \<Rightarrow> gnode list" where
  "put_edge x y s t ns =
     upd_node (int y) (\<lambda>n. n\<lparr>gn_in := t\<rparr>) (upd_node (int x) (\<lambda>n. n\<lparr>gn_out := s\<rparr>) ns)"

lemma upd_node_length [simp]: "length (upd_node v f ns) = length ns"
  by (simp add: upd_node_def)

lemma put_edge_length [simp]: "length (put_edge x y s t ns) = length ns"
  by (simp add: put_edge_def)

lemma put_edge_nth:
  assumes "length ns \<le> 2 ^ 31" "x < length ns" "y < length ns" "i < length ns"
  shows "put_edge x y s t ns ! i =
     (ns ! i)\<lparr>gn_out := if i = x then s else gn_out (ns ! i), gn_in := if i = y then t else gn_in (ns ! i)\<rparr>"
  using assms by (auto simp: put_edge_def upd_node_def vec_index_int [of _ ns] nth_list_update)

text \<open>Sets that agree up to the one membership that a change of the edge \<open>(x, y)\<close> decides.\<close>

definition set_to :: "bool \<Rightarrow> int \<Rightarrow> node_set \<Rightarrow> node_set \<Rightarrow> bool" where
  "set_to b v s s' \<longleftrightarrow> ns_inv s' \<and> ns_set s' = (if b then insert v (ns_set s) else ns_set s - {v})"

lemma put_edge_adj_ok:
  assumes ok: "adj_ok ns" and xy: "x < length ns" "y < length ns"
    and s: "set_to b (int y) (gn_out (ns ! x)) s" and t: "set_to b (int x) (gn_in (ns ! y)) t"
  shows "adj_ok (put_edge x y s t ns)"
    and "edges (put_edge x y s t ns) = (if b then insert (x, y) (edges ns) else edges ns - {(x, y)})"
proof -
  note len = adj_ok_length [OF ok]
  note nth = put_edge_nth [OF len xy]
  have out: "ns_inv (gn_out (put_edge x y s t ns ! i)) \<and>
      ns_set (gn_out (put_edge x y s t ns ! i)) =
        (if i = x then (if b then insert (int y) (ns_set (gn_out (ns ! i))) else ns_set (gn_out (ns ! i)) - {int y})
         else ns_set (gn_out (ns ! i)))" if "i < length ns" for i
    using that s adj_okD(1) [OF ok that] by (simp add: nth set_to_def)
  have "in": "ns_inv (gn_in (put_edge x y s t ns ! i)) \<and>
      ns_set (gn_in (put_edge x y s t ns ! i)) =
        (if i = y then (if b then insert (int x) (ns_set (gn_in (ns ! i))) else ns_set (gn_in (ns ! i)) - {int x})
         else ns_set (gn_in (ns ! i)))" if "i < length ns" for i
    using that t adj_okD(2) [OF ok that] by (simp add: nth set_to_def)
  show "edges (put_edge x y s t ns) = (if b then insert (x, y) (edges ns) else edges ns - {(x, y)})"
    using out xy by (auto simp: edges_def split: if_splits)
  show "adj_ok (put_edge x y s t ns)"
    unfolding adj_ok_def put_edge_length
  proof (intro conjI allI impI)
    fix i j assume ij: "i < length ns" "j < length ns"
    show "int j \<in> ns_set (gn_out (put_edge x y s t ns ! i)) \<longleftrightarrow> int i \<in> ns_set (gn_in (put_edge x y s t ns ! j))"
      using out [OF ij(1)] "in" [OF ij(2)] adj_ok_sym [OF ok ij] by auto
  next
    fix i assume i: "i < length ns"
    show "ns_set (gn_out (put_edge x y s t ns ! i)) \<subseteq> {0..<int (length ns)}"
      using out [OF i] adj_okD(3) [OF ok i] xy by auto
    show "ns_set (gn_in (put_edge x y s t ns ! i)) \<subseteq> {0..<int (length ns)}"
      using "in" [OF i] adj_okD(4) [OF ok i] xy by auto
    show "ns_inv (gn_out (put_edge x y s t ns ! i))" using out [OF i] by simp
    show "ns_inv (gn_in (put_edge x y s t ns ! i))" using "in" [OF i] by simp
  qed (use len in simp)
qed

lemma put_edge_frame:
  assumes "length ns \<le> 2 ^ 31" "x < length ns" "y < length ns"
  shows "map gn_identity (put_edge x y s t ns) = map gn_identity ns"
    and "i < length ns \<Longrightarrow> rank_fn (put_edge x y s t ns) i = rank_fn ns i"
    and "none_visited (put_edge x y s t ns) \<longleftrightarrow> none_visited ns"
    and "with_visited (put_edge x y s t ns) V = put_edge x y s t (with_visited ns V)"
  using put_edge_nth [OF assms] put_edge_nth [of "with_visited ns V" x y] assms
  by (auto intro!: nth_equalityI simp: rank_fn_def none_visited_def all_set_conv_all_nth)

section \<open>The searches after a violating insertion\<close>

text \<open>The edge \<open>(x, y)\<close> is in the graph and is the only one that goes down.\<close>

definition pending :: "gnode list \<Rightarrow> nat \<Rightarrow> nat \<Rightarrow> bool" where
  "pending ns x y \<longleftrightarrow> adj_ok ns \<and> none_visited ns \<and>
     bij_betw (rank_fn ns) {..<length ns} {0..<int (length ns)} \<and>
     x < length ns \<and> y < length ns \<and> rank_fn ns y < rank_fn ns x \<and>
     (\<forall>(i, j) \<in> edges ns - {(x, y)}. rank_fn ns i < rank_fn ns j)"

lemma pendingD:
  assumes "pending ns x y"
  shows "adj_ok ns" "none_visited ns" "x < length ns" "y < length ns" "rank_fn ns y < rank_fn ns x"
    "bij_betw (rank_fn ns) {..<length ns} {0..<int (length ns)}"
  using assms by (auto simp: pending_def)

lemma pending_edge:
  "pending ns x y \<Longrightarrow> (i, j) \<in> edges ns \<Longrightarrow> (i, j) \<noteq> (x, y) \<Longrightarrow> rank_fn ns i < rank_fn ns j"
  unfolding pending_def by auto

lemma pending_inj:
  "pending ns x y \<Longrightarrow> i < length ns \<Longrightarrow> j < length ns \<Longrightarrow> rank_fn ns i = rank_fn ns j \<Longrightarrow> i = j"
  unfolding pending_def bij_betw_def by (auto dest: inj_onD)

abbreviation fwd_post :: "gnode list \<Rightarrow> nat \<Rightarrow> nat \<Rightarrow> bool \<times> gnode list \<times> int list \<Rightarrow> bool" where
  "fwd_post ns x y \<equiv> dfs_post gn_out (\<lambda>nw. gn_rank nw = rank_fn ns x) (\<lambda>nw. gn_rank nw < rank_fn ns x) ns {} y"

abbreviation bwd_post ::
    "gnode list \<Rightarrow> nat set \<Rightarrow> nat \<Rightarrow> nat \<Rightarrow> bool \<times> gnode list \<times> int list \<Rightarrow> bool" where
  "bwd_post ns F x y \<equiv> dfs_post gn_in (\<lambda>_. False) (\<lambda>nw. rank_fn ns y < gn_rank nw) ns F x"

lemma forward_search:
  assumes "pending ns x y"
  shows "\<exists>res. ForwardDFS ns (int y) (rank_fn ns x) = Inr res \<and> fwd_post ns x y res"
  unfolding ForwardDFS_def
proof (rule dfs_loop_correct)
  show "ns = with_visited ns ({} \<union> nat ` set [])"
    using pendingD(2) [OF assms] by (simp add: with_visited_none)
qed (use pendingD [OF assms] adj_ok_length adj_okD(3) in
    \<open>auto simp: mark_free_def dfs_delta_ok_def dfs_closed_def\<close>)

lemma backward_search:
  assumes "pending ns x y"
  shows "\<exists>res. BackwardDFS (with_visited ns F) (int x) (rank_fn ns y) = Inr res \<and> bwd_post ns F x y res"
  unfolding BackwardDFS_def
proof (rule dfs_loop_correct)
qed (use pendingD [OF assms] adj_ok_length adj_okD(4) in
    \<open>auto simp: mark_free_def dfs_delta_ok_def dfs_closed_def\<close>)

lemma forward_reach:
  assumes p: "pending ns x y"
    and "(y, d) \<in> (step_rel gn_out (\<lambda>nw. gn_rank nw < rank_fn ns x) ns)\<^sup>*"
  shows "d < length ns \<and> rank_fn ns y \<le> rank_fn ns d \<and> rank_fn ns d < rank_fn ns x \<and>
    (y, d) \<in> (edges ns - {(x, y)})\<^sup>*"
  using assms(2)
proof (induction rule: rtrancl_induct)
  case base then show ?case using pendingD [OF p] by simp
next
  case (step d e)
  have e: "(d, e) \<in> edges ns - {(x, y)}" "rank_fn ns e < rank_fn ns x"
    using step by (auto simp: step_rel_def edges_def rank_fn_def)
  then show ?case
    using pending_edge [OF p, of d e] edges_range [OF pendingD(1) [OF p], of d e] step.IH
    by (auto intro: rtrancl_into_rtrancl)
qed

lemma backward_reach:
  assumes p: "pending ns x y"
    and "(x, d) \<in> (step_rel gn_in (\<lambda>nw. rank_fn ns y < gn_rank nw) ns)\<^sup>*"
  shows "d < length ns \<and> rank_fn ns y < rank_fn ns d \<and> rank_fn ns d \<le> rank_fn ns x"
  using assms(2)
proof (induction rule: rtrancl_induct)
  case base then show ?case using pendingD [OF p] by simp
next
  case (step d e)
  have e: "(e, d) \<in> edges ns" "rank_fn ns y < rank_fn ns e" "d \<noteq> y"
    using step edges_pred [OF pendingD(1) [OF p], of d e] by (auto simp: step_rel_def rank_fn_def)
  then show ?case
    using pending_edge [OF p, of e d] edges_range [OF pendingD(1) [OF p], of e d] step.IH by auto
qed

text \<open>The forward search fails exactly when \<open>y\<close> already reaches \<open>x\<close>.\<close>

lemma fwd_post_member:
  assumes "pending ns x y" "fwd_post ns x y (res, ns', delta)" "d \<in> nat ` set delta"
  shows "d < length ns" "rank_fn ns y \<le> rank_fn ns d" "rank_fn ns d < rank_fn ns x"
    "(y, d) \<in> (edges ns - {(x, y)})\<^sup>*"
  using assms(2,3) forward_reach [OF assms(1), of d] by (auto simp: dfs_post_def dfs_delta_ok_def)

lemma fwd_post_closed:
  assumes p: "pending ns x y" and f: "fwd_post ns x y (True, ns', delta)"
    and d: "d \<in> nat ` set delta" and e: "(d, e) \<in> edges ns"
  shows "e \<in> nat ` set delta \<or> rank_fn ns x < rank_fn ns e"
proof -
  have "int e \<in> ns_set (gn_out (ns ! d))" using e by (simp add: edges_def)
  then have "gn_rank (ns ! nat (int e)) \<noteq> rank_fn ns x \<and>
      (gn_rank (ns ! nat (int e)) < rank_fn ns x \<longrightarrow> nat (int e) \<in> nat ` set delta)"
    using f d unfolding dfs_post_def dfs_closed_def by fastforce
  then show ?thesis by (auto simp: rank_fn_def)
qed

lemma forward_cycle:
  assumes p: "pending ns x y" and f: "fwd_post ns x y (False, ns', delta)"
  shows "(y, x) \<in> (edges ns - {(x, y)})\<^sup>*"
proof -
  obtain d w where d: "d \<in> set delta" "w \<in> ns_set (gn_out (ns ! nat d))" "rank_fn ns (nat w) = rank_fn ns x"
    using f by (auto simp: dfs_post_def rank_fn_def)
  note m = fwd_post_member [OF p f imageI [OF d(1)]]
  have e: "(nat d, nat w) \<in> edges ns" using m d by (auto simp: edges_def ns_set_def)
  then have "nat w = x"
    using pending_inj [OF p _ _ d(3)] edges_range [OF pendingD(1) [OF p] e] pendingD(3) [OF p] by blast
  then show ?thesis using e m pendingD(5) [OF p] by (auto intro: rtrancl_into_rtrancl)
qed

lemma forward_no_cycle:
  assumes p: "pending ns x y" and f: "fwd_post ns x y (True, ns', delta)"
  shows "(y, x) \<notin> (edges ns - {(x, y)})\<^sup>*"
proof -
  have "z \<in> nat ` set delta \<or> rank_fn ns x < rank_fn ns z" if "(y, z) \<in> (edges ns - {(x, y)})\<^sup>*" for z
    using that
  proof (induction rule: rtrancl_induct)
    case base then show ?case using f by (simp add: dfs_post_def)
  next
    case (step d e)
    then have "e \<in> nat ` set delta \<or> rank_fn ns x < rank_fn ns e" if "d \<in> nat ` set delta"
      using fwd_post_closed [OF p f that] by auto
    moreover have "rank_fn ns d < rank_fn ns e" using step pending_edge [OF p, of d e] by auto
    ultimately show ?case using step.IH by auto
  qed
  then show ?thesis using fwd_post_member(3) [OF p f, of x] by auto
qed

text \<open>The backward search collects the predecessors in the affected region.\<close>

lemma bwd_post_true: "bwd_post ns F x y (res, ns', delta) \<Longrightarrow> res"
  by (auto simp: dfs_post_def split: if_splits)

lemma bwd_post_member:
  assumes "pending ns x y" "bwd_post ns F x y (res, ns', delta)" "d \<in> nat ` set delta"
  shows "d < length ns \<and> d \<notin> F \<and> rank_fn ns y < rank_fn ns d \<and> rank_fn ns d \<le> rank_fn ns x"
  using assms(2,3) backward_reach [OF assms(1), of d] by (auto simp: dfs_post_def dfs_delta_ok_def)

lemma bwd_post_closed:
  assumes p: "pending ns x y" and f: "bwd_post ns F x y (res, ns', delta)"
    and d: "d \<in> nat ` set delta" and e: "(e, d) \<in> edges ns"
  shows "e \<in> nat ` set delta \<or> e \<in> F \<or> rank_fn ns e \<le> rank_fn ns y"
proof -
  have "int e \<in> ns_set (gn_in (ns ! d))"
    using e bwd_post_member [OF p f d] edges_pred [OF pendingD(1) [OF p]] by blast
  then have "rank_fn ns y < gn_rank (ns ! nat (int e)) \<longrightarrow> nat (int e) \<in> F \<union> nat ` set delta"
    using f d bwd_post_true [OF f] unfolding dfs_post_def dfs_closed_def by fastforce
  then show ?thesis by (auto simp: rank_fn_def)
qed

section \<open>Reordering repairs the order\<close>

lemma distinct_map_sort: "distinct (map f (sort_key g xs)) \<longleftrightarrow> distinct (map f xs)"
  by (rule mset_eq_imp_distinct_iff) simp

lemma order_ok_set_ranks:
  assumes p: "pending ns x y" and bij: "bij_betw rk' {..<length ns} {0..<int (length ns)}"
    and up: "\<And>i j. (i, j) \<in> edges ns \<Longrightarrow> rk' i < rk' j"
  defines "ns' \<equiv> set_ranks rk' (with_visited ns {})"
  shows "order_ok ns' \<and> edges ns' = edges ns \<and> map gn_identity ns' = map gn_identity ns"
proof -
  have adj: "map gn_adj ns' = map gn_adj ns"
    by (simp add: ns'_def set_ranks_adj with_visited_adj)
  have len: "length ns' = length ns" by (simp add: ns'_def)
  have rk: "rank_fn ns' i = rk' i" if "i < length ns" for i
    using that by (simp add: ns'_def rank_fn_def)
  have "bij_betw (rank_fn ns') {..<length ns} {0..<int (length ns)}"
    using bij by (subst bij_betw_cong [of _ _ rk']) (auto simp: rk)
  moreover have "rank_fn ns' i < rank_fn ns' j" if "(i, j) \<in> edges ns" for i j
    using up [OF that] edges_range [OF pendingD(1) [OF p] that] by (simp add: rk)
  moreover have "adj_ok ns'" "edges ns' = edges ns"
    using adj_ok_cong [OF adj] pendingD(1) [OF p] by auto
  moreover have "none_visited ns'" "map gn_identity ns' = map gn_identity ns"
    by (simp_all add: ns'_def set_ranks_none_visited with_visited_none_visited set_ranks_identity
        with_visited_identity)
  ultimately show ?thesis by (auto simp: order_ok_def ranks_ok_def len)
qed

lemma reassigned_bij:
  assumes re: "reassigned rk sb sf rk'" and bij: "bij_betw rk A R"
    and d: "distinct (sb @ sf)" "set (sb @ sf) \<subseteq> A"
  shows "bij_betw rk' A R"
proof (rule reassign_bij [OF bij d])
  show "set (std_merge (map rk sb) (map rk sf)) = rk ` set (sb @ sf)"
    by (auto simp: std_merge_set)
qed (use re in \<open>auto simp: reassigned_def std_merge_length\<close>)

lemma reorder_order_ok:
  assumes p: "pending ns x y" and f: "fwd_post ns x y (True, ns3, deltaf)"
    and b: "bwd_post ns (nat ` set deltaf) x y (res, ns4, deltab)"
  shows "order_ok (Reorder ns4 deltab deltaf) \<and> edges (Reorder ns4 deltab deltaf) = edges ns \<and>
    map gn_identity (Reorder ns4 deltab deltaf) = map gn_identity ns"
proof -
  let ?F = "nat ` set deltaf" and ?B = "nat ` set deltab" and ?rk = "rank_fn ns" and ?A = "{..<length ns}"
  define sb where "sb = map nat (sort_key (\<lambda>v. ?rk (nat v)) deltab)"
  define sf where "sf = map nat (sort_key (\<lambda>v. ?rk (nat v)) deltaf)"
  have F: "set sf = ?F" and B: "set sb = ?B" by (simp_all add: sb_def sf_def)
  have ns4: "ns4 = with_visited ns (?F \<union> ?B)" using b by (simp add: dfs_post_def)
  have r: "in_range ns (deltab @ deltaf)" and d: "distinct (deltab @ deltaf)"
    using f b adj_ok_length [OF pendingD(1) [OF p]] by (auto simp: dfs_post_def dfs_delta_ok_def in_range_def)
  obtain rk' where re: "reassigned ?rk sb sf rk'"
    and eq: "Reorder ns4 deltab deltaf = set_ranks rk' (with_visited ns {})"
    using Reorder_eq [OF r d] ns4 unfolding sb_def sf_def by blast
  have sorted: "sorted (map ?rk sb)" "sorted (map ?rk sf)"
    by (simp_all add: sb_def sf_def comp_def)
  note fm = fwd_post_member [OF p f] and bm = bwd_post_member [OF p b]
  have sub: "set (sb @ sf) \<subseteq> ?A" using fm(1) bm by (auto simp: F B)
  have "distinct (map nat (deltab @ deltaf))"
    using d in_range_nat_inj [OF r] by (simp only: distinct_map)
  then have dist: "distinct (sb @ sf)" by (simp add: sb_def sf_def distinct_map_sort)
  have inj: "inj_on ?rk ?A" using pendingD(6) [OF p] by (simp add: bij_betw_def)
  have drk: "distinct (map ?rk (sb @ sf))"
    using dist inj_on_subset [OF inj sub] by (simp only: distinct_map)
  have xy: "x \<in> set sb" "y \<in> set sf"
    using f b fm(3) [of x] bwd_post_true [OF b] by (auto simp: F B dfs_post_def)
  have "rk' i < rk' j" if "(i, j) \<in> edges ns" for i j
  proof (rule reorder_topological [OF re sorted drk inj])
    show "(i, j) \<in> edges ns \<Longrightarrow> i \<in> ?A \<and> j \<in> ?A" for i j
      using edges_range [OF pendingD(1) [OF p]] by simp
    show "i \<in> set sf \<Longrightarrow> (i, j) \<in> edges ns \<Longrightarrow> j \<in> set sf \<or> ?rk x < ?rk j" for i j
      unfolding F by (rule fwd_post_closed [OF p f])
    show "j \<in> set sb \<Longrightarrow> (i, j) \<in> edges ns \<Longrightarrow> i \<in> set sb \<or> i \<in> set sf \<or> ?rk i \<le> ?rk y" for i j
      unfolding F B by (rule bwd_post_closed [OF p b])
    show "f \<in> set sf \<Longrightarrow> ?rk y \<le> ?rk f \<and> ?rk f < ?rk x" for f
      unfolding F using fm by blast
    show "b \<in> set sb \<Longrightarrow> ?rk y < ?rk b \<and> ?rk b \<le> ?rk x" for b
      unfolding B using bm by blast
    show "(i, j) \<in> edges ns \<Longrightarrow> (i, j) \<noteq> (x, y) \<Longrightarrow> ?rk i < ?rk j" for i j
      by (rule pending_edge [OF p])
  qed (use that xy pendingD(4) [OF p] in auto)
  then show ?thesis
    unfolding eq by (intro order_ok_set_ranks [OF p]) (auto intro: reassigned_bij [OF re pendingD(6) [OF p] dist sub])
qed

section \<open>Finding nodes\<close>

lemma vec_index_sint:
  assumes "vec_index (sint (w :: u32)) < 2 ^ 31"
  shows "sint w = int (vec_index (sint w))"
proof -
  have v: "vec_index (sint w) = unat w" by (simp add: vec_index_def)
  have u: "int (unat w) = uint w" by simp
  have "int (unat w) < 2 ^ 31" using assms unfolding v by (metis of_nat_less_numeral_power_cancel_iff)
  then have "uint w < 2 ^ 31" unfolding u .
  then have "signed_take_bit 31 (uint w) = uint w"
    by (intro signed_take_bit_int_eq_self) (auto intro: order_trans [OF _ uint_ge_0])
  then show ?thesis unfolding v u by (simp add: sint_uint)
qed

lemma FindNode_eq:
  assumes "length (gr_nodes r) \<le> 2 ^ 31" "vec_index (NodeIndex gid) < length (gr_nodes r)"
  shows "FindNode r gid =
      Inr (if gn_version (gr_nodes r ! vec_index (NodeIndex gid)) = NodeVersion gid
           then Some (int (vec_index (NodeIndex gid))) else None)"
proof -
  have "NodeIndex gid = int (vec_index (NodeIndex gid))"
    using assms unfolding NodeIndex_def by (intro vec_index_sint) linarith
  then show ?thesis using assms by (auto simp: FindNode_def node_at_def)
qed

lemma FindNode_cases:
  assumes "length (gr_nodes r) \<le> 2 ^ 31" "FindNode r gid = Inr (Some v)"
  shows "NodeIndex gid = v \<and> (\<exists>x < length (gr_nodes r). v = int x \<and> vec_index v = x)"
proof -
  have l: "vec_index (NodeIndex gid) < length (gr_nodes r)" and v: "v = NodeIndex gid"
    using assms(2) by (auto simp: FindNode_def node_at_def split: if_splits)
  have "NodeIndex gid = int (vec_index (NodeIndex gid))"
    using assms(1) l unfolding NodeIndex_def by (intro vec_index_sint) linarith
  then show ?thesis using l v by metis
qed

section \<open>InsertEdge\<close>

lemma order_okD:
  assumes "order_ok ns"
  shows "adj_ok ns" "ranks_ok ns" "none_visited ns" "length ns \<le> 2 ^ 31"
  using assms unfolding order_ok_def by (blast intro: adj_ok_length)+

definition edge_inserted :: "gnode list \<Rightarrow> nat \<Rightarrow> nat \<Rightarrow> bool \<Rightarrow> gnode list \<Rightarrow> bool" where
  "edge_inserted ns x y res ns' \<longleftrightarrow>
     res = ((y, x) \<notin> (edges ns)\<^sup>*) \<and> order_ok ns' \<and>
     edges ns' = (if res then insert (x, y) (edges ns) else edges ns) \<and>
     map gn_identity ns' = map gn_identity ns"

lemma put_edge_pending:
  assumes ok: "order_ok ns" and xy: "x < length ns" "y < length ns" "(x, y) \<notin> edges ns"
    and lt: "rank_fn ns y < rank_fn ns x"
    and s: "set_to True (int y) (gn_out (ns ! x)) s" and t: "set_to True (int x) (gn_in (ns ! y)) t"
  shows "pending (put_edge x y s t ns) x y" "edges (put_edge x y s t ns) - {(x, y)} = edges ns"
proof -
  let ?ns = "put_edge x y s t ns"
  note o = order_okD [OF ok]
  note e = put_edge_adj_ok [OF o(1) xy(1,2) s t]
  note fr = put_edge_frame [OF o(4) xy(1,2), where s = s and t = t]
  show e': "edges ?ns - {(x, y)} = edges ns" using e(2) xy by auto
  have "bij_betw (rank_fn ?ns) {..<length ns} {0..<int (length ns)}"
    using o(2) unfolding ranks_ok_def by (subst bij_betw_cong [of _ _ "rank_fn ns"]) (auto simp: fr(2))
  moreover have "rank_fn ?ns i < rank_fn ?ns j" if "(i, j) \<in> edges ns" for i j
    using ranks_ok_edge [OF o(2) that] edges_range [OF o(1) that] by (simp add: fr(2))
  ultimately show "pending ?ns x y"
    using e(1) o(3) xy lt fr(2,3) e' by (auto simp: pending_def)
qed

lemma put_edge_order_ok:
  assumes ok: "order_ok ns" and xy: "x < length ns" "y < length ns"
    and s: "set_to b (int y) (gn_out (ns ! x)) s" and t: "set_to b (int x) (gn_in (ns ! y)) t"
    and lt: "b \<Longrightarrow> rank_fn ns x < rank_fn ns y"
  shows "order_ok (put_edge x y s t ns)"
proof -
  let ?ns = "put_edge x y s t ns"
  note o = order_okD [OF ok]
  note e = put_edge_adj_ok [OF o(1) xy(1,2) s t]
  note fr = put_edge_frame [OF o(4) xy(1,2), where s = s and t = t]
  have "bij_betw (rank_fn ?ns) {..<length ns} {0..<int (length ns)}"
    using o(2) unfolding ranks_ok_def by (subst bij_betw_cong [of _ _ "rank_fn ns"]) (auto simp: fr(2))
  moreover have "rank_fn ?ns i < rank_fn ?ns j" if "(i, j) \<in> edges ?ns" for i j
    using ranks_ok_edge [OF o(2), of i j] edges_range [OF o(1), of i j] lt that xy
    by (auto simp: e(2) fr(2) split: if_splits)
  ultimately show ?thesis
    using e(1) o(3) fr(3) by (auto simp: order_ok_def ranks_ok_def)
qed

lemma pending_undo:
  assumes p: "pending ns x y"
    and s: "set_to False (int y) (gn_out (ns ! x)) s" and t: "set_to False (int x) (gn_in (ns ! y)) t"
  shows "order_ok (put_edge x y s t ns) \<and> edges (put_edge x y s t ns) = edges ns - {(x, y)}"
proof -
  let ?ns = "put_edge x y s t ns"
  note o = pendingD [OF p]
  note e = put_edge_adj_ok [OF o(1,3,4) s t]
  note fr = put_edge_frame [OF adj_ok_length [OF o(1)] o(3,4), where s = s and t = t]
  have "bij_betw (rank_fn ?ns) {..<length ns} {0..<int (length ns)}"
    using o(6) by (subst bij_betw_cong [of _ _ "rank_fn ns"]) (auto simp: fr(2))
  moreover have "rank_fn ?ns i < rank_fn ?ns j" if "(i, j) \<in> edges ?ns" for i j
    using pending_edge [OF p, of i j] edges_range [OF o(1), of i j] that by (auto simp: e(2) fr(2))
  ultimately show ?thesis
    using e o(2) fr(3) by (auto simp: order_ok_def ranks_ok_def)
qed

lemma upd_out_fields:
  assumes "length ns \<le> 2 ^ 31" "x < length ns" "i < length ns"
  shows "gn_in (upd_node (int x) (\<lambda>n. n\<lparr>gn_out := s\<rparr>) ns ! i) = gn_in (ns ! i)"
  using assms by (auto simp: upd_node_def vec_index_int nth_list_update)

lemma put_edge_same_in:
  assumes "length ns \<le> 2 ^ 31" "x < length ns" "y < length ns"
  shows "put_edge x y s (gn_in (ns ! y)) ns = upd_node (int x) (\<lambda>n. n\<lparr>gn_out := s\<rparr>) ns"
proof (rule nth_equalityI)
  fix i assume "i < length (put_edge x y s (gn_in (ns ! y)) ns)"
  then show "put_edge x y s (gn_in (ns ! y)) ns ! i = upd_node (int x) (\<lambda>n. n\<lparr>gn_out := s\<rparr>) ns ! i"
    using assms put_edge_nth [OF assms, of i s "gn_in (ns ! y)"]
    by (auto simp: upd_node_def vec_index_int nth_list_update)
qed simp

text \<open>The part of \<open>InsertEdge\<close> that runs when the new edge violates the ranks.\<close>

definition repair :: "graph_rep \<Rightarrow> nat \<Rightarrow> nat \<Rightarrow> gnode list \<Rightarrow> fault + (bool \<times> graph_rep)" where
  "repair r x y ns2 =
     bindE (ForwardDFS ns2 (int y) (rank_fn ns2 x)) (\<lambda>(ok, ns3, deltaf).
       if \<not> ok then
         bindE (returns (ns_erase (gn_out (ns3 ! x)) (int y))) (\<lambda>s'.
         let ns4 = upd_node (int x) (\<lambda>n. n\<lparr>gn_out := s'\<rparr>) ns3 in
         bindE (returns (ns_erase (gn_in (ns4 ! y)) (int x))) (\<lambda>t'.
         let ns5 = upd_node (int y) (\<lambda>n. n\<lparr>gn_in := t'\<rparr>) ns4 in
         Inr (False, r\<lparr>gr_nodes := clear_visited deltaf ns5\<rparr>)))
       else
         bindE (BackwardDFS ns3 (int x) (rank_fn ns3 y)) (\<lambda>(_, ns4, deltab).
         Inr (True, r\<lparr>gr_nodes := Reorder ns4 deltab deltaf\<rparr>)))"

lemma erase_to:
  assumes "ns_inv s" "v \<ge> 0"
  shows "\<exists>s'. ns_erase s v = Some s' \<and> set_to False v s s'"
  using ns_erase_correct [OF assms] by (auto simp: set_to_def)

lemma repair_undo:
  assumes p: "pending ns x y" and F: "ForwardDFS ns (int y) (rank_fn ns x) = Inr (False, ns3, delta)"
    and f: "fwd_post ns x y (False, ns3, delta)"
  shows "\<exists>ns'. repair r x y ns = Inr (False, r\<lparr>gr_nodes := ns'\<rparr>) \<and> order_ok ns' \<and>
    edges ns' = edges ns - {(x, y)} \<and> map gn_identity ns' = map gn_identity ns"
proof -
  note o = pendingD [OF p] note len = adj_ok_length [OF o(1)]
  let ?V = "nat ` set delta"
  have ns3: "ns3 = with_visited ns ?V" using f by (simp add: dfs_post_def)
  obtain s where s: "ns_erase (gn_out (ns ! x)) (int y) = Some s" "set_to False (int y) (gn_out (ns ! x)) s"
    using erase_to [OF adj_okD(1) [OF o(1,3)], of "int y"] by auto
  obtain t where t: "ns_erase (gn_in (ns ! y)) (int x) = Some t" "set_to False (int x) (gn_in (ns ! y)) t"
    using erase_to [OF adj_okD(2) [OF o(1,4)], of "int x"] by auto
  let ?ns = "put_edge x y s t ns"
  have "\<forall>d \<in> set delta. 0 \<le> d \<and> d < int (length ?ns)"
    using f by (simp add: dfs_post_def dfs_delta_ok_def)
  then have "clear_visited delta (put_edge x y s t ns3) = ?ns"
    using clear_visited_with_visited [of ?ns delta ?V] len o(3,4) put_edge_frame(3,4) [OF len o(3,4)] o(2)
    by (simp add: ns3 with_visited_none)
  moreover have "gn_in (upd_node (int x) (\<lambda>n. n\<lparr>gn_out := s\<rparr>) ns3 ! y) = gn_in (ns ! y)"
    "gn_out (ns3 ! x) = gn_out (ns ! x)"
    using upd_out_fields [of ns3 x y s] len o(3,4) by (simp_all add: ns3)
  ultimately have "repair r x y ns = Inr (False, r\<lparr>gr_nodes := ?ns\<rparr>)"
    using s t by (simp add: repair_def F put_edge_def Let_def)
  then show ?thesis
    using pending_undo [OF p s(2) t(2)] put_edge_frame(1) [OF len o(3,4)] by blast
qed

lemma repair_reorder:
  assumes p: "pending ns x y" and F: "ForwardDFS ns (int y) (rank_fn ns x) = Inr (True, ns3, deltaf)"
    and f: "fwd_post ns x y (True, ns3, deltaf)"
  shows "\<exists>ns'. repair r x y ns = Inr (True, r\<lparr>gr_nodes := ns'\<rparr>) \<and> order_ok ns' \<and>
    edges ns' = edges ns \<and> map gn_identity ns' = map gn_identity ns"
proof -
  let ?V = "nat ` set deltaf"
  have ns3: "ns3 = with_visited ns ?V" using f by (simp add: dfs_post_def)
  obtain res ns4 deltab
    where B: "BackwardDFS ns3 (int x) (rank_fn ns y) = Inr (res, ns4, deltab)"
      and b: "bwd_post ns ?V x y (res, ns4, deltab)"
    using backward_search [OF p, of ?V] ns3 by (metis prod_cases3)
  have "rank_fn ns3 y = rank_fn ns y" using pendingD(4) [OF p] by (simp add: ns3 with_visited_rank)
  then have "repair r x y ns = Inr (True, r\<lparr>gr_nodes := Reorder ns4 deltab deltaf\<rparr>)"
    using B by (simp add: repair_def F)
  then show ?thesis using reorder_order_ok [OF p f b] by blast
qed

lemma repair_correct:
  assumes p: "pending ns x y"
  shows "\<exists>res ns'. repair r x y ns = Inr (res, r\<lparr>gr_nodes := ns'\<rparr>) \<and> order_ok ns' \<and>
    res = ((y, x) \<notin> (edges ns - {(x, y)})\<^sup>*) \<and>
    edges ns' = (if res then edges ns else edges ns - {(x, y)}) \<and> map gn_identity ns' = map gn_identity ns"
proof -
  obtain res ns3 deltaf
    where F: "ForwardDFS ns (int y) (rank_fn ns x) = Inr (res, ns3, deltaf)"
      and f: "fwd_post ns x y (res, ns3, deltaf)"
    using forward_search [OF p] by (metis prod_cases3)
  show ?thesis
  proof (cases res)
    case True
    then show ?thesis
      using repair_reorder [OF p, of ns3 deltaf r] F f forward_no_cycle [OF p, of ns3 deltaf] by auto
  next
    case False
    then show ?thesis
      using repair_undo [OF p, of ns3 deltaf r] F f forward_cycle [OF p, of ns3 deltaf] by auto
  qed
qed

lemma insert_to:
  assumes "ns_inv s" "v \<ge> 0"
  shows "\<exists>s'. ns_insert s v = Some (v \<notin> ns_set s, s') \<and> set_to True v s s'"
  using ns_insert_correct [OF assms] by (auto simp: set_to_def)

lemma upd_node_rank:
  "i < length ns \<Longrightarrow> length ns \<le> 2 ^ 31 \<Longrightarrow> rank_of ns (int i) = rank_fn ns i"
  by (simp add: rank_of_def rank_fn_def vec_index_int)

lemma gc_insert_edge_unfold:
  assumes ok: "order_ok (gr_nodes r)" and xy: "x < length (gr_nodes r)" "y < length (gr_nodes r)" "x \<noteq> y"
    and fx: "FindNode r idx = Inr (Some (int x))" and fy: "FindNode r idy = Inr (Some (int y))"
    and s: "ns_insert (gn_out (gr_nodes r ! x)) (int y) = Some (new, s)"
    and t: "ns_insert (gn_in (gr_nodes r ! y)) (int x) = Some (b, t)"
  shows "gc_insert_edge r idx idy =
    (let ns2 = put_edge x y s t (gr_nodes r) in
     if \<not> new then Inr (True, r\<lparr>gr_nodes := put_edge x y s (gn_in (gr_nodes r ! y)) (gr_nodes r)\<rparr>)
     else if rank_fn (gr_nodes r) x \<le> rank_fn (gr_nodes r) y then Inr (True, r\<lparr>gr_nodes := ns2\<rparr>)
     else repair r x y ns2)"
proof -
  let ?ns = "gr_nodes r"
  note len = order_okD(4) [OF ok]
  note v = vec_index_int [OF xy(1) len] vec_index_int [OF xy(2) len]
  note fr = put_edge_frame(2) [OF len xy(1,2), of _ s t]
  have rk: "rank_of (put_edge x y s t ?ns) (int i) = rank_fn ?ns i" if "i < length ?ns" for i
    using upd_node_rank [of i "put_edge x y s t ?ns"] fr that len by simp
  have gin: "gn_in (upd_node (int x) (\<lambda>n. n\<lparr>gn_out := s\<rparr>) ?ns ! y) = gn_in (?ns ! y)"
    by (rule upd_out_fields [OF len xy(1,2)])
  note rk2 = rk [OF xy(1)] rk [OF xy(2)] fr [OF xy(1)] fr [OF xy(2)]
  have rank3: "rank_of ns3 (int y) = rank_fn ns3 y" for ns3 using v by (simp add: rank_of_def rank_fn_def)
  show ?thesis
    using xy(3) fx fy s t rk2 v gin put_edge_same_in [OF len xy(1,2), of s]
    by (simp add: gc_insert_edge_def repair_def rank3 Let_def cong: if_cong flip: put_edge_def)
qed

lemma gc_insert_edge_nodes:
  assumes ok: "order_ok (gr_nodes r)" and xy: "x < length (gr_nodes r)" "y < length (gr_nodes r)"
    and fx: "FindNode r idx = Inr (Some (int x))" and fy: "FindNode r idy = Inr (Some (int y))"
  shows "\<exists>res ns'. gc_insert_edge r idx idy = Inr (res, r\<lparr>gr_nodes := ns'\<rparr>) \<and>
           edge_inserted (gr_nodes r) x y res ns'"
proof (cases "x = y")
  case True
  then have "gc_insert_edge r idx idy = Inr (False, r\<lparr>gr_nodes := gr_nodes r\<rparr>)"
    using fx fy by (simp add: gc_insert_edge_def)
  moreover have "edge_inserted (gr_nodes r) x y False (gr_nodes r)"
    using True ok by (simp add: edge_inserted_def)
  ultimately show ?thesis by blast
next
  case ne: False
  let ?ns = "gr_nodes r" and ?E = "edges (gr_nodes r)"
  note o = order_okD [OF ok]
  obtain s where s: "ns_insert (gn_out (?ns ! x)) (int y) = Some ((x, y) \<notin> ?E, s)"
      "set_to True (int y) (gn_out (?ns ! x)) s"
    using insert_to [OF adj_okD(1) [OF o(1) xy(1)], of "int y"] xy by (auto simp: edges_def)
  obtain b t where t: "ns_insert (gn_in (?ns ! y)) (int x) = Some (b, t)"
      "set_to True (int x) (gn_in (?ns ! y)) t"
    using insert_to [OF adj_okD(2) [OF o(1) xy(2)], of "int x"] by auto
  note unf = gc_insert_edge_unfold [OF ok xy ne fx fy s(1) t(1)]
  note put = put_edge_adj_ok(2) [OF o(1) xy s(2)] and fr = put_edge_frame [OF o(4) xy, where s = s]
  have up: "(y, x) \<notin> ?E\<^sup>*" if "rank_fn ?ns x < rank_fn ?ns y"
    using ranks_ok_path [OF _ o(2), of y x] that by auto
  consider (old) "(x, y) \<in> ?E" | (up) "(x, y) \<notin> ?E" "rank_fn ?ns x < rank_fn ?ns y"
    | (down) "(x, y) \<notin> ?E" "rank_fn ?ns y < rank_fn ?ns x"
    using ranks_ok_inj [OF o(2) xy] ne by force
  then show ?thesis
  proof cases
    case old
    have "set_to True (int x) (gn_in (?ns ! y)) (gn_in (?ns ! y))"
      using old edges_pred [OF o(1) xy(2)] adj_okD(2) [OF o(1) xy(2)] by (auto simp: set_to_def)
    note put_edge_order_ok [OF ok xy s(2) this ranks_ok_edge [OF o(2) old]] put [OF this]
    then show ?thesis
      using old up [OF ranks_ok_edge [OF o(2) old]] fr(1) by (auto simp: unf edge_inserted_def)
  next
    case up
    then show ?thesis
      using put_edge_order_ok [OF ok xy s(2) t(2)] put [OF t(2)] \<open>rank_fn ?ns x < rank_fn ?ns y \<Longrightarrow> _\<close> fr(1)
      by (auto simp: unf edge_inserted_def Let_def)
  next
    case down
    note pe = put_edge_pending [OF ok xy down s(2) t(2)]
    obtain res ns' where rep: "repair r x y (put_edge x y s t ?ns) = Inr (res, r\<lparr>gr_nodes := ns'\<rparr>)"
        "order_ok ns'" "res = ((y, x) \<notin> ?E\<^sup>*)"
        "edges ns' = (if res then edges (put_edge x y s t ?ns) else ?E)"
        "map gn_identity ns' = map gn_identity (put_edge x y s t ?ns)"
      using repair_correct [OF pe(1), of r] unfolding pe(2) by blast
    have "edge_inserted ?ns x y res ns'"
      using rep(2-) put [OF t(2)] fr(1) unfolding edge_inserted_def by simp
    moreover have "gc_insert_edge r idx idy = Inr (res, r\<lparr>gr_nodes := ns'\<rparr>)"
      using rep(1) down by (simp add: unf)
    ultimately show ?thesis by blast
  qed
qed

section \<open>RemoveEdge and HasEdge\<close>

lemma gc_remove_edge_nodes:
  assumes ok: "order_ok (gr_nodes r)" and xy: "x < length (gr_nodes r)" "y < length (gr_nodes r)"
    and fx: "FindNode r idx = Inr (Some (int x))" and fy: "FindNode r idy = Inr (Some (int y))"
  shows "\<exists>ns'. gc_remove_edge r idx idy = Inr (r\<lparr>gr_nodes := ns'\<rparr>) \<and> order_ok ns' \<and>
           edges ns' = edges (gr_nodes r) - {(x, y)} \<and> map gn_identity ns' = map gn_identity (gr_nodes r)"
proof -
  let ?ns = "gr_nodes r"
  note o = order_okD [OF ok]
  have idx: "NodeIndex idx = int x" "NodeIndex idy = int y"
    using FindNode_cases [OF o(4) fx] FindNode_cases [OF o(4) fy] by auto
  obtain s where s: "ns_erase (gn_out (?ns ! x)) (int y) = Some s" "set_to False (int y) (gn_out (?ns ! x)) s"
    using erase_to [OF adj_okD(1) [OF o(1) xy(1)], of "int y"] by auto
  obtain t where t: "ns_erase (gn_in (?ns ! y)) (int x) = Some t" "set_to False (int x) (gn_in (?ns ! y)) t"
    using erase_to [OF adj_okD(2) [OF o(1) xy(2)], of "int x"] by auto
  have "gc_remove_edge r idx idy = Inr (r\<lparr>gr_nodes := put_edge x y s t ?ns\<rparr>)"
    using fx fy idx s t upd_out_fields [OF o(4) xy] vec_index_int [OF xy(1) o(4)] vec_index_int [OF xy(2) o(4)]
    by (simp add: gc_remove_edge_def put_edge_def Let_def)
  then show ?thesis
    using put_edge_order_ok [OF ok xy s(2) t(2)] put_edge_adj_ok(2) [OF o(1) xy s(2) t(2)]
      put_edge_frame(1) [OF o(4) xy] by auto
qed

lemma gc_has_edge_correct:
  assumes ok: "order_ok (gr_nodes r)" and xy: "x < length (gr_nodes r)" "y < length (gr_nodes r)"
    and fx: "FindNode r idx = Inr (Some (int x))" and fy: "FindNode r idy = Inr (Some (int y))"
  shows "gc_has_edge r idx idy = Inr ((x, y) \<in> edges (gr_nodes r))"
proof -
  note o = order_okD [OF ok]
  have "NodeIndex idy = int y" using FindNode_cases [OF o(4) fy] by auto
  then show ?thesis
    using fx fy xy ns_contains_correct [OF adj_okD(1) [OF o(1) xy(1)], of "int y"] vec_index_int [OF xy(1) o(4)]
    by (simp add: gc_has_edge_def edges_def)
qed

end
