(* ===== verification/Graph_Nodes.thy ===== *)
theory Graph_Nodes
  imports Graph_Order
begin

text \<open>
  The pointer map of \<open>GraphCycles\<close> and the operations that create and remove nodes: the bucket
  chains threaded through \<open>next_hash\<close>, their contents as lists of node numbers, and \<open>Find\<close>,
  \<open>Add\<close>, \<open>Remove\<close>, \<open>GetId\<close> and \<open>RemoveNode\<close> on them.
\<close>

section \<open>Chains\<close>

fun chain :: "(nat \<Rightarrow> int) \<Rightarrow> int \<Rightarrow> nat list \<Rightarrow> bool" where
  "chain nx i [] \<longleftrightarrow> i = - 1"
| "chain nx i (j # js) \<longleftrightarrow> i = int j \<and> chain nx (nx j) js"

lemma chain_cong: "\<forall>j \<in> set js. nx j = nx' j \<Longrightarrow> chain nx i js \<longleftrightarrow> chain nx' i js"
  by (induction js arbitrary: i) auto

lemma chain_unlink:
  "chain nx i (xs @ k # j # ys) \<Longrightarrow> distinct (xs @ k # j # ys) \<Longrightarrow>
     chain (nx(k := nx j)) i (xs @ k # ys)"
proof (induction xs arbitrary: i)
  case Nil
  then have "chain (nx(k := nx j)) (nx j) ys"
    using chain_cong [of ys nx "nx(k := nx j)" "nx j"] by auto
  then show ?case using Nil by (simp del: fun_upd_apply) (simp only: fun_upd_same)
next
  case (Cons x xs)
  then show ?case by auto
qed

definition next_fn :: "gnode list \<Rightarrow> nat \<Rightarrow> int" where
  "next_fn ns j = gn_next_hash (ns ! j)"

definition masked_fn :: "gnode list \<Rightarrow> nat \<Rightarrow> u64" where
  "masked_fn ns j = gn_masked_ptr (ns ! j)"

lemma hide_unhide [simp]: "HidePtr (UnhidePtr p) = p" "UnhidePtr (HidePtr p) = p"
  by (simp_all add: HidePtr_def UnhidePtr_def xor.assoc)

lemma HidePtr_inj: "HidePtr p = HidePtr q \<longleftrightarrow> p = q"
  by (metis hide_unhide(2))

text \<open>The buckets \<open>b\<close> describe the table of \<open>r\<close>.\<close>

definition buckets :: "graph_rep \<Rightarrow> (nat \<Rightarrow> nat list) \<Rightarrow> bool" where
  "buckets r b \<longleftrightarrow>
     (\<forall>h. chain (next_fn (gr_nodes r)) (gr_table r h) (b h) \<and> distinct (b h) \<and>
        set (b h) \<subseteq> {..<length (gr_nodes r)} \<and>
        inj_on (masked_fn (gr_nodes r)) (set (b h)) \<and>
        (\<forall>j \<in> set (b h). pm_hash (UnhidePtr (masked_fn (gr_nodes r) j)) = h))"

text \<open>Every node is in a bucket or unused; unused nodes hold the null pointer.\<close>

definition unused_ok :: "graph_rep \<Rightarrow> (nat \<Rightarrow> nat list) \<Rightarrow> bool" where
  "unused_ok r b \<longleftrightarrow> distinct (gr_free r) \<and> set (gr_free r) \<subseteq> {0..<int (length (gr_nodes r))} \<and>
     (\<forall>h. \<forall>j \<in> set (b h). int j \<notin> set (gr_free r)) \<and>
     (\<forall>j < length (gr_nodes r). j \<notin> (\<Union>h. set (b h)) \<longrightarrow> masked_fn (gr_nodes r) j = HidePtr 0)"

definition ptr_ok :: "graph_rep \<Rightarrow> bool" where
  "ptr_ok r \<longleftrightarrow> (\<exists>b. buckets r b \<and> unused_ok r b)"

definition gc_inv :: "graph_rep \<Rightarrow> bool" where
  "gc_inv r \<longleftrightarrow> order_ok (gr_nodes r) \<and> ptr_ok r"

lemma bucketsD:
  assumes "buckets r b"
  shows "chain (next_fn (gr_nodes r)) (gr_table r h) (b h)" "distinct (b h)"
    "j \<in> set (b h) \<Longrightarrow> j < length (gr_nodes r)"
    "inj_on (masked_fn (gr_nodes r)) (set (b h))"
    "j \<in> set (b h) \<Longrightarrow> pm_hash (UnhidePtr (masked_fn (gr_nodes r) j)) = h"
  using assms unfolding buckets_def by blast+

lemma identity_fns:
  assumes "map gn_identity ns' = map gn_identity ns" "j < length ns"
  shows "next_fn ns' j = next_fn ns j" "masked_fn ns' j = masked_fn ns j"
    "gn_version (ns' ! j) = gn_version (ns ! j)"
proof -
  have "length ns' = length ns" using arg_cong [OF assms(1), of length] by simp
  then have "gn_identity (ns' ! j) = gn_identity (ns ! j)"
    using assms nth_map [of j ns' gn_identity] nth_map [of j ns gn_identity] by simp
  then show "next_fn ns' j = next_fn ns j" "masked_fn ns' j = masked_fn ns j"
    "gn_version (ns' ! j) = gn_version (ns ! j)"
    by (auto simp: gn_identity_def next_fn_def masked_fn_def)
qed

lemma buckets_cong:
  assumes b: "buckets r b" and tab: "gr_table r' = gr_table r" "length (gr_nodes r) \<le> length (gr_nodes r')"
    and same: "\<And>h j. j \<in> set (b h) \<Longrightarrow> next_fn (gr_nodes r') j = next_fn (gr_nodes r) j \<and>
                 masked_fn (gr_nodes r') j = masked_fn (gr_nodes r) j"
  shows "buckets r' b"
proof -
  note bs = bucketsD [OF b]
  have "chain (next_fn (gr_nodes r')) (gr_table r' h) (b h)" for h
    using bs(1) [of h] same chain_cong [of "b h" "next_fn (gr_nodes r)" "next_fn (gr_nodes r')"] tab by auto
  moreover have "inj_on (masked_fn (gr_nodes r')) (set (b h))" for h
    using bs(4) [of h] same inj_on_cong [of "set (b h)" "masked_fn (gr_nodes r')" "masked_fn (gr_nodes r)"]
    by metis
  ultimately show ?thesis
    using bs(2,5) less_le_trans [OF bs(3) tab(2)] same unfolding buckets_def by auto
qed

lemma ptr_ok_cong:
  assumes id: "map gn_identity ns' = map gn_identity (gr_nodes r)" and "ptr_ok r"
  shows "ptr_ok (r\<lparr>gr_nodes := ns'\<rparr>)"
proof -
  obtain b where b: "buckets r b" "unused_ok r b" using assms(2) by (auto simp: ptr_ok_def)
  have len: "length ns' = length (gr_nodes r)" using arg_cong [OF id, of length] by simp
  note f = identity_fns [OF id]
  have "buckets (r\<lparr>gr_nodes := ns'\<rparr>) b"
    using f bucketsD(3) [OF b(1)] by (intro buckets_cong [OF b(1)]) (simp_all add: len)
  moreover have "unused_ok (r\<lparr>gr_nodes := ns'\<rparr>) b"
    using b(2) f(2) by (auto simp: unused_ok_def len)
  ultimately show ?thesis by (auto simp: ptr_ok_def)
qed

section \<open>Find\<close>

definition lookup :: "graph_rep \<Rightarrow> (nat \<Rightarrow> nat list) \<Rightarrow> u64 \<Rightarrow> nat option" where
  "lookup r b p = find (\<lambda>j. masked_fn (gr_nodes r) j = HidePtr p) (b (pm_hash p))"

definition index_of :: "nat option \<Rightarrow> int" where
  "index_of res = (case res of None \<Rightarrow> - 1 | Some j \<Rightarrow> int j)"

lemma pm_find_from_chain:
  assumes "length ns \<le> 2 ^ 31"
  shows "chain (next_fn ns) i js \<Longrightarrow> \<forall>j \<in> set js. j < length ns \<Longrightarrow>
     pm_find_from ns m i = Some (index_of (find (\<lambda>j. masked_fn ns j = m) js))"
proof (induction js arbitrary: i)
  case Nil
  then show ?case by (simp add: pm_find_from.simps index_of_def)
next
  case (Cons j js)
  then have "vec_index (int j) = j" using assms by (intro vec_index_int [of _ ns]) auto
  then show ?case
    using Cons by (subst pm_find_from.simps) (auto simp: index_of_def masked_fn_def next_fn_def)
qed

lemma pm_find_lookup:
  assumes "length (gr_nodes r) \<le> 2 ^ 31" "buckets r b"
  shows "pm_find r p = Some (index_of (lookup r b p))"
  unfolding pm_find_def lookup_def
  using bucketsD(1,3) [OF assms(2)] by (intro pm_find_from_chain assms(1)) auto

lemma lookup_Some:
  assumes "buckets r b"
  shows "lookup r b p = Some j \<longleftrightarrow> j \<in> set (b (pm_hash p)) \<and> masked_fn (gr_nodes r) j = HidePtr p"
proof
  assume "lookup r b p = Some j"
  then show "j \<in> set (b (pm_hash p)) \<and> masked_fn (gr_nodes r) j = HidePtr p"
    unfolding lookup_def by (metis (mono_tags, lifting) find_Some_iff nth_mem)
next
  assume j: "j \<in> set (b (pm_hash p)) \<and> masked_fn (gr_nodes r) j = HidePtr p"
  then obtain k where "lookup r b p = Some k"
    unfolding lookup_def by (metis (mono_tags, lifting) find_None_iff not_Some_eq)
  moreover then have "k \<in> set (b (pm_hash p)) \<and> masked_fn (gr_nodes r) k = HidePtr p"
    unfolding lookup_def by (metis (mono_tags, lifting) find_Some_iff nth_mem)
  ultimately show "lookup r b p = Some j"
    using j bucketsD(4) [OF assms] by (metis inj_onD)
qed

lemma lookup_None:
  "lookup r b p = None \<longleftrightarrow> (\<forall>j \<in> set (b (pm_hash p)). masked_fn (gr_nodes r) j \<noteq> HidePtr p)"
  by (auto simp: lookup_def find_None_iff)

section \<open>Add\<close>

lemma pm_add_buckets:
  assumes b: "buckets r b" and len: "length (gr_nodes r) \<le> 2 ^ 31" and k: "k < length (gr_nodes r)"
    and new: "\<And>h. k \<notin> set (b h)" and m: "masked_fn (gr_nodes r) k = HidePtr p"
    and absent: "lookup r b p = None"
  shows "buckets (pm_add p (int k) r) (b(pm_hash p := k # b (pm_hash p)))"
proof -
  let ?h = "pm_hash p" and ?ns = "gr_nodes (pm_add p (int k) r)"
  have len': "length ?ns = length (gr_nodes r)" by (simp add: pm_add_def)
  have m': "masked_fn ?ns j = masked_fn (gr_nodes r) j" if "j < length (gr_nodes r)" for j
    using that k len by (auto simp: pm_add_def upd_node_def vec_index_int masked_fn_def nth_list_update)
  have nx: "next_fn ?ns j = (if j = k then gr_table r ?h else next_fn (gr_nodes r) j)"
    if "j < length (gr_nodes r)" for j
    using that k len by (auto simp: pm_add_def upd_node_def vec_index_int next_fn_def nth_list_update)
  have ch: "chain (next_fn ?ns) (gr_table r h) (b h)" for h
    using bucketsD(1,3) [OF b] nx new chain_cong [of "b h" "next_fn (gr_nodes r)" "next_fn ?ns"] by metis
  have inj: "inj_on (masked_fn ?ns) (set (b h))" for h
    using bucketsD(3,4) [OF b] m' by (metis (mono_tags, lifting) inj_on_cong)
  show ?thesis
    unfolding buckets_def
  proof (intro allI)
    fix h
    show "chain (next_fn ?ns) (gr_table (pm_add p (int k) r) h) ((b(?h := k # b ?h)) h) \<and>
        distinct ((b(?h := k # b ?h)) h) \<and> set ((b(?h := k # b ?h)) h) \<subseteq> {..<length ?ns} \<and>
        inj_on (masked_fn ?ns) (set ((b(?h := k # b ?h)) h)) \<and>
        (\<forall>j \<in> set ((b(?h := k # b ?h)) h). pm_hash (UnhidePtr (masked_fn ?ns j)) = h)"
    proof (cases "h = ?h")
      case True
      have "masked_fn ?ns k \<notin> masked_fn ?ns ` set (b ?h)"
        using absent m m' k bucketsD(3) [OF b] unfolding lookup_None by force
      then show ?thesis
        using True ch [of ?h] inj [of ?h] nx [OF k] m m' k new bucketsD [OF b, where h = ?h]
        by (auto simp: len' pm_add_def [of p _ r])
    next
      case False
      then show ?thesis
        using ch inj m' bucketsD [OF b, where h = h] by (auto simp: len' pm_add_def [of p _ r])
    qed
  qed
qed

section \<open>Remove\<close>

lemma chain_append: "chain nx i (pre @ js) \<Longrightarrow> chain nx (if pre = [] then i else nx (last pre)) js"
  by (induction pre arbitrary: i) (auto split: if_splits)

definition slot_after :: "nat list \<Rightarrow> int option" where
  "slot_after pre = (if pre = [] then None else Some (int (last pre)))"

definition unlink :: "nat \<Rightarrow> nat list \<Rightarrow> nat \<Rightarrow> graph_rep \<Rightarrow> graph_rep" where
  "unlink h pre j r =
     (let r1 = pm_set_slot h (slot_after pre) (next_fn (gr_nodes r) j) r
      in r1\<lparr>gr_nodes := upd_node (int j) (\<lambda>m. m\<lparr>gn_next_hash := - 1\<rparr>) (gr_nodes r1)\<rparr>)"

lemma pm_slot_after:
  assumes "length (gr_nodes r) \<le> 2 ^ 31" "\<forall>j \<in> set pre. j < length (gr_nodes r)"
    "chain (next_fn (gr_nodes r)) (gr_table r h) (pre @ js)"
  shows "chain (next_fn (gr_nodes r)) (pm_slot r h (slot_after pre)) js"
proof (cases "pre = []")
  case True
  then show ?thesis using assms(3) by (simp add: pm_slot_def slot_after_def)
next
  case False
  then have "last pre < length (gr_nodes r)" using assms(2) by simp
  then show ?thesis
    using chain_append [OF assms(3)] False vec_index_int [OF _ assms(1), of "last pre"]
    by (simp add: pm_slot_def slot_after_def next_fn_def)
qed

lemma pm_remove_from_chain:
  assumes len: "length (gr_nodes r) \<le> 2 ^ 31"
    and "chain (next_fn (gr_nodes r)) (gr_table r h) (pre @ js)"
    and "\<forall>j \<in> set (pre @ js). j < length (gr_nodes r)"
    and "\<forall>j \<in> set pre. masked_fn (gr_nodes r) j \<noteq> m"
  shows "pm_remove_from h m (slot_after pre) r = Some
     (case find (\<lambda>j. masked_fn (gr_nodes r) j = m) js of
        None \<Rightarrow> (- 1, r)
      | Some j \<Rightarrow> (int j, unlink h (takeWhile (\<lambda>j. masked_fn (gr_nodes r) j \<noteq> m) (pre @ js)) j r))"
  using assms(2-)
proof (induction js arbitrary: pre)
  case Nil
  then have "pm_slot r h (slot_after pre) = - 1" using pm_slot_after [OF len, of pre h "[]"] by simp
  then show ?case by (simp add: pm_remove_from.simps)
next
  case (Cons j js)
  have slot: "pm_slot r h (slot_after pre) = int j"
    using pm_slot_after [OF len, of pre h "j # js"] Cons.prems by simp
  have v: "vec_index (int j) = j" "j < length (gr_nodes r)"
    using vec_index_int [OF _ len, of j] Cons.prems(2) by auto
  show ?case
  proof (cases "masked_fn (gr_nodes r) j = m")
    case True
    then have "takeWhile (\<lambda>j. masked_fn (gr_nodes r) j \<noteq> m) (pre @ j # js) = pre"
      using Cons.prems(3) by (subst takeWhile_append2) auto
    then show ?thesis
      using slot v True by (subst pm_remove_from.simps)
        (simp add: masked_fn_def unlink_def next_fn_def Let_def)
  next
    case False
    have app: "(pre @ [j]) @ js = pre @ j # js" by simp
    have "pm_remove_from h m (slot_after (pre @ [j])) r = Some
     (case find (\<lambda>j. masked_fn (gr_nodes r) j = m) js of
        None \<Rightarrow> (- 1, r)
      | Some j' \<Rightarrow> (int j', unlink h (takeWhile (\<lambda>j. masked_fn (gr_nodes r) j \<noteq> m) (pre @ j # js)) j' r))"
      using Cons.IH [of "pre @ [j]", unfolded app] Cons.prems False by auto
    moreover have "slot_after (pre @ [j]) = Some (int j)" by (simp add: slot_after_def)
    ultimately show ?thesis
      using slot v False by (subst pm_remove_from.simps) (simp add: masked_fn_def)
  qed
qed

definition set_next :: "(nat \<Rightarrow> int) \<Rightarrow> gnode list \<Rightarrow> gnode list" where
  "set_next nx ns = map (\<lambda>i. (ns ! i)\<lparr>gn_next_hash := nx i\<rparr>) [0..<length ns]"

lemma set_next_length [simp]: "length (set_next nx ns) = length ns"
  by (simp add: set_next_def)

lemma set_next_nth [simp]: "i < length ns \<Longrightarrow> set_next nx ns ! i = (ns ! i)\<lparr>gn_next_hash := nx i\<rparr>"
  by (simp add: set_next_def)

lemma set_next_upd:
  assumes "i < length ns" "length ns \<le> 2 ^ 31"
  shows "upd_node (int i) (\<lambda>n. n\<lparr>gn_next_hash := v\<rparr>) (set_next nx ns) = set_next (nx(i := v)) ns"
proof (rule nth_equalityI)
  fix k assume "k < length (upd_node (int i) (\<lambda>n. n\<lparr>gn_next_hash := v\<rparr>) (set_next nx ns))"
  then show "upd_node (int i) (\<lambda>n. n\<lparr>gn_next_hash := v\<rparr>) (set_next nx ns) ! k = set_next (nx(i := v)) ns ! k"
    using assms by (auto simp: upd_node_def vec_index_int [OF assms] nth_list_update)
qed simp

lemma set_next_self: "set_next (next_fn ns) ns = ns"
  by (intro nth_equalityI) (auto simp: next_fn_def)

text \<open>Unlinking changes only the table and the \<open>next_hash\<close> fields.\<close>

lemma unlink_eq:
  assumes len: "length (gr_nodes r) \<le> 2 ^ 31" and j: "j < length (gr_nodes r)"
    and pre: "\<forall>j \<in> set pre. j < length (gr_nodes r)"
  shows "unlink h pre j r =
    r\<lparr>gr_table := (if pre = [] then (gr_table r)(h := next_fn (gr_nodes r) j) else gr_table r),
      gr_nodes := set_next
        ((if pre = [] then next_fn (gr_nodes r)
          else (next_fn (gr_nodes r))(last pre := next_fn (gr_nodes r) j))(j := - 1)) (gr_nodes r)\<rparr>"
proof (cases "pre = []")
  case True
  then show ?thesis
    using set_next_upd [OF j len, of "- 1" "next_fn (gr_nodes r)"]
    by (simp add: unlink_def slot_after_def pm_set_slot_def set_next_self Let_def)
next
  case False
  then have "last pre < length (gr_nodes r)" using pre by simp
  then show ?thesis
    using False set_next_upd [OF j len, of "- 1" "(next_fn (gr_nodes r))(last pre := next_fn (gr_nodes r) j)"]
      set_next_upd [OF _ len, of "last pre" "next_fn (gr_nodes r) j" "next_fn (gr_nodes r)"]
    by (simp add: unlink_def slot_after_def pm_set_slot_def set_next_self Let_def)
qed

lemma chain_unlinked:
  assumes "chain nx i (pre @ j # ys)" "distinct (pre @ j # ys)"
  shows "chain ((if pre = [] then nx else nx(last pre := nx j))(j := v)) (if pre = [] then nx j else i) (pre @ ys)"
proof (cases pre rule: rev_cases)
  case Nil
  then have "chain nx (nx j) ys" using assms by simp
  then show ?thesis using Nil assms chain_cong [of ys nx "nx(j := v)"] by auto
next
  case (snoc xs k)
  let ?nx = "nx(k := nx j)"
  have "chain ?nx i (xs @ k # ys)" using chain_unlink [of nx i xs k j ys] assms snoc by simp
  moreover have "\<forall>a \<in> set (xs @ k # ys). ?nx a = (?nx(j := v)) a" using assms(2) snoc by auto
  ultimately have "chain (?nx(j := v)) i (xs @ k # ys)" using chain_cong by blast
  then show ?thesis using snoc by simp
qed

lemma find_split:
  assumes "find P xs = Some j"
  shows "xs = takeWhile (\<lambda>x. \<not> P x) xs @ j # drop (Suc (length (takeWhile (\<lambda>x. \<not> P x) xs))) xs \<and> P j"
  using assms by (induction xs) (auto split: if_splits)

lemma pm_remove_buckets:
  assumes b: "buckets r b" and len: "length (gr_nodes r) \<le> 2 ^ 31" and l: "lookup r b p = Some j"
  shows "\<exists>r' nx. pm_remove p r = Some (int j, r') \<and> gr_nodes r' = set_next nx (gr_nodes r) \<and>
    gr_free r' = gr_free r \<and> buckets r' (b(pm_hash p := remove1 j (b (pm_hash p))))"
proof -
  let ?ns = "gr_nodes r" and ?h = "pm_hash p" and ?P = "\<lambda>j. masked_fn (gr_nodes r) j = HidePtr p"
  define pre where "pre = takeWhile (\<lambda>j. \<not> ?P j) (b ?h)"
  define ys where "ys = drop (Suc (length pre)) (b ?h)"
  have bh: "b ?h = pre @ j # ys"
    using find_split [of ?P "b ?h" j] l unfolding lookup_def pre_def ys_def by blast
  note bs = bucketsD [OF b]
  have inr: "j < length ?ns" "\<forall>k \<in> set pre. k < length ?ns"
    using bs(3) [of _ ?h] bh by auto
  let ?nx = "(if pre = [] then next_fn ?ns else (next_fn ?ns)(last pre := next_fn ?ns j))(j := - 1)"
  let ?r = "unlink ?h pre j r"
  have rem: "pm_remove p r = Some (int j, ?r)"
    using pm_remove_from_chain [OF len, of ?h "[]" "b ?h" "HidePtr p"] bs(1) [of ?h] bs(3) [of _ ?h] l
    by (simp add: pm_remove_def slot_after_def lookup_def pre_def)
  note eq = unlink_eq [OF len inr, of ?h]
  have ns: "gr_nodes ?r = set_next ?nx ?ns" and tab: "gr_table ?r = (if pre = [] then (gr_table r)(?h := next_fn ?ns j) else gr_table r)"
    by (simp_all add: eq)
  have nx': "next_fn (gr_nodes ?r) k = ?nx k" "masked_fn (gr_nodes ?r) k = masked_fn ?ns k" if "k < length ?ns" for k
    using that unfolding ns by (simp_all add: next_fn_def masked_fn_def)
  have new: "remove1 j (b ?h) = pre @ ys" using bs(2) [of ?h] bh by (simp add: remove1_append)
  let ?b = "b(?h := pre @ ys)"
  have sub: "set (?b h) \<subseteq> set (b h)" "distinct (?b h)" for h using bs(2) [of h] bh by auto
  have inb: "k \<in> set (?b h) \<Longrightarrow> k < length ?ns" for h k using sub(1) bs(3) by blast
  have "chain ?nx (gr_table ?r h) (?b h)" for h
  proof (cases "h = ?h")
    case True
    then show ?thesis
      using chain_unlinked [of "next_fn ?ns" "gr_table r ?h" pre j ys "- 1"] bs(1,2) [of ?h] bh tab
      by (cases "pre = []") simp_all
  next
    case False
    then have "set (b h) \<inter> set (b ?h) = {}" using bs(5) [of _ h] bs(5) [of _ ?h] by auto
    then have "\<forall>k \<in> set (b h). k \<noteq> j \<and> (pre \<noteq> [] \<longrightarrow> k \<noteq> last pre)"
      using bh last_in_set [of pre] by auto
    then have "\<forall>k \<in> set (b h). next_fn ?ns k = ?nx k" by simp
    then have "chain (next_fn ?ns) (gr_table r h) (b h) \<longleftrightarrow> chain ?nx (gr_table r h) (b h)"
      by (rule chain_cong)
    moreover have "gr_table ?r h = gr_table r h" "?b h = b h" using False by (simp_all add: tab)
    ultimately show ?thesis using bs(1) [of h] by metis
  qed
  then have "chain (next_fn (gr_nodes ?r)) (gr_table ?r h) (?b h)" for h
    using chain_cong [of "?b h" ?nx "next_fn (gr_nodes ?r)" "gr_table ?r h"] nx'(1) inb by metis
  moreover have "inj_on (masked_fn (gr_nodes ?r)) (set (?b h))" for h
    using inj_on_subset [OF bs(4) sub(1)]
      inj_on_cong [of "set (?b h)" "masked_fn (gr_nodes ?r)" "masked_fn ?ns"] nx'(2) inb by metis
  moreover have "pm_hash (UnhidePtr (masked_fn (gr_nodes ?r) k)) = h" if "k \<in> set (?b h)" for h k
    using bs(5) [of k h] subsetD [OF sub(1) that] nx'(2) [OF inb [OF that]] by simp
  moreover have "set (?b h) \<subseteq> {..<length (gr_nodes ?r)}" for h
    using inb unfolding ns set_next_length by (meson lessThan_iff subsetI)
  ultimately have "buckets ?r ?b"
    using sub(2) unfolding buckets_def by blast
  then show ?thesis using rem ns new eq by fastforce
qed

section \<open>Identifiers\<close>

lemma NodeVersion_MakeId [simp]: "NodeVersion (MakeId i v) = v"
  unfolding NodeVersion_def MakeId_def by (rule bit_eqI) (auto simp: bit_simps)

lemma ucast_MakeId: "ucast (MakeId i v) = (word_of_int i :: u32)"
  unfolding MakeId_def by (rule bit_eqI) (auto simp: bit_simps)

lemma NodeIndex_MakeId:
  assumes "0 \<le> i" "i < 2 ^ 31"
  shows "NodeIndex (MakeId i v) = i"
  unfolding NodeIndex_def ucast_MakeId
  using assms by (simp add: sint_uint unsigned_of_int take_bit_int_eq_self signed_take_bit_int_eq_self)

section \<open>Frames\<close>

definition gn_order :: "gnode \<Rightarrow> (node_set \<times> node_set) \<times> int \<times> bool" where
  "gn_order n = (gn_adj n, gn_rank n, gn_visited n)"

lemma order_ok_cong:
  assumes "map gn_order ns' = map gn_order ns"
  shows "order_ok ns' \<longleftrightarrow> order_ok ns" and "edges ns' = edges ns"
proof -
  have "map (fst \<circ> gn_order) ns' = map (fst \<circ> gn_order) ns"
    by (metis assms map_map)
  then have adj: "map gn_adj ns' = map gn_adj ns" by (simp add: gn_order_def comp_def)
  have len: "length ns' = length ns" using arg_cong [OF assms, of length] by simp
  have nth: "rank_fn ns' i = rank_fn ns i" "gn_visited (ns' ! i) = gn_visited (ns ! i)" if "i < length ns" for i
    using arg_cong [OF assms, of "\<lambda>xs. xs ! i"] that len by (simp_all add: gn_order_def rank_fn_def)
  show e: "edges ns' = edges ns" by (rule adj_ok_cong(2) [OF adj])
  have rk: "bij_betw (rank_fn ns') {..<length ns} R \<longleftrightarrow> bij_betw (rank_fn ns) {..<length ns} R" for R
    by (rule bij_betw_cong) (simp add: nth)
  have "rank_fn ns' i < rank_fn ns' j \<longleftrightarrow> rank_fn ns i < rank_fn ns j" if "adj_ok ns" "(i, j) \<in> edges ns" for i j
    using edges_range [OF that] nth by simp
  then show "order_ok ns' \<longleftrightarrow> order_ok ns"
    unfolding order_ok_def ranks_ok_def none_visited_def e len rk adj_ok_cong(1) [OF adj]
    using nth(2) len by (auto simp: all_set_conv_all_nth)
qed

lemma order_ok_append:
  assumes ok: "order_ok ns" and len: "length ns < 2 ^ 31"
    and n: "gn_rank n = int (length ns)" "gn_in n = ns_init" "gn_out n = ns_init" "\<not> gn_visited n"
  shows "order_ok (ns @ [n])" and "edges (ns @ [n]) = edges ns"
proof -
  note o = order_okD [OF ok]
  let ?N = "length ns"
  have init: "ns_inv ns_init" "ns_set ns_init = {}" using ns_init_inv by auto
  show e: "edges (ns @ [n]) = edges ns"
    using init n by (auto simp: edges_def nth_append less_Suc_eq)
  have adj: "adj_ok (ns @ [n])"
    using o(1) len init n adj_okD [OF o(1)] adj_ok_sym [OF o(1)]
    by (auto simp: adj_ok_def nth_append less_Suc_eq) force+
  have "bij_betw (rank_fn (ns @ [n])) {..<?N} {0..<int ?N}"
    using o(2) unfolding ranks_ok_def
    by (subst bij_betw_cong [of _ _ "rank_fn ns"]) (auto simp: rank_fn_def nth_append)
  moreover have "bij_betw (rank_fn (ns @ [n])) {?N} {int ?N}"
    using n by (simp add: rank_fn_def bij_betw_def)
  ultimately have "bij_betw (rank_fn (ns @ [n])) ({..<?N} \<union> {?N}) ({0..<int ?N} \<union> {int ?N})"
    by (rule bij_betw_combine) auto
  moreover have "{..<?N} \<union> {?N} = {..<Suc ?N}" "{0..<int ?N} \<union> {int ?N} = {0..<1 + int ?N}" by auto
  ultimately have bij: "bij_betw (rank_fn (ns @ [n])) {..<Suc ?N} {0..<1 + int ?N}" by simp
  have "rank_fn (ns @ [n]) i < rank_fn (ns @ [n]) j" if "(i, j) \<in> edges ns" for i j
    using ranks_ok_edge [OF o(2) that] edges_range [OF o(1) that] by (simp add: rank_fn_def nth_append)
  then show "order_ok (ns @ [n])"
    using adj bij o(3) n e by (auto simp: order_ok_def ranks_ok_def none_visited_def)
qed

section \<open>GetId\<close>

lemma pm_add_frame:
  assumes "k < length (gr_nodes r)" "length (gr_nodes r) \<le> 2 ^ 31"
  shows "map gn_order (gr_nodes (pm_add p (int k) r)) = map gn_order (gr_nodes r)"
    "gr_free (pm_add p (int k) r) = gr_free r"
    "length (gr_nodes (pm_add p (int k) r)) = length (gr_nodes r)"
    "j < length (gr_nodes r) \<Longrightarrow> masked_fn (gr_nodes (pm_add p (int k) r)) j = masked_fn (gr_nodes r) j"
    "j < length (gr_nodes r) \<Longrightarrow> gn_version (gr_nodes (pm_add p (int k) r) ! j) = gn_version (gr_nodes r ! j)"
  using assms
  by (auto intro!: nth_equalityI
      simp: pm_add_def upd_node_def vec_index_int nth_list_update gn_order_def gn_adj_def masked_fn_def)

lemma lookup_other:
  assumes b: "buckets r b" "buckets r' b'" and pq: "p \<noteq> q"
    and same: "\<And>j. j \<noteq> k \<Longrightarrow> j \<in> set (b (pm_hash q)) \<longleftrightarrow> j \<in> set (b' (pm_hash q))"
    and m: "\<And>j. j \<noteq> k \<Longrightarrow> j \<in> set (b (pm_hash q)) \<Longrightarrow> masked_fn (gr_nodes r') j = masked_fn (gr_nodes r) j"
    and k: "k \<in> set (b (pm_hash q)) \<Longrightarrow> masked_fn (gr_nodes r) k = HidePtr p"
      "k \<in> set (b' (pm_hash q)) \<Longrightarrow> masked_fn (gr_nodes r') k = HidePtr p"
  shows "lookup r' b' q = lookup r b q"
proof -
  have "lookup r' b' q = Some j \<longleftrightarrow> lookup r b q = Some j" for j
    using same [of j] m [of j] k pq unfolding lookup_Some [OF b(1)] lookup_Some [OF b(2)]
    by (metis HidePtr_inj)
  then show ?thesis by (metis option.exhaust)
qed

text \<open>Entering an unused node \<open>k\<close>, already labelled with \<open>p\<close>, into the pointer map.\<close>

definition addable :: "graph_rep \<Rightarrow> (nat \<Rightarrow> nat list) \<Rightarrow> nat \<Rightarrow> u64 \<Rightarrow> bool" where
  "addable r b k p \<longleftrightarrow> buckets r b \<and> k < length (gr_nodes r) \<and> (\<forall>h. k \<notin> set (b h)) \<and>
     masked_fn (gr_nodes r) k = HidePtr p \<and> lookup r b p = None \<and>
     distinct (gr_free r) \<and> set (gr_free r) \<subseteq> {0..<int (length (gr_nodes r))} \<and> int k \<notin> set (gr_free r) \<and>
     (\<forall>h. \<forall>j \<in> set (b h). int j \<notin> set (gr_free r)) \<and>
     (\<forall>j < length (gr_nodes r). j \<noteq> k \<longrightarrow> (\<forall>h. j \<notin> set (b h)) \<longrightarrow> masked_fn (gr_nodes r) j = HidePtr 0)"

lemma pm_add_inv:
  assumes ok: "order_ok (gr_nodes r)" and add: "addable r b k p"
  shows "gc_inv (pm_add p (int k) r)" "pm_find (pm_add p (int k) r) p = Some (int k)"
    "q \<noteq> p \<Longrightarrow> pm_find (pm_add p (int k) r) q = Some (index_of (lookup r b q))"
proof -
  let ?r = "pm_add p (int k) r" and ?b = "b(pm_hash p := k # b (pm_hash p))"
  have b: "buckets r b" and k: "k < length (gr_nodes r)" and new: "\<And>h. k \<notin> set (b h)"
    and m: "masked_fn (gr_nodes r) k = HidePtr p" and absent: "lookup r b p = None"
    and free: "distinct (gr_free r)" "set (gr_free r) \<subseteq> {0..<int (length (gr_nodes r))}" "int k \<notin> set (gr_free r)"
      "\<And>h j. j \<in> set (b h) \<Longrightarrow> int j \<notin> set (gr_free r)"
    and rest: "\<And>j. j < length (gr_nodes r) \<Longrightarrow> j \<noteq> k \<Longrightarrow> \<forall>h. j \<notin> set (b h) \<Longrightarrow> masked_fn (gr_nodes r) j = HidePtr 0"
    using add unfolding addable_def by blast+
  note len = order_okD(4) [OF ok]
  note fr = pm_add_frame [OF k len, where p = p]
  have b': "buckets ?r ?b" by (rule pm_add_buckets [OF b len k new m absent])
  have "unused_ok ?r ?b"
    unfolding unused_ok_def fr(2,3)
  proof (intro conjI allI impI ballI)
    fix j assume "j < length (gr_nodes r)" "j \<notin> (\<Union>h. set (?b h))"
    then show "masked_fn (gr_nodes ?r) j = HidePtr 0"
      using rest [of j] fr(4) [of j] by (auto split: if_splits)
  next
    fix h j assume "j \<in> set (?b h)"
    then show "int j \<notin> set (gr_free r)" using free(3,4) by (auto split: if_splits)
  qed (use free in auto)
  then show "gc_inv ?r"
    using b' ok order_ok_cong(1) [OF fr(1)] by (auto simp: gc_inv_def ptr_ok_def)
  have "lookup ?r ?b p = Some k" using fr(4) [OF k] m by (simp add: lookup_Some [OF b'])
  then show "pm_find ?r p = Some (int k)"
    using pm_find_lookup [OF _ b'] len by (simp add: index_of_def fr(3))
  assume "q \<noteq> p"
  then have "lookup ?r ?b q = lookup r b q"
    using new fr(4) bucketsD(3) [OF b] m k by (intro lookup_other [OF b b', of p q k]) auto
  then show "pm_find ?r q = Some (index_of (lookup r b q))"
    using pm_find_lookup [OF _ b'] len by (simp add: fr(3))
qed

definition id_of :: "graph_rep \<Rightarrow> u64 \<Rightarrow> graph_id \<Rightarrow> bool" where
  "id_of r p gid \<longleftrightarrow> pm_find r p = Some (NodeIndex gid) \<and> gc_ptr r gid = Inr p \<and> gc_has_node r gid = Inr True"

lemma id_of_MakeId:
  assumes "k < length (gr_nodes r)" "length (gr_nodes r) \<le> 2 ^ 31" "pm_find r p = Some (int k)"
    "masked_fn (gr_nodes r) k = HidePtr p" "gn_version (gr_nodes r ! k) = v"
  shows "id_of r p (MakeId (int k) v)"
proof -
  have i: "NodeIndex (MakeId (int k) v) = int k" using assms by (intro NodeIndex_MakeId) auto
  then show ?thesis
    using FindNode_eq [OF assms(2), of "MakeId (int k) v"] vec_index_int [OF assms(1,2)] assms
    by (simp add: id_of_def gc_ptr_def gc_has_node_def masked_fn_def)
qed

lemma lookup_cong:
  assumes "\<And>j. j \<in> set (b (pm_hash q)) \<Longrightarrow> masked_fn (gr_nodes r') j = masked_fn (gr_nodes r) j"
  shows "lookup r' b q = lookup r b q"
  unfolding lookup_def by (rule find_cong) (auto simp: assms)

definition id_added :: "graph_rep \<Rightarrow> u64 \<Rightarrow> graph_id \<Rightarrow> graph_rep \<Rightarrow> bool" where
  "id_added r p gid r' \<longleftrightarrow> gc_inv r' \<and> id_of r' p gid \<and> edges (gr_nodes r') = edges (gr_nodes r) \<and>
     (\<forall>q. q \<noteq> p \<longrightarrow> pm_find r' q = pm_find r q) \<and> (pm_find r p \<noteq> Some (- 1) \<longrightarrow> r' = r)"

lemma get_id_fresh:
  assumes ok: "order_ok (gr_nodes r)" and b: "buckets r b" "unused_ok r b"
    and len: "length (gr_nodes r) < 2 ^ 31" and none: "lookup r b p = None" and free: "gr_free r = []"
  shows "\<exists>gid r'. gc_get_id junk p r = Some (gid, r') \<and> id_added r p gid r'"
proof -
  let ?ns = "gr_nodes r" and ?N = "length (gr_nodes r)"
  note find = pm_find_lookup [OF order_okD(4) [OF ok] b(1)]
  define n where "n = junk\<lparr>gn_version := 1, gn_visited := False, gn_rank := int ?N, gn_masked_ptr := HidePtr p,
                  gn_in := ns_init, gn_out := ns_init, gn_nstack := 0, gn_priority := 0\<rparr>"
  let ?r1 = "r\<lparr>gr_nodes := ?ns @ [n]\<rparr>"
  let ?r = "pm_add p (int ?N) ?r1"
  have ap: "order_ok (?ns @ [n])" "edges (?ns @ [n]) = edges ?ns"
    using order_ok_append [OF ok len, of n] by (simp_all add: n_def)
  have b1: "buckets ?r1 b"
    using bucketsD(3) [OF b(1)] by (intro buckets_cong [OF b(1)]) (auto simp: next_fn_def masked_fn_def nth_append)
  have lk: "lookup ?r1 b q = lookup r b q" for q
    using bucketsD(3) [OF b(1)] by (intro lookup_cong) (simp add: masked_fn_def nth_append)
  have new: "?N \<notin> set (b h)" for h using bucketsD(3) [OF b(1), of ?N h] by auto
  have m: "masked_fn (gr_nodes ?r1) ?N = HidePtr p" by (simp add: masked_fn_def n_def)
  have old: "masked_fn (gr_nodes ?r1) j = masked_fn ?ns j" if "j < ?N" for j
    using that by (simp add: masked_fn_def nth_append)
  have add: "addable ?r1 b ?N p"
    unfolding addable_def using b1 new m lk none free b(2) old by (simp add: unused_ok_def less_Suc_eq)
  have inv: "gc_inv ?r" "pm_find ?r p = Some (int ?N)" "\<And>q. q \<noteq> p \<Longrightarrow> pm_find ?r q = pm_find r q"
    using pm_add_inv [OF _ add] ap(1) by (simp_all add: lk find)
  note fr = pm_add_frame [where k = ?N and r = ?r1 and p = p]
  have "id_of ?r p (MakeId (int ?N) 1)"
    using fr(3) fr(4,5) [of ?N] inv(2) len m by (intro id_of_MakeId) (auto simp: n_def)
  moreover have "edges (gr_nodes ?r) = edges ?ns"
    using order_ok_cong(2) [OF fr(1)] ap(2) len by simp
  moreover have "gc_get_id junk p r = Some (MakeId (int ?N) 1, ?r)"
    using none free find [of p] by (simp add: gc_get_id_def index_of_def Let_def n_def)
  ultimately show ?thesis
    using inv none find [of p] by (auto simp: id_added_def index_of_def)
qed

lemma get_id_reuse:
  assumes ok: "order_ok (gr_nodes r)" and b: "buckets r b" "unused_ok r b"
    and none: "lookup r b p = None" and free: "gr_free r \<noteq> []"
  shows "\<exists>gid r'. gc_get_id junk p r = Some (gid, r') \<and> id_added r p gid r'"
proof -
  let ?ns = "gr_nodes r" and ?N = "length (gr_nodes r)"
  note len = order_okD(4) [OF ok]
  note find = pm_find_lookup [OF len b(1)]
  obtain fs k where fs: "gr_free r = fs @ [int k]" and k: "k < ?N"
    using free b(2) unfolding unused_ok_def
    by (metis append_butlast_last_id atLeastLessThan_iff last_in_set of_nat_less_iff subsetD zero_le_imp_eq_int)
  have v: "vec_index (int k) = k" by (rule vec_index_int [OF k len])
  define ns1 where "ns1 = upd_node (int k) (\<lambda>n. n\<lparr>gn_masked_ptr := HidePtr p, gn_nstack := 0, gn_priority := 0\<rparr>) ?ns"
  let ?r1 = "r\<lparr>gr_free := fs, gr_nodes := ns1\<rparr>"
  let ?r = "pm_add p (int k) ?r1"
  have l1: "length ns1 = ?N" by (simp add: ns1_def)
  have nth: "ns1 ! j = (if j = k then (?ns ! k)\<lparr>gn_masked_ptr := HidePtr p, gn_nstack := 0, gn_priority := 0\<rparr> else ?ns ! j)"
    if "j < ?N" for j using that k by (simp add: ns1_def upd_node_def v nth_list_update)
  have ord: "map gn_order ns1 = map gn_order ?ns"
    by (rule nth_equalityI) (auto simp: l1 nth gn_order_def gn_adj_def)
  have new: "k \<notin> set (b h)" for h using b(2) fs unfolding unused_ok_def by auto
  then have in_b: "j \<in> set (b h) \<Longrightarrow> j < ?N \<and> j \<noteq> k" for h j using bucketsD(3) [OF b(1)] by metis
  have b1: "buckets ?r1 b"
    using in_b by (intro buckets_cong [OF b(1)]) (auto simp: next_fn_def masked_fn_def nth l1)
  have lk: "lookup ?r1 b q = lookup r b q" for q
    using in_b by (intro lookup_cong) (simp add: masked_fn_def nth)
  have m: "masked_fn ns1 k = HidePtr p" using k by (simp add: masked_fn_def nth)
  have old: "masked_fn ns1 j = masked_fn ?ns j" if "j < ?N" "j \<noteq> k" for j
    using that by (simp add: masked_fn_def nth)
  have add: "addable ?r1 b k p"
    unfolding addable_def using b1 new m lk none b(2) old fs k by (simp add: unused_ok_def l1)
  have inv: "gc_inv ?r" "pm_find ?r p = Some (int k)" "\<And>q. q \<noteq> p \<Longrightarrow> pm_find ?r q = pm_find r q"
    using pm_add_inv [OF _ add] order_ok_cong(1) [OF ord] ok by (simp_all add: lk find)
  note fr = pm_add_frame [where k = k and r = ?r1 and p = p]
  have "id_of ?r p (MakeId (int k) (gn_version (?ns ! k)))"
    using fr(3) fr(4,5) [of k] inv(2) len m k by (intro id_of_MakeId) (auto simp: l1 nth)
  moreover have "edges (gr_nodes ?r) = edges ?ns"
    using order_ok_cong(2) [OF fr(1)] order_ok_cong(2) [OF ord] len k l1 by simp
  moreover have "gc_get_id junk p r = Some (MakeId (int k) (gn_version (?ns ! k)), ?r)"
    using none fs find [of p] by (simp add: gc_get_id_def index_of_def Let_def v ns1_def)
  ultimately show ?thesis
    using inv none find [of p] by (auto simp: id_added_def index_of_def)
qed

lemma gc_get_id_correct:
  assumes inv: "gc_inv r" and len: "length (gr_nodes r) < 2 ^ 31"
  shows "\<exists>gid r'. gc_get_id junk p r = Some (gid, r') \<and> id_added r p gid r'"
proof -
  obtain b where b: "buckets r b" "unused_ok r b" and ok: "order_ok (gr_nodes r)"
    using inv by (auto simp: gc_inv_def ptr_ok_def)
  note l31 = order_okD(4) [OF ok]
  note find = pm_find_lookup [OF l31 b(1)]
  show ?thesis
  proof (cases "lookup r b p")
    case None
    then show ?thesis using get_id_fresh [OF ok b len] get_id_reuse [OF ok b] by blast
  next
    case (Some j)
    then have j: "j < length (gr_nodes r)" "masked_fn (gr_nodes r) j = HidePtr p"
      using bucketsD(3) [OF b(1)] by (auto simp: lookup_Some [OF b(1)])
    let ?gid = "MakeId (int j) (gn_version (gr_nodes r ! j))"
    have "gc_get_id junk p r = Some (?gid, r)"
      using Some find [of p] vec_index_int [OF j(1) l31] by (simp add: gc_get_id_def index_of_def)
    moreover have "id_of r p ?gid"
      using id_of_MakeId [OF j(1) l31] j find [of p] Some by (simp add: index_of_def)
    ultimately show ?thesis using inv unfolding id_added_def by blast
  qed
qed

section \<open>RemoveNode\<close>

definition set_in :: "(nat \<Rightarrow> node_set) \<Rightarrow> gnode list \<Rightarrow> gnode list" where
  "set_in f ns = map (\<lambda>i. (ns ! i)\<lparr>gn_in := f i\<rparr>) [0..<length ns]"

definition set_out :: "(nat \<Rightarrow> node_set) \<Rightarrow> gnode list \<Rightarrow> gnode list" where
  "set_out f ns = map (\<lambda>i. (ns ! i)\<lparr>gn_out := f i\<rparr>) [0..<length ns]"

lemma set_in_length [simp]: "length (set_in f ns) = length ns" "length (set_out f ns) = length ns"
  by (simp_all add: set_in_def set_out_def)

lemma set_in_nth [simp]:
  "i < length ns \<Longrightarrow> set_in f ns ! i = (ns ! i)\<lparr>gn_in := f i\<rparr>"
  "i < length ns \<Longrightarrow> set_out f ns ! i = (ns ! i)\<lparr>gn_out := f i\<rparr>"
  by (simp_all add: set_in_def set_out_def)

lemma set_in_upd:
  assumes "i < length ns" "length ns \<le> 2 ^ 31"
  shows "upd_node (int i) (\<lambda>n. n\<lparr>gn_in := s\<rparr>) (set_in f ns) = set_in (f(i := s)) ns"
    "upd_node (int i) (\<lambda>n. n\<lparr>gn_out := s\<rparr>) (set_out f ns) = set_out (f(i := s)) ns"
  using vec_index_int [OF assms] assms
  by (auto intro!: nth_equalityI simp: upd_node_def nth_list_update)

text \<open>\<open>f'\<close> is \<open>f\<close> with \<open>v\<close> erased from the sets of the nodes listed in \<open>ys\<close>.\<close>

definition erased :: "int \<Rightarrow> int list \<Rightarrow> nat \<Rightarrow> (nat \<Rightarrow> node_set) \<Rightarrow> (nat \<Rightarrow> node_set) \<Rightarrow> bool" where
  "erased v ys N f f' \<longleftrightarrow>
     (\<forall>k < N. ns_inv (f' k) \<and> ns_set (f' k) = ns_set (f k) - (if int k \<in> set ys then {v} else {}))"

lemma erased_step:
  assumes "erased v ys N (f(i := s)) f'" "ns_inv s" "ns_set s = ns_set (f i) - {v}" "i < N"
  shows "erased v (int i # ys) N f f'"
  using assms unfolding erased_def by auto

lemma erase_in_all_erased:
  assumes len: "length ns \<le> 2 ^ 31" and v: "v \<ge> 0"
  shows "\<forall>y \<in> set ys. 0 \<le> y \<and> y < int (length ns) \<Longrightarrow> \<forall>k < length ns. ns_inv (f k) \<Longrightarrow>
    \<exists>f'. erase_in_all v ys (set_in f ns) = Some (set_in f' ns) \<and> erased v ys (length ns) f f'"
proof (induction ys arbitrary: f)
  case Nil
  then show ?case by (auto simp: erased_def)
next
  case (Cons y ys)
  obtain i where i: "y = int i" "i < length ns" using Cons.prems(1) by (metis list.set_intros(1) of_nat_less_iff zero_le_imp_eq_int)
  obtain s where s: "ns_erase (f i) v = Some s" "ns_inv s" "ns_set s = ns_set (f i) - {v}"
    using ns_erase_correct [of "f i" v] Cons.prems(2) i v by auto
  have "\<exists>f'. erase_in_all v ys (set_in (f(i := s)) ns) = Some (set_in f' ns) \<and>
      erased v ys (length ns) (f(i := s)) f'"
    by (rule Cons.IH) (use Cons.prems s(2) in auto)
  then obtain f' where f': "erase_in_all v ys (set_in (f(i := s)) ns) = Some (set_in f' ns)"
      "erased v ys (length ns) (f(i := s)) f'" by blast
  then have "erase_in_all v (y # ys) (set_in f ns) = Some (set_in f' ns)"
    using i s(1) vec_index_int [OF i(2) len] set_in_upd(1) [OF i(2) len] by simp
  then show ?case using erased_step [OF f'(2) s(2,3) i(2)] i(1) by blast
qed

lemma erase_out_all_erased:
  assumes len: "length ns \<le> 2 ^ 31" and v: "v \<ge> 0"
  shows "\<forall>y \<in> set ys. 0 \<le> y \<and> y < int (length ns) \<Longrightarrow> \<forall>k < length ns. ns_inv (f k) \<Longrightarrow>
    \<exists>f'. erase_out_all v ys (set_out f ns) = Some (set_out f' ns) \<and> erased v ys (length ns) f f'"
proof (induction ys arbitrary: f)
  case Nil
  then show ?case by (auto simp: erased_def)
next
  case (Cons y ys)
  obtain i where i: "y = int i" "i < length ns" using Cons.prems(1) by (metis list.set_intros(1) of_nat_less_iff zero_le_imp_eq_int)
  obtain s where s: "ns_erase (f i) v = Some s" "ns_inv s" "ns_set s = ns_set (f i) - {v}"
    using ns_erase_correct [of "f i" v] Cons.prems(2) i v by auto
  have "\<exists>f'. erase_out_all v ys (set_out (f(i := s)) ns) = Some (set_out f' ns) \<and>
      erased v ys (length ns) (f(i := s)) f'"
    by (rule Cons.IH) (use Cons.prems s(2) in auto)
  then obtain f' where f': "erase_out_all v ys (set_out (f(i := s)) ns) = Some (set_out f' ns)"
      "erased v ys (length ns) (f(i := s)) f'" by blast
  then have "erase_out_all v (y # ys) (set_out f ns) = Some (set_out f' ns)"
    using i s(1) vec_index_int [OF i(2) len] set_in_upd(2) [OF i(2) len] by simp
  then show ?case using erased_step [OF f'(2) s(2,3) i(2)] i(1) by blast
qed

lemma set_in_self: "set_in (\<lambda>i. gn_in (ns ! i)) ns = ns" "set_out (\<lambda>i. gn_out (ns ! i)) ns = ns"
  by (auto intro!: nth_equalityI)

text \<open>The adjacency after both loops and the two \<open>clear\<close> calls.\<close>

lemma isolate_order_ok:
  assumes ok: "order_ok ns" and j: "j < length ns" and len: "length ns' = length ns"
    and out: "\<And>k. k < length ns \<Longrightarrow> ns_inv (gn_out (ns' ! k)) \<and>
       ns_set (gn_out (ns' ! k)) = (if k = j then {} else ns_set (gn_out (ns ! k)) - {int j})"
    and "in": "\<And>k. k < length ns \<Longrightarrow> ns_inv (gn_in (ns' ! k)) \<and>
       ns_set (gn_in (ns' ! k)) = (if k = j then {} else ns_set (gn_in (ns ! k)) - {int j})"
    and rest: "\<And>k. k < length ns \<Longrightarrow> gn_rank (ns' ! k) = gn_rank (ns ! k) \<and> gn_visited (ns' ! k) = gn_visited (ns ! k)"
  shows "order_ok ns'" "edges ns' = {(a, c) \<in> edges ns. a \<noteq> j \<and> c \<noteq> j}"
proof -
  note o = order_okD [OF ok]
  show e: "edges ns' = {(a, c) \<in> edges ns. a \<noteq> j \<and> c \<noteq> j}"
    using out j by (auto simp: edges_def len split: if_splits)
  have "ns_set (gn_out (ns' ! k)) \<subseteq> {0..<int (length ns)}" "ns_set (gn_in (ns' ! k)) \<subseteq> {0..<int (length ns)}"
    if "k < length ns" for k
    using out [OF that] "in" [OF that] adj_okD(3,4) [OF o(1) that] by (auto split: if_splits)
  moreover have "int c \<in> ns_set (gn_out (ns' ! a)) \<longleftrightarrow> int a \<in> ns_set (gn_in (ns' ! c))"
    if "a < length ns" "c < length ns" for a c
    using out [OF that(1)] "in" [OF that(2)] adj_ok_sym [OF o(1) that] by auto
  ultimately have "adj_ok ns'" using o(4) out "in" by (simp add: adj_ok_def len)
  moreover have "bij_betw (rank_fn ns') {..<length ns} {0..<int (length ns)}"
    using o(2) rest unfolding ranks_ok_def
    by (subst bij_betw_cong [of _ _ "rank_fn ns"]) (auto simp: rank_fn_def)
  moreover have "rank_fn ns' a < rank_fn ns' c" if "(a, c) \<in> edges ns'" for a c
    using that ranks_ok_edge [OF o(2), of a c] edges_range [OF o(1), of a c] rest
    by (auto simp: e rank_fn_def)
  moreover have "none_visited ns'"
    using o(3) rest by (auto simp: none_visited_def all_set_conv_all_nth len)
  ultimately show "order_ok ns'" by (auto simp: order_ok_def ranks_ok_def len)
qed

lemma erase_neighbours:
  assumes ok: "order_ok ns" and j: "j < length ns"
  shows "\<exists>f g. erase_in_all (int j) (ns_elements (gn_out (ns ! j))) ns = Some (set_in f ns) \<and>
    erase_out_all (int j) (ns_elements (gn_in (set_in f ns ! j))) (set_in f ns) = Some (set_out g (set_in f ns)) \<and>
    (\<forall>k < length ns. k \<noteq> j \<longrightarrow> ns_inv (f k) \<and> ns_set (f k) = ns_set (gn_in (ns ! k)) - {int j} \<and>
       ns_inv (g k) \<and> ns_set (g k) = ns_set (gn_out (ns ! k)) - {int j})"
proof -
  note o = order_okD [OF ok]
  note a = adj_okD [OF o(1)] and sym = adj_ok_sym [OF o(1)]
  let ?ys = "ns_elements (gn_out (ns ! j))"
  obtain f where f: "erase_in_all (int j) ?ys ns = Some (set_in f ns)"
      "erased (int j) ?ys (length ns) (\<lambda>i. gn_in (ns ! i)) f"
    using erase_in_all_erased [OF o(4), of "int j" ?ys "\<lambda>i. gn_in (ns ! i)"] a(2,3) j
    by (auto simp: ns_elements_set set_in_self)
  let ?ns = "set_in f ns" and ?zs = "ns_elements (f j)"
  have zs: "set ?zs \<subseteq> ns_set (gn_in (ns ! j))" "k \<noteq> j \<Longrightarrow> int k \<in> set ?zs \<longleftrightarrow> int k \<in> ns_set (gn_in (ns ! j))" for k
    using f(2) j by (auto simp: ns_elements_set erased_def split: if_splits)
  have self: "set_out (\<lambda>i. gn_out (ns ! i)) ?ns = ?ns" by (auto intro!: nth_equalityI)
  have "\<forall>y \<in> set ?zs. 0 \<le> y \<and> y < int (length ?ns)" using zs(1) a(4) [OF j] by auto
  then obtain g where g: "erase_out_all (int j) ?zs ?ns = Some (set_out g ?ns)"
      "erased (int j) ?zs (length ns) (\<lambda>i. gn_out (ns ! i)) g"
    using erase_out_all_erased [of ?ns "int j" ?zs "\<lambda>i. gn_out (ns ! i)"] a(1) o(4) unfolding self by auto
  have "ns_set (f k) = ns_set (gn_in (ns ! k)) - {int j}" "ns_set (g k) = ns_set (gn_out (ns ! k)) - {int j}"
    if "k < length ns" "k \<noteq> j" for k
    using f(2) g(2) that sym [OF j that(1)] sym [OF that(1) j] zs(2) [OF that(2)]
    by (auto simp: erased_def ns_elements_set split: if_splits)
  moreover have "ns_inv (f k)" "ns_inv (g k)" if "k < length ns" for k
    using f(2) g(2) that by (auto simp: erased_def)
  moreover have "gn_in (?ns ! j) = f j" using j by simp
  ultimately show ?thesis using f(1) g(1) by (intro exI [of _ f] exI [of _ g]) simp
qed

definition node_removed :: "graph_rep \<Rightarrow> u64 \<Rightarrow> graph_rep \<Rightarrow> bool" where
  "node_removed r p r' \<longleftrightarrow> gc_inv r' \<and> length (gr_nodes r') = length (gr_nodes r) \<and> pm_find r' p = Some (- 1) \<and> (\<forall>q. q \<noteq> p \<longrightarrow> pm_find r' q = pm_find r q) \<and>
     (\<forall>i. pm_find r p = Some i \<longrightarrow>
        edges (gr_nodes r') = {(a, c) \<in> edges (gr_nodes r). int a \<noteq> i \<and> int c \<noteq> i} \<and>
        (\<forall>k < length (gr_nodes r). gn_version (gr_nodes r' ! k) =
           (if int k = i \<and> gn_version (gr_nodes r ! k) \<noteq> - 1 then gn_version (gr_nodes r ! k) + 1
            else gn_version (gr_nodes r ! k))))"

text \<open>The slots after \<open>RemoveNode\<close> of node \<open>j\<close>.\<close>

lemma gc_remove_node_nodes:
  assumes ok: "order_ok (gr_nodes r0)" and j: "j < length (gr_nodes r0)"
    and rem: "pm_remove p r = Some (int j, r0)"
  shows "\<exists>ns'. gc_remove_node p r = Some (r0\<lparr>gr_nodes := ns', gr_free :=
        (if gn_version (gr_nodes r0 ! j) = - 1 then gr_free r0 else gr_free r0 @ [int j])\<rparr>) \<and>
      length ns' = length (gr_nodes r0) \<and> order_ok ns' \<and>
      edges ns' = {(a, c) \<in> edges (gr_nodes r0). a \<noteq> j \<and> c \<noteq> j} \<and>
      (\<forall>k < length ns'. next_fn ns' k = next_fn (gr_nodes r0) k \<and>
         masked_fn ns' k = (if k = j then HidePtr 0 else masked_fn (gr_nodes r0) k) \<and>
         gn_version (ns' ! k) = (if k = j \<and> gn_version (gr_nodes r0 ! k) \<noteq> - 1
            then gn_version (gr_nodes r0 ! k) + 1 else gn_version (gr_nodes r0 ! k)))"
proof -
  let ?ns = "gr_nodes r0"
  note o = order_okD [OF ok] and v = vec_index_int [OF j order_okD(4) [OF ok]]
  obtain f g where e: "erase_in_all (int j) (ns_elements (gn_out (?ns ! j))) ?ns = Some (set_in f ?ns)"
      "erase_out_all (int j) (ns_elements (gn_in (set_in f ?ns ! j))) (set_in f ?ns) = Some (set_out g (set_in f ?ns))"
    and s: "\<And>k. k < length ?ns \<Longrightarrow> k \<noteq> j \<Longrightarrow> ns_inv (f k) \<and> ns_set (f k) = ns_set (gn_in (?ns ! k)) - {int j} \<and>
       ns_inv (g k) \<and> ns_set (g k) = ns_set (gn_out (?ns ! k)) - {int j}"
    using erase_neighbours [OF ok j] by blast
  let ?ns2 = "set_out g (set_in f ?ns)"
  define ns3 where "ns3 = upd_node (int j) (\<lambda>n. n\<lparr>gn_in := ns_clear (gn_in n), gn_out := ns_clear (gn_out n),
                                                gn_masked_ptr := HidePtr 0\<rparr>) ?ns2"
  let ?v = "gn_version (?ns ! j)"
  define ns' where "ns' = (if ?v = - 1 then ns3 else upd_node (int j) (\<lambda>n. n\<lparr>gn_version := ?v + 1\<rparr>) ns3)"
  have v3: "gn_version (ns3 ! j) = ?v" using j by (simp add: ns3_def upd_node_def v)
  have run: "gc_remove_node p r = Some (r0\<lparr>gr_nodes := ns', gr_free :=
        (if ?v = - 1 then gr_free r0 else gr_free r0 @ [int j])\<rparr>)"
    using rem e v v3 by (simp add: gc_remove_node_def ns'_def flip: ns3_def)
  have nth: "ns' ! k = (if k = j then (?ns ! j)\<lparr>gn_in := ns_init, gn_out := ns_init, gn_masked_ptr := HidePtr 0,
        gn_version := (if ?v = - 1 then ?v else ?v + 1)\<rparr> else (?ns ! k)\<lparr>gn_in := f k, gn_out := g k\<rparr>)"
    if "k < length ?ns" for k
    using that j by (auto simp: ns'_def ns3_def upd_node_def v nth_list_update ns_clear_def)
  have len: "length ns' = length ?ns" by (simp add: ns'_def ns3_def)
  have "order_ok ns'" "edges ns' = {(a, c) \<in> edges ?ns. a \<noteq> j \<and> c \<noteq> j}"
    using isolate_order_ok [OF ok j len] s ns_init_inv by (simp_all add: nth)
  then show ?thesis
    using run len nth by (auto simp: next_fn_def masked_fn_def)
qed

lemma remove_node_absent:
  assumes inv: "gc_inv r" and b: "buckets r b" and none: "lookup r b p = None"
  shows "gc_remove_node p r = Some r \<and> node_removed r p r"
proof -
  have len: "length (gr_nodes r) \<le> 2 ^ 31" using inv order_okD(4) by (auto simp: gc_inv_def)
  have find: "pm_find r p = Some (- 1)" using pm_find_lookup [OF len b, of p] none by (simp add: index_of_def)
  have "pm_remove p r = Some (- 1, r)"
    using pm_remove_from_chain [OF len, of "pm_hash p" "[]" "b (pm_hash p)" "HidePtr p"]
      bucketsD(1) [OF b, of "pm_hash p"] bucketsD(3) [OF b, of _ "pm_hash p"] none
    by (simp add: pm_remove_def slot_after_def lookup_def)
  then have "gc_remove_node p r = Some r" by (simp add: gc_remove_node_def)
  moreover have "edges (gr_nodes r) = {(a, c) \<in> edges (gr_nodes r). int a \<noteq> - 1 \<and> int c \<noteq> - 1}" by auto
  ultimately show ?thesis using inv find by (auto simp: node_removed_def)
qed

lemma remove_node_present:
  assumes ok: "order_ok (gr_nodes r)" and b: "buckets r b" "unused_ok r b" and some: "lookup r b p = Some j"
  shows "\<exists>r'. gc_remove_node p r = Some r' \<and> node_removed r p r'"
proof -
  let ?ns = "gr_nodes r" and ?b = "b(pm_hash p := remove1 j (b (pm_hash p)))"
  note len = order_okD(4) [OF ok]
  have j: "j < length ?ns" "j \<in> set (b (pm_hash p))" "masked_fn ?ns j = HidePtr p"
    using bucketsD(3) [OF b(1)] some by (auto simp: lookup_Some [OF b(1)])
  obtain r0 nx where r0: "pm_remove p r = Some (int j, r0)" "gr_nodes r0 = set_next nx ?ns"
      "gr_free r0 = gr_free r" "buckets r0 ?b"
    using pm_remove_buckets [OF b(1) len some] by blast
  have "map gn_order (gr_nodes r0) = map gn_order ?ns"
    by (rule nth_equalityI) (auto simp: r0(2) gn_order_def gn_adj_def)
  note ord = order_ok_cong [OF this]
  have same: "masked_fn (gr_nodes r0) k = masked_fn ?ns k" "gn_version (gr_nodes r0 ! k) = gn_version (?ns ! k)"
    if "k < length ?ns" for k using that by (simp_all add: r0(2) masked_fn_def)
  define fs where "fs = (if gn_version (?ns ! j) = - 1 then gr_free r else gr_free r @ [int j])"
  have len0: "length (gr_nodes r0) = length ?ns" by (simp add: r0(2))
  obtain ns' where r': "gc_remove_node p r = Some (r0\<lparr>gr_nodes := ns', gr_free := fs\<rparr>)"
    and len': "length ns' = length ?ns" and ok': "order_ok ns'"
    and e: "edges ns' = {(a, c) \<in> edges ?ns. a \<noteq> j \<and> c \<noteq> j}"
    and nth0: "\<forall>k < length ns'. next_fn ns' k = next_fn (gr_nodes r0) k \<and>
         masked_fn ns' k = (if k = j then HidePtr 0 else masked_fn (gr_nodes r0) k) \<and>
         gn_version (ns' ! k) = (if k = j \<and> gn_version (gr_nodes r0 ! k) \<noteq> - 1
            then gn_version (gr_nodes r0 ! k) + 1 else gn_version (gr_nodes r0 ! k))"
    using gc_remove_node_nodes [of r0 j p r, OF _ _ r0(1), unfolded ord r0(3) same(2) [OF j(1)] len0, OF ok j(1)]
    unfolding fs_def by blast
  have nth: "next_fn ns' k = next_fn (gr_nodes r0) k \<and>
         masked_fn ns' k = (if k = j then HidePtr 0 else masked_fn ?ns k) \<and>
         gn_version (ns' ! k) = (if k = j \<and> gn_version (?ns ! k) \<noteq> - 1 then gn_version (?ns ! k) + 1 else gn_version (?ns ! k))"
    if "k < length ?ns" for k
    using that nth0 same [OF that] by (auto simp: len')
  let ?r = "r0\<lparr>gr_nodes := ns', gr_free := fs\<rparr>"
  have inb: "k \<in> set (?b h) \<longleftrightarrow> k \<in> set (b h) \<and> k \<noteq> j" for h k
    using bucketsD(2) [OF b(1), of "pm_hash p"] bucketsD(5) [OF b(1), of j h] bucketsD(5) [OF b(1) j(2)]
    by auto
  have rng: "k \<in> set (?b h) \<Longrightarrow> k < length ?ns \<and> k \<noteq> j" for h k using inb bucketsD(3) [OF b(1)] by blast
  have b': "buckets ?r ?b"
    by (rule buckets_cong [OF r0(4)]) (use nth same rng in \<open>simp_all add: len' r0(2)\<close>)
  have "unused_ok ?r ?b"
    unfolding unused_ok_def
  proof (intro conjI allI impI ballI)
    fix k assume k: "k < length (gr_nodes ?r)" "k \<notin> (\<Union>h. set (?b h))"
    then have "k \<noteq> j \<Longrightarrow> k \<notin> (\<Union>h. set (b h))" using inb by auto
    then show "masked_fn (gr_nodes ?r) k = HidePtr 0" using nth k(1) b(2) by (simp add: unused_ok_def len')
  next
    fix h k assume "k \<in> set (?b h)"
    then show "int k \<notin> set (gr_free ?r)" using b(2) inb [of k h] by (auto simp: fs_def unused_ok_def split: if_splits)
  qed (use b(2) j in \<open>auto simp: fs_def unused_ok_def len'\<close>)
  then have inv: "gc_inv ?r" using b' ok' by (auto simp: gc_inv_def ptr_ok_def)
  have find': "pm_find ?r q = Some (index_of (lookup ?r ?b q))" for q
    using pm_find_lookup [OF _ b'] len by (simp add: len')
  have "lookup ?r ?b p = None"
    unfolding lookup_None
  proof
    fix k assume "k \<in> set (?b (pm_hash p))"
    then have k: "k \<in> set (b (pm_hash p))" "k \<noteq> j" "k < length ?ns" using inb rng by blast+
    then have "masked_fn ?ns k \<noteq> masked_fn ?ns j"
      using inj_onD [OF bucketsD(4) [OF b(1), of "pm_hash p"], of k j] j(2) by blast
    then show "masked_fn (gr_nodes ?r) k \<noteq> HidePtr p" using nth k j(3) by simp
  qed
  moreover have "lookup ?r ?b q = lookup r b q" if "q \<noteq> p" for q
    using that inb nth rng j by (intro lookup_other [OF b(1) b', of p q j]) auto
  moreover have "pm_find r q = Some (index_of (lookup r b q))" for q by (rule pm_find_lookup [OF len b(1)])
  ultimately have "node_removed r p ?r"
    using inv find' some e nth by (simp add: node_removed_def index_of_def len')
  then show ?thesis using r' by blast
qed

end
