(* ===== verification/Graph_Paths.thy ===== *)
theory Graph_Paths
  imports Graph_Nodes
begin

text \<open>
  \<open>FindPath\<close> and \<open>IsReachable\<close> of \<open>GraphCycles\<close> against reachability in the edge relation, and
  \<open>CheckInvariants\<close> against the invariant of the representation.
\<close>

section \<open>The search of FindPath\<close>

lemma path_push_correct:
  assumes "ns_inv seen" "\<forall>w \<in> set ws. w \<ge> 0"
  shows "\<exists>seen' new. path_push ws seen st = Some (seen', new @ st) \<and> ns_inv seen' \<and>
    ns_set seen' = ns_set seen \<union> set ws \<and> set new = set ws - ns_set seen \<and> distinct new"
  using assms
proof (induction ws arbitrary: seen st)
  case (Cons w ws)
  obtain s where s: "ns_insert seen w = Some (w \<notin> ns_set seen, s)" "ns_inv s" "ns_set s = insert w (ns_set seen)"
    using ns_insert_correct [OF Cons.prems(1), of w] Cons.prems(2) by auto
  obtain seen' new where n: "path_push ws s (if w \<notin> ns_set seen then w # st else st) =
        Some (seen', new @ (if w \<notin> ns_set seen then w # st else st))" "ns_inv seen'"
      "ns_set seen' = ns_set s \<union> set ws" "set new = set ws - ns_set s" "distinct new"
    using Cons.IH [OF s(2), of "if w \<notin> ns_set seen then w # st else st"] Cons.prems(2) by auto
  show ?case
    by (rule exI [of _ seen'], rule exI [of _ "if w \<notin> ns_set seen then new @ [w] else new"])
      (use n s in auto)
qed auto

text \<open>
  \<open>walk E x y ps\<close>: \<open>ps\<close> is a walk of \<open>E\<close> from \<open>x\<close> to \<open>y\<close>.
\<close>

fun walk :: "(nat \<times> nat) set \<Rightarrow> nat list \<Rightarrow> bool" where
  "walk E [] \<longleftrightarrow> True"
| "walk E [a] \<longleftrightarrow> True"
| "walk E (a # b # ps) \<longleftrightarrow> (a, b) \<in> E \<and> walk E (b # ps)"

lemma walk_snoc: "walk E (ps @ [a, b]) \<longleftrightarrow> walk E (ps @ [a]) \<and> (a, b) \<in> E"
  by (induction E ps rule: walk.induct) auto

lemma walk_reach: "walk E ps \<Longrightarrow> ps \<noteq> [] \<Longrightarrow> (hd ps, last ps) \<in> E\<^sup>*"
  by (induction E ps rule: walk.induct) (auto intro: converse_rtrancl_into_rtrancl)

text \<open>
  The stack below the current path, whose nodes come last first: above the marker of a node are
  successors of it that are still to be visited.
\<close>

fun frames :: "(nat \<times> nat) set \<Rightarrow> nat \<Rightarrow> nat list \<Rightarrow> int list \<Rightarrow> bool" where
  "frames E x [] st \<longleftrightarrow> (\<forall>v \<in> set st. v = int x)"
| "frames E x (p # ps) st \<longleftrightarrow>
     (\<exists>seg rest. st = seg @ (- 1) # rest \<and> (\<forall>w \<in> set seg. 0 \<le> w \<and> (p, nat w) \<in> E) \<and> frames E x ps rest)"

lemma frames_pop_marker: "frames E x (p # ps) (- 1 # st) \<Longrightarrow> frames E x ps st"
  by (auto simp: append_eq_Cons_conv Cons_eq_append_conv)

lemma frames_marker: "frames E x ps (v # st) \<Longrightarrow> v < 0 \<Longrightarrow> \<exists>p qs. ps = p # qs \<and> v = - 1"
  by (cases ps) (auto simp: Cons_eq_append_conv)

lemma frames_pop_node:
  assumes "frames E x ps (v # st)" "v \<ge> 0"
  shows "frames E x ps st \<and> (ps = [] \<and> v = int x \<or> (\<exists>p qs. ps = p # qs \<and> (p, nat v) \<in> E))"
proof (cases ps)
  case (Cons p qs)
  then obtain seg rest where s: "v # st = seg @ (- 1) # rest" "\<forall>w \<in> set seg. 0 \<le> w \<and> (p, nat w) \<in> E" "frames E x qs rest"
    using assms(1) by auto
  then obtain seg' where "seg = v # seg'" "st = seg' @ (- 1) # rest"
    using assms(2) by (cases seg) auto
  then show ?thesis using s Cons by auto
qed (use assms in auto)

definition path_written :: "gnode list \<Rightarrow> int \<Rightarrow> nat list \<Rightarrow> graph_id list \<Rightarrow> bool" where
  "path_written ns m ps path \<longleftrightarrow> int (length path) \<ge> m \<and>
     (\<forall>i < length ps. int i < m \<longrightarrow> path ! i = MakeId (int (ps ! i)) (gn_version (ns ! (ps ! i))))"

text \<open>
  The state of the loop: \<open>rev ps\<close> is the current path and \<open>D\<close> the nodes popped so far.
\<close>

definition path_inv ::
    "gnode list \<Rightarrow> nat \<Rightarrow> nat \<Rightarrow> int \<Rightarrow> nat list \<Rightarrow> nat set \<Rightarrow> node_set \<Rightarrow> int list \<Rightarrow> graph_id list \<Rightarrow> bool" where
  "path_inv ns x y m ps D seen st path \<longleftrightarrow>
     frames (edges ns) x ps st \<and> walk (edges ns) (rev ps) \<and> (ps \<noteq> [] \<longrightarrow> last ps = x) \<and>
     ns_inv seen \<and> ns_set seen \<subseteq> {0..<int (length ns)} \<and>
     (\<forall>v \<in> set st. 0 \<le> v \<longrightarrow> v < int (length ns)) \<and>
     (\<forall>d \<in> D. ns_set (gn_out (ns ! d)) \<subseteq> ns_set seen) \<and>
     (\<forall>v \<in> ns_set seen. nat v \<in> D \<or> v \<in> set st) \<and> (x \<in> D \<or> int x \<in> set st) \<and> y \<notin> D \<and>
     D \<subseteq> {..<length ns} \<and> path_written ns m (rev ps) path"

definition path_measure :: "gnode list \<Rightarrow> node_set \<Rightarrow> int list \<Rightarrow> nat" where
  "path_measure ns seen st =
     2 * card ({0..<int (length ns)} - ns_set seen) + length st + length (filter (\<lambda>v. v \<ge> 0) st)"

definition path_post :: "gnode list \<Rightarrow> nat \<Rightarrow> nat \<Rightarrow> int \<Rightarrow> int \<times> graph_id list \<Rightarrow> bool" where
  "path_post ns x y m = (\<lambda>(n, path).
     (n > 0 \<longleftrightarrow> (x, y) \<in> (edges ns)\<^sup>*) \<and> n \<ge> 0 \<and>
     (n > 0 \<longrightarrow> (\<exists>ps. int (length ps) = n \<and> hd ps = x \<and> last ps = y \<and> walk (edges ns) ps \<and>
                  path_written ns m ps path)))"

lemma path_invD:
  assumes "path_inv ns x y m ps D seen st path"
  shows "frames (edges ns) x ps st" "walk (edges ns) (rev ps)" "ns_inv seen"
    "ns_set seen \<subseteq> {0..<int (length ns)}" "\<forall>v \<in> set st. 0 \<le> v \<longrightarrow> v < int (length ns)"
    "\<forall>d \<in> D. ns_set (gn_out (ns ! d)) \<subseteq> ns_set seen" "\<forall>v \<in> ns_set seen. nat v \<in> D \<or> v \<in> set st"
    "x \<in> D \<or> int x \<in> set st" "y \<notin> D" "D \<subseteq> {..<length ns}" "path_written ns m (rev ps) path"
    "ps \<noteq> [] \<longrightarrow> last ps = x"
  using assms unfolding path_inv_def by blast+

lemma path_inv_closed:
  assumes ok: "adj_ok ns" and inv: "path_inv ns x y m ps D seen [] path"
  shows "(x, y) \<notin> (edges ns)\<^sup>*"
proof -
  have "z \<in> D" if "(x, z) \<in> (edges ns)\<^sup>*" for z
    using that
  proof (induction rule: rtrancl_induct)
    case base then show ?case using inv by (simp add: path_inv_def)
  next
    case (step z w)
    then have "int w \<in> ns_set seen" using inv by (auto simp: path_inv_def edges_def)
    then show ?case using inv by (auto simp: path_inv_def)
  qed
  then show ?thesis using inv by (auto simp: path_inv_def)
qed

lemma path_inv_marker:
  assumes "path_inv ns x y m ps D seen (v # st) path" "v < 0"
  shows "\<exists>p qs. ps = p # qs \<and> path_inv ns x y m qs D seen st path"
proof -
  obtain p qs where ps: "ps = p # qs" "v = - 1"
    using frames_marker assms unfolding path_inv_def by blast
  have "walk (edges ns) (rev qs)"
    using assms(1) ps by (cases qs) (auto simp: path_inv_def walk_snoc)
  moreover have "path_written ns m (rev qs) path"
    using assms(1) ps by (auto simp: path_inv_def path_written_def nth_append)
  moreover have "(\<forall>v \<in> ns_set seen. nat v \<in> D \<or> v \<in> set st)"
    using assms ps by (auto simp: path_inv_def ns_set_def)
  ultimately have "path_inv ns x y m qs D seen st path"
    using assms ps frames_pop_marker [of "edges ns" x p qs st] by (auto simp: path_inv_def)
  then show ?thesis using ps by blast
qed

definition write_path :: "gnode list \<Rightarrow> int \<Rightarrow> nat \<Rightarrow> nat \<Rightarrow> graph_id list \<Rightarrow> graph_id list" where
  "write_path ns m k a path = (if int k < m then path[k := MakeId (int a) (gn_version (ns ! a))] else path)"

lemma path_written_write:
  assumes "path_written ns m ps path"
  shows "path_written ns m (ps @ [a]) (write_path ns m (length ps) a path)"
  using assms by (auto simp: path_written_def write_path_def nth_append nth_list_update less_Suc_eq)

lemma path_inv_walk:
  assumes inv: "path_inv ns x y m ps D seen (int a # st) path"
  shows "walk (edges ns) (rev (a # ps))" "last (a # ps) = x"
    "path_written ns m (rev (a # ps)) (write_path ns m (length ps) a path)"
proof -
  have f: "ps = [] \<and> a = x \<or> (\<exists>p qs. ps = p # qs \<and> (p, a) \<in> edges ns)"
    using frames_pop_node [of "edges ns" x ps "int a" st] inv by (auto simp: path_inv_def)
  moreover have w: "walk (edges ns) (rev ps)" "ps \<noteq> [] \<longrightarrow> last ps = x"
    using inv unfolding path_inv_def by blast+
  ultimately show "walk (edges ns) (rev (a # ps))"
    using walk_snoc [of "edges ns" "rev (tl ps)" "hd ps" a] by auto
  show "last (a # ps) = x" using f w(2) by auto
  show "path_written ns m (rev (a # ps)) (write_path ns m (length ps) a path)"
    using path_written_write [of ns m "rev ps" path a] inv by (simp add: path_inv_def)
qed

lemma path_inv_found:
  assumes inv: "path_inv ns x y m ps D seen (int y # st) path"
  shows "path_post ns x y m (int (length ps) + 1, write_path ns m (length ps) y path)"
proof -
  note w = path_inv_walk [OF inv]
  have "hd (rev (y # ps)) = x" using w(2) by (metis hd_rev)
  moreover have "last (rev (y # ps)) = y" by simp
  moreover have "(x, y) \<in> (edges ns)\<^sup>*"
    using walk_reach [OF w(1)] calculation by simp
  ultimately show ?thesis
    using w(1,3) by (auto simp: path_post_def intro!: exI [of _ "rev (y # ps)"])
qed

lemma path_inv_step:
  assumes ok: "adj_ok ns" and inv: "path_inv ns x y m ps D seen (int a # st) path" and ay: "a \<noteq> y"
    and seen': "ns_inv seen'" "ns_set seen' = ns_set seen \<union> ns_set (gn_out (ns ! a))"
      "set new = ns_set (gn_out (ns ! a)) - ns_set seen"
  shows "path_inv ns x y m (a # ps) (insert a D) seen' (new @ - 1 # st) (write_path ns m (length ps) a path)"
proof -
  note i = path_invD [OF inv]
  have a: "a < length ns" using i(5) by simp
  have nb: "\<forall>w \<in> ns_set (gn_out (ns ! a)). 0 \<le> w \<and> w < int (length ns) \<and> (a, nat w) \<in> edges ns"
    using adj_okD(3) [OF ok a] a by (auto simp: edges_def)
  have "frames (edges ns) x (a # ps) (new @ - 1 # st)"
    using frames_pop_node [OF i(1)] nb seen'(3) by auto
  moreover have "\<forall>v \<in> ns_set seen'. nat v \<in> insert a D \<or> v \<in> set (new @ - 1 # st)"
    using i(7) seen'(2,3) by auto
  moreover have "ns_set seen' \<subseteq> {0..<int (length ns)}"
    using i(4) nb seen'(2) by auto
  moreover have "\<forall>v \<in> set (new @ - 1 # st). 0 \<le> v \<longrightarrow> v < int (length ns)"
    using i(5) nb seen'(3) by auto
  moreover have "\<forall>d \<in> insert a D. ns_set (gn_out (ns ! d)) \<subseteq> ns_set seen'"
    using i(6) seen'(2) by auto
  moreover have "x \<in> insert a D \<or> int x \<in> set (new @ - 1 # st)" "y \<notin> insert a D" "insert a D \<subseteq> {..<length ns}"
    using i(8-10) ay a by auto
  ultimately show ?thesis
    using path_inv_walk [OF inv] seen'(1) unfolding path_inv_def by blast
qed

lemma path_measure_step:
  assumes sub: "ns_set seen \<subseteq> {0..<int (length ns)}" "set ws \<subseteq> {0..<int (length ns)}"
    and seen': "ns_set seen' = ns_set seen \<union> set ws" and new: "set new = set ws - ns_set seen" "distinct new"
    and a: "a \<ge> 0"
  shows "path_measure ns seen' (new @ - 1 # st) < path_measure ns seen (a # st)"
proof -
  let ?U = "{0..<int (length ns)}"
  have "?U - ns_set seen = (?U - ns_set seen') \<union> set new" "(?U - ns_set seen') \<inter> set new = {}"
    using assms by auto
  then have "card (?U - ns_set seen) = card (?U - ns_set seen') + length new"
    by (metis List.finite_set card_Un_disjoint distinct_card finite_Diff finite_atLeastLessThan_int new(2))
  moreover have "filter (\<lambda>v. v \<ge> 0) new = new"
    using new(1) sub(2) by (auto simp: filter_id_conv)
  ultimately show ?thesis using a by (simp add: path_measure_def)
qed

lemma path_loop_node:
  assumes "vec_index (int a) = a" "a < length ns"
  shows "path_loop ns y m seen (int a # rest) (int k) path =
    (if int a = y then Some (int (Suc k), write_path ns m k a path)
     else case path_push (ns_elements (gn_out (ns ! a))) seen (- 1 # rest) of
            None \<Rightarrow> None
          | Some (seen', st') \<Rightarrow> path_loop ns y m seen' st' (int (Suc k)) (write_path ns m k a path))"
  using assms by (subst path_loop.simps) (auto simp: write_path_def add.commute split: option.splits)

lemma path_loop_correct:
  assumes ok: "adj_ok ns" and y: "y < length ns"
  shows "path_inv ns x y m ps D seen st path \<Longrightarrow>
    \<exists>res. path_loop ns (int y) m seen st (int (length ps)) path = Some res \<and> path_post ns x y m res"
proof (induction "path_measure ns seen st" arbitrary: ps D seen st path rule: less_induct)
  case less
  note len = adj_ok_length [OF ok]
  show ?case
  proof (cases st)
    case Nil
    then show ?thesis
      using path_inv_closed [OF ok, of x y m ps D seen path] less.prems
      by (simp add: path_loop.simps path_post_def)
  next
    case (Cons v rest)
    show ?thesis
    proof (cases "v < 0")
      case True
      then obtain p qs where q: "ps = p # qs" "path_inv ns x y m qs D seen rest path"
        using path_inv_marker less.prems Cons by blast
      have "path_measure ns seen rest < path_measure ns seen st" using Cons by (simp add: path_measure_def)
      from less.hyps [OF this q(2)] show ?thesis
        using True Cons q(1) by (subst path_loop.simps) simp
    next
      case False
      then obtain a where a: "v = int a" by (metis int_nat_eq linorder_not_less)
      note inv = less.prems [unfolded Cons a]
      have al: "a < length ns" using path_invD(5) [OF inv] by simp
      have va: "vec_index (int a) = a" by (rule vec_index_int [OF al len])
      show ?thesis
      proof (cases "a = y")
        case True
        then show ?thesis
          using path_inv_found [of ns x y m ps D seen rest path] inv path_loop_node [OF va al] Cons a
          by (simp add: add.commute)
      next
        case ay: False
        let ?ws = "ns_elements (gn_out (ns ! a))"
        have sub: "ns_set seen \<subseteq> {0..<int (length ns)}" "set ?ws \<subseteq> {0..<int (length ns)}"
          using path_invD(4) [OF inv] adj_okD(3) [OF ok al] by (auto simp: ns_elements_set)
        have "ns_inv seen" "\<forall>w \<in> set ?ws. w \<ge> 0" using path_invD(3) [OF inv] sub(2) by auto
        from path_push_correct [OF this, of "- 1 # rest"] obtain seen' new
          where p: "path_push ?ws seen (- 1 # rest) = Some (seen', new @ - 1 # rest)" "ns_inv seen'"
            "ns_set seen' = ns_set seen \<union> set ?ws" "set new = set ?ws - ns_set seen" "distinct new" by blast
        have m: "path_measure ns seen' (new @ - 1 # rest) < path_measure ns seen st"
          unfolding Cons using path_measure_step [OF sub p(3-5)] a by simp
        have "path_inv ns x y m (a # ps) (insert a D) seen' (new @ - 1 # rest) (write_path ns m (length ps) a path)"
          using path_inv_step [OF ok inv ay] p(2-4) by (simp add: ns_elements_set)
        from less.hyps [OF m this] show ?thesis
          using Cons a ay p(1) path_loop_node [OF va al] by simp
      qed
    qed
  qed
qed

lemma gc_find_path_nodes:
  assumes ok: "order_ok (gr_nodes r)" and xy: "x < length (gr_nodes r)" "y < length (gr_nodes r)"
    and fx: "FindNode r idx = Inr (Some (int x))" and fy: "FindNode r idy = Inr (Some (int y))"
    and room: "m \<le> int (length path)"
  shows "\<exists>res. gc_find_path r idx idy m path = Inr res \<and> path_post (gr_nodes r) x y m res"
proof -
  have "path_inv (gr_nodes r) x y m [] {} ns_init [int x] path"
    using ns_init_inv xy room by (simp add: path_inv_def path_written_def)
  from path_loop_correct [OF order_okD(1) [OF ok] xy(2) this] show ?thesis
    using fx fy by (auto simp: gc_find_path_def)
qed

lemma gc_is_reachable_nodes:
  assumes "order_ok (gr_nodes r)" "x < length (gr_nodes r)" "y < length (gr_nodes r)"
    "FindNode r idx = Inr (Some (int x))" "FindNode r idy = Inr (Some (int y))"
  shows "gc_is_reachable r idx idy = Inr ((x, y) \<in> (edges (gr_nodes r))\<^sup>*)"
  using gc_find_path_nodes [OF assms, of 0 "[]"] by (auto simp: gc_is_reachable_def path_post_def)

section \<open>CheckInvariants\<close>

lemma check_edges_ok:
  "\<forall>y \<in> set ys. vec_index y < length ns \<and> rank < rank_of ns y \<Longrightarrow> check_edges ns rank ys = Some True"
  by (induction ys) auto

text \<open>The lookup of the pointer of a node, as \<open>CheckInvariants\<close> does it, finds the node.\<close>

lemma find_own_pointer:
  assumes inv: "gc_inv r" and x: "x < length (gr_nodes r)" and p: "UnhidePtr (gn_masked_ptr (gr_nodes r ! x)) = p" "p \<noteq> 0"
  shows "pm_find r p = Some (int x)"
proof -
  obtain b where b: "buckets r b" "unused_ok r b" using inv by (auto simp: gc_inv_def ptr_ok_def)
  have len: "length (gr_nodes r) \<le> 2 ^ 31" using inv order_okD(4) by (auto simp: gc_inv_def)
  have m: "masked_fn (gr_nodes r) x = HidePtr p" using p(1) by (auto simp: masked_fn_def)
  then have "masked_fn (gr_nodes r) x \<noteq> HidePtr 0" using p(2) by (simp add: HidePtr_inj)
  then obtain h where h: "x \<in> set (b h)" using b(2) x unfolding unused_ok_def by blast
  then have "h = pm_hash p" using bucketsD(5) [OF b(1) h] m by simp
  then have "lookup r b p = Some x" using lookup_Some [OF b(1)] h m by blast
  then show ?thesis using pm_find_lookup [OF len b(1), of p] by (simp add: index_of_def)
qed

lemma check_nodes_ok:
  assumes inv: "gc_inv r"
  shows "ns_inv ranks \<Longrightarrow> ns_set ranks = rank_fn (gr_nodes r) ` {..<x} \<Longrightarrow> x \<le> length (gr_nodes r) \<Longrightarrow>
    check_nodes r ranks x = Some True"
proof (induction "length (gr_nodes r) - x" arbitrary: x ranks rule: less_induct)
  case less
  let ?ns = "gr_nodes r"
  have ok: "order_ok ?ns" using inv by (simp add: gc_inv_def)
  note o = order_okD [OF ok]
  show ?case
  proof (cases "x < length ?ns")
    case x: True
    let ?nx = "?ns ! x" and ?p = "UnhidePtr (gn_masked_ptr (?ns ! x))"
    have find: "(if ?p \<noteq> 0 then map_option (\<lambda>i. vec_index i \<noteq> x) (pm_find r ?p) else Some False) = Some False"
      using find_own_pointer [OF inv x refl] vec_index_int [OF x o(4)] by simp
    have vis: "\<not> gn_visited ?nx" using o(3) x by (simp add: none_visited_def)
    have bij: "bij_betw (rank_fn ?ns) {..<length ?ns} {0..<int (length ?ns)}"
      using o(2) by (simp add: ranks_ok_def)
    have "rank_fn ?ns x \<in> {0..<int (length ?ns)}" using bij_betwE [OF bij] x by blast
    then have pos: "gn_rank ?nx \<ge> 0" by (simp add: rank_fn_def)
    have "rank_fn ?ns x \<noteq> rank_fn ?ns k" if "k < x" for k
      using ranks_ok_inj [OF o(2) x, of k] that x by auto
    then have new: "gn_rank ?nx \<notin> ns_set ranks"
      unfolding less.prems(2) by (auto simp: rank_fn_def)
    obtain ranks' where ins: "ns_insert ranks (gn_rank ?nx) = Some (True, ranks')" "ns_inv ranks'"
        "ns_set ranks' = insert (gn_rank ?nx) (ns_set ranks)"
      using ns_insert_correct [OF less.prems(1) pos] new by auto
    have "vec_index y < length ?ns \<and> gn_rank ?nx < rank_of ?ns y" if y: "y \<in> set (ns_elements (gn_out ?nx))" for y
    proof -
      have yr: "y \<in> ns_set (gn_out ?nx)" "0 \<le> y" "y < int (length ?ns)"
        using y adj_okD(3) [OF o(1) x] by (auto simp: ns_elements_set)
      then have "(x, nat y) \<in> edges ?ns" "vec_index y = nat y"
        using x vec_index_int [of "nat y" ?ns] o(4) by (auto simp: edges_def)
      then show ?thesis using ranks_ok_edge [OF o(2)] yr by (auto simp: rank_of_def rank_fn_def)
    qed
    then have edges: "check_edges ?ns (gn_rank ?nx) (ns_elements (gn_out ?nx)) = Some True"
      by (intro check_edges_ok) auto
    have "ns_set ranks' = rank_fn ?ns ` {..<x + 1}"
      using ins(3) less.prems(2) by (simp add: rank_fn_def lessThan_Suc)
    then have "check_nodes r ranks' (x + 1) = Some True" using x ins(2) by (intro less.hyps) auto
    then show ?thesis using x find vis ins(1) edges by (subst check_nodes.simps) (simp add: Let_def)
  next
    case False
    then show ?thesis by (simp add: check_nodes.simps)
  qed
qed

lemma gc_check_invariants_ok: "gc_inv r \<Longrightarrow> gc_check_invariants r = Some True"
  unfolding gc_check_invariants_def using ns_init_inv by (intro check_nodes_ok) auto

end
