(* ===== verification/Graph_Machine.thy ===== *)
theory Graph_Machine
  imports Graph_Paths
begin

text \<open>
  \<open>GraphCycles\<close> as a state machine: the states that sequences of calls can reach from a fresh
  object, and the properties of every call in such a state.
\<close>

section \<open>Reachable states\<close>

inductive gc_step :: "graph_rep \<Rightarrow> graph_rep \<Rightarrow> bool" where
  get_id: "gc_get_id junk p r = Some (gid, r') \<Longrightarrow> length (gr_nodes r) < 2 ^ 31 \<Longrightarrow> gc_step r r'"
| remove_node: "gc_remove_node p r = Some r' \<Longrightarrow> gc_step r r'"
| insert_edge: "gc_insert_edge r idx idy = Inr (res, r') \<Longrightarrow> gc_step r r'"
| remove_edge: "gc_remove_edge r idx idy = Inr r' \<Longrightarrow> gc_step r r'"
| update_stack: "gc_update_stack_trace f gid priority r = Inr r' \<Longrightarrow> gc_step r r'"

inductive gc_reach :: "graph_rep \<Rightarrow> bool" where
  start: "gc_reach gc_new"
| step: "gc_reach r \<Longrightarrow> gc_step r r' \<Longrightarrow> gc_reach r'"

inductive_cases gc_stepE: "gc_step r r'"

section \<open>Every call keeps the invariant\<close>

lemma gc_new_inv: "gc_inv gc_new"
proof -
  have "buckets gc_new (\<lambda>_. [])" "unused_ok gc_new (\<lambda>_. [])"
    by (simp_all add: buckets_def unused_ok_def gc_new_def)
  then show ?thesis
    by (auto simp: gc_inv_def ptr_ok_def gc_new_def order_ok_def adj_ok_def ranks_ok_def edges_def
        none_visited_def bij_betw_def)
qed

lemma gc_invD: "gc_inv r \<Longrightarrow> order_ok (gr_nodes r)" "gc_inv r \<Longrightarrow> ptr_ok r"
    "gc_inv r \<Longrightarrow> length (gr_nodes r) \<le> 2 ^ 31"
  using order_okD(4) by (auto simp: gc_inv_def)

lemma gc_inv_same_identity:
  assumes "gc_inv r" "order_ok ns'" "map gn_identity ns' = map gn_identity (gr_nodes r)"
  shows "gc_inv (r\<lparr>gr_nodes := ns'\<rparr>)"
  using assms ptr_ok_cong [OF assms(3)] by (simp add: gc_inv_def)

lemma gc_insert_edge_inv:
  assumes inv: "gc_inv r" and fx: "FindNode r idx = Inr (Some x)" and fy: "FindNode r idy = Inr (Some y)"
  shows "\<exists>res r'. gc_insert_edge r idx idy = Inr (res, r') \<and> gc_inv r' \<and>
    res = ((nat y, nat x) \<notin> (edges (gr_nodes r))\<^sup>*) \<and>
    edges (gr_nodes r') = (if res then insert (nat x, nat y) (edges (gr_nodes r)) else edges (gr_nodes r)) \<and>
    map gn_identity (gr_nodes r') = map gn_identity (gr_nodes r)"
proof -
  note ok = gc_invD [OF inv]
  obtain a where a: "x = int a" "a < length (gr_nodes r)" using FindNode_cases [OF ok(3) fx] by blast
  obtain c where c: "y = int c" "c < length (gr_nodes r)" using FindNode_cases [OF ok(3) fy] by blast
  obtain res ns' where r: "gc_insert_edge r idx idy = Inr (res, r\<lparr>gr_nodes := ns'\<rparr>)"
      "edge_inserted (gr_nodes r) a c res ns'"
    using gc_insert_edge_nodes [OF ok(1) a(2) c(2)] fx fy a c by blast
  then have "gc_inv (r\<lparr>gr_nodes := ns'\<rparr>)"
    using gc_inv_same_identity [OF inv] by (simp add: edge_inserted_def)
  then show ?thesis
    using r a c by (intro exI [of _ res] exI [of _ "r\<lparr>gr_nodes := ns'\<rparr>"]) (simp add: edge_inserted_def)
qed

lemma gc_remove_edge_inv:
  assumes inv: "gc_inv r" and fx: "FindNode r idx = Inr (Some x)" and fy: "FindNode r idy = Inr (Some y)"
  shows "\<exists>r'. gc_remove_edge r idx idy = Inr r' \<and> gc_inv r' \<and>
    edges (gr_nodes r') = edges (gr_nodes r) - {(nat x, nat y)} \<and>
    map gn_identity (gr_nodes r') = map gn_identity (gr_nodes r)"
proof -
  note ok = gc_invD [OF inv]
  obtain a where a: "x = int a" "a < length (gr_nodes r)" using FindNode_cases [OF ok(3) fx] by blast
  obtain c where c: "y = int c" "c < length (gr_nodes r)" using FindNode_cases [OF ok(3) fy] by blast
  obtain ns' where r: "gc_remove_edge r idx idy = Inr (r\<lparr>gr_nodes := ns'\<rparr>)" "order_ok ns'"
      "edges ns' = edges (gr_nodes r) - {(a, c)}" "map gn_identity ns' = map gn_identity (gr_nodes r)"
    using gc_remove_edge_nodes [OF ok(1) a(2) c(2)] fx fy a c by blast
  then show ?thesis using gc_inv_same_identity [OF inv r(2,4)] a c by simp
qed

lemma gc_remove_node_correct:
  assumes "gc_inv r"
  shows "\<exists>r'. gc_remove_node p r = Some r' \<and> node_removed r p r'"
proof -
  obtain b where b: "buckets r b" "unused_ok r b" using assms by (auto simp: gc_inv_def ptr_ok_def)
  show ?thesis
    using remove_node_absent [OF assms b(1), of p] remove_node_present [OF gc_invD(1) [OF assms] b, of p]
    by (cases "lookup r b p") blast+
qed

lemma gc_update_stack_inv:
  assumes inv: "gc_inv r" and up: "gc_update_stack_trace f gid priority r = Inr r'"
  shows "gc_inv r'"
proof -
  obtain fn where fn: "FindNode r gid = Inr fn" using up by (cases "FindNode r gid") (auto simp: gc_update_stack_trace_def)
  show ?thesis
  proof (cases "r' = r")
    case False
    then obtain x where x: "fn = Some x" using up fn by (auto simp: gc_update_stack_trace_def split: option.splits)
    obtain a where a: "x = int a" "a < length (gr_nodes r)"
      using FindNode_cases [OF gc_invD(3) [OF inv]] fn x by blast
    note v = vec_index_int [OF a(2) gc_invD(3) [OF inv]]
    obtain k st where r': "r' = r\<lparr>gr_nodes := (gr_nodes r)[a := (gr_nodes r ! a)\<lparr>gn_stack := st, gn_nstack := k, gn_priority := priority\<rparr>]\<rparr>"
      using up fn x False a(1) v
      by (auto simp: gc_update_stack_trace_def upd_node_def split: if_splits prod.splits)
    have "map gn_order (gr_nodes r') = map gn_order (gr_nodes r)"
      using a(2) by (auto intro!: nth_equalityI simp: r' nth_list_update gn_order_def gn_adj_def)
    then have "order_ok (gr_nodes r')" using order_ok_cong(1) gc_invD(1) [OF inv] by blast
    moreover have same: "next_fn (gr_nodes r') j = next_fn (gr_nodes r) j \<and> masked_fn (gr_nodes r') j = masked_fn (gr_nodes r) j"
      if "j < length (gr_nodes r)" for j
      using that a(2) by (auto simp: r' next_fn_def masked_fn_def nth_list_update)
    moreover obtain b where b: "buckets r b" "unused_ok r b" using inv by (auto simp: gc_inv_def ptr_ok_def)
    moreover have "buckets r' b" "unused_ok r' b"
      using buckets_cong [OF b(1), of r'] bucketsD(3) [OF b(1)] same b(2) by (auto simp: r' unused_ok_def)
    ultimately show ?thesis by (auto simp: gc_inv_def ptr_ok_def)
  qed (use inv in simp)
qed

lemma FindNode_expired:
  assumes "FindNode r idx = Inr None \<or> FindNode r idy = Inr None" "gc_insert_edge r idx idy = Inr (res, r')"
  shows "res \<and> r' = r"
  using assms by (auto simp: gc_insert_edge_def bindE_eq_Inr split: option.splits)

lemma gc_step_inv: "gc_step r r' \<Longrightarrow> gc_inv r \<Longrightarrow> gc_inv r'"
proof (induction rule: gc_step.induct)
  case (get_id junk p r gid r')
  then show ?case using gc_get_id_correct [of r junk p] by (auto simp: id_added_def)
next
  case (remove_node p r r')
  then show ?case using gc_remove_node_correct [of r p] by (auto simp: node_removed_def)
next
  case (insert_edge r idx idy res r')
  then obtain fx fy where f: "FindNode r idx = Inr fx" "FindNode r idy = Inr fy"
    by (auto simp: gc_insert_edge_def bindE_eq_Inr)
  show ?case
  proof (cases "fx = None \<or> fy = None")
    case True
    then show ?thesis using FindNode_expired insert_edge f by blast
  next
    case False
    then obtain x y where "FindNode r idx = Inr (Some x)" "FindNode r idy = Inr (Some y)" using f by auto
    from gc_insert_edge_inv [OF insert_edge.prems this] show ?thesis using insert_edge.hyps by auto
  qed
next
  case (remove_edge r idx idy r')
  then obtain fx fy where f: "FindNode r idx = Inr fx" "FindNode r idy = Inr fy"
    by (auto simp: gc_remove_edge_def bindE_eq_Inr)
  show ?case
  proof (cases "fx = None \<or> fy = None")
    case True
    then show ?thesis using remove_edge f by (auto simp: gc_remove_edge_def split: option.splits)
  next
    case False
    then obtain x y where "FindNode r idx = Inr (Some x)" "FindNode r idy = Inr (Some y)" using f by auto
    from gc_remove_edge_inv [OF remove_edge.prems this] show ?thesis using remove_edge.hyps by auto
  qed
next
  case (update_stack f gid priority r r')
  then show ?case using gc_update_stack_inv by blast
qed

lemma gc_reach_inv: "gc_reach r \<Longrightarrow> gc_inv r"
  by (induction rule: gc_reach.induct) (auto intro: gc_new_inv gc_step_inv)

section \<open>A small graph\<close>

definition blank_node :: gnode where
  "blank_node = \<lparr>gn_rank = 0, gn_version = 0, gn_next_hash = - 1, gn_visited = False, gn_masked_ptr = 0,
     gn_in = ns_init, gn_out = ns_init, gn_priority = 0, gn_nstack = 0, gn_stack = []\<rparr>"

text \<open>The object after \<open>GetId\<close> of two pointers.\<close>

definition two_nodes :: graph_rep where
  "two_nodes = snd (the (gc_get_id blank_node 16 (snd (the (gc_get_id blank_node 8 gc_new)))))"

lemma one_node_eq:
  "gc_get_id blank_node 8 gc_new = Some (MakeId 0 1,
     \<lparr>gr_nodes = [blank_node\<lparr>gn_version := 1, gn_masked_ptr := HidePtr 8\<rparr>], gr_free = [],
      gr_table = (\<lambda>_. - 1)(8 := 0)\<rparr>)"
  by (simp add: gc_get_id_def gc_new_def pm_find_def pm_find_from.simps pm_hash_def kHashTableSize_def
      pm_add_def upd_node_def vec_index_def blank_node_def Let_def)

lemma two_nodes_step:
  "gc_get_id blank_node 16 (snd (the (gc_get_id blank_node 8 gc_new))) = Some (MakeId 1 1, two_nodes)"
  and two_nodes_eq: "two_nodes = \<lparr>gr_nodes =
     [blank_node\<lparr>gn_version := 1, gn_masked_ptr := HidePtr 8\<rparr>,
      blank_node\<lparr>gn_rank := 1, gn_version := 1, gn_masked_ptr := HidePtr 16\<rparr>], gr_free = [],
      gr_table = (\<lambda>_. - 1)(8 := 0, 16 := 1)\<rparr>"
proof -
  let ?r = "\<lparr>gr_nodes =
     [blank_node\<lparr>gn_version := 1, gn_masked_ptr := HidePtr 8\<rparr>,
      blank_node\<lparr>gn_rank := 1, gn_version := 1, gn_masked_ptr := HidePtr 16\<rparr>], gr_free = [],
      gr_table = (\<lambda>_. - 1)(8 := 0, 16 := 1)\<rparr>"
  have "gc_get_id blank_node 16 (snd (the (gc_get_id blank_node 8 gc_new))) = Some (MakeId 1 1, ?r)"
    unfolding one_node_eq
    by (simp add: gc_get_id_def pm_find_def pm_find_from.simps pm_hash_def kHashTableSize_def
        pm_add_def upd_node_def vec_index_def blank_node_def Let_def)
  then show "two_nodes = ?r"
    "gc_get_id blank_node 16 (snd (the (gc_get_id blank_node 8 gc_new))) = Some (MakeId 1 1, two_nodes)"
    by (simp_all add: two_nodes_def)
qed

lemma two_nodes_reach: "gc_reach two_nodes"
proof -
  have "gc_step gc_new (snd (the (gc_get_id blank_node 8 gc_new)))"
    by (rule gc_step.get_id [where junk = blank_node and p = 8]) (simp_all add: one_node_eq, simp add: gc_new_def)
  moreover have "gc_step (snd (the (gc_get_id blank_node 8 gc_new))) two_nodes"
    by (rule gc_step.get_id [OF two_nodes_step]) (simp add: one_node_eq)
  ultimately show ?thesis by (blast intro: gc_reach.intros)
qed

lemma two_nodes_find:
  "FindNode two_nodes (MakeId 0 1) = Inr (Some 0)" "FindNode two_nodes (MakeId 1 1) = Inr (Some 1)"
  by (simp_all add: FindNode_def node_at_def two_nodes_eq vec_index_def NodeIndex_MakeId)

lemma two_nodes_edges: "edges (gr_nodes two_nodes) = {}"
  using ns_init_inv by (auto simp: edges_def two_nodes_eq blank_node_def nth_Cons' split: if_splits)

section \<open>Properties\<close>

text \<open>
  C1: In every state that calls can reach, \<open>InsertEdge\<close> of two live nodes terminates without touching
  memory outside \<open>nodes_\<close>; it returns \<open>false\<close> exactly when the target already reaches the source
  (so that the edge would close a cycle, the self edge included); the edge relation then has exactly
  the new edge added, or is unchanged; and the identities of all nodes are untouched.
\<close>

theorem insert_edge_correct:
  assumes "gc_reach r" "FindNode r idx = Inr (Some x)" "FindNode r idy = Inr (Some y)"
  shows "\<exists>res r'. gc_insert_edge r idx idy = Inr (res, r') \<and>
    (res \<longleftrightarrow> (nat y, nat x) \<notin> (edges (gr_nodes r))\<^sup>*) \<and>
    edges (gr_nodes r') = (if res then insert (nat x, nat y) (edges (gr_nodes r)) else edges (gr_nodes r)) \<and>
    map gn_identity (gr_nodes r') = map gn_identity (gr_nodes r)"
  using gc_insert_edge_inv [OF gc_reach_inv [OF assms(1)] assms(2,3)] by auto

theorem insert_edge_correct_witness:
  "\<exists>r'. gc_insert_edge two_nodes (MakeId 0 1) (MakeId 1 1) = Inr (True, r') \<and> edges (gr_nodes r') = {(0, 1)}"
  using insert_edge_correct [OF two_nodes_reach two_nodes_find] by (auto simp: two_nodes_edges)

text \<open>
  C2: In every state that calls can reach the graph is acyclic, and the self-check
  \<open>CheckInvariants\<close> of the code returns \<open>true\<close> instead of reaching one of its fatal errors.
\<close>

theorem reachable_acyclic:
  assumes "gc_reach r"
  shows "acyclic (edges (gr_nodes r)) \<and> gc_check_invariants r = Some True"
  using gc_reach_inv [OF assms] gc_check_invariants_ok ranks_ok_acyclic order_okD(2) gc_invD(1) by blast

theorem reachable_acyclic_witness: "gc_check_invariants two_nodes = Some True"
  using reachable_acyclic [OF two_nodes_reach] by simp

text \<open>
  C3: \<open>FindPath\<close> terminates; it returns a positive length exactly when the target is reachable
  from the source, and then that length is the length of a walk from source to target whose nodes,
  up to \<open>max_path_len\<close> of them, are the identifiers written to \<open>path\<close>.
\<close>

theorem find_path_correct:
  assumes "gc_reach r" "FindNode r idx = Inr (Some x)" "FindNode r idy = Inr (Some y)"
    "m \<le> int (length path)"
  shows "\<exists>n path'. gc_find_path r idx idy m path = Inr (n, path') \<and>
    (n > 0 \<longleftrightarrow> (nat x, nat y) \<in> (edges (gr_nodes r))\<^sup>*) \<and>
    (n > 0 \<longrightarrow> (\<exists>ps. int (length ps) = n \<and> hd ps = nat x \<and> last ps = nat y \<and> walk (edges (gr_nodes r)) ps \<and>
       (\<forall>i < length ps. int i < m \<longrightarrow>
          path' ! i = MakeId (int (ps ! i)) (gn_version (gr_nodes r ! (ps ! i))))))"
proof -
  note ok = gc_invD [OF gc_reach_inv [OF assms(1)]]
  obtain a where a: "x = int a" "a < length (gr_nodes r)" using FindNode_cases [OF ok(3) assms(2)] by blast
  obtain c where c: "y = int c" "c < length (gr_nodes r)" using FindNode_cases [OF ok(3) assms(3)] by blast
  obtain n path' where p: "gc_find_path r idx idy m path = Inr (n, path')" "path_post (gr_nodes r) a c m (n, path')"
    using gc_find_path_nodes [OF ok(1) a(2) c(2)] assms a c by (metis surj_pair)
  then show ?thesis
    using a c by (intro exI [of _ n] exI [of _ path']) (auto simp: path_post_def path_written_def)
qed

theorem find_path_correct_witness:
  "\<exists>n path'. gc_find_path two_nodes (MakeId 0 1) (MakeId 0 1) 1 [0] = Inr (n, path') \<and> n > 0 \<and>
     path' ! 0 = MakeId 0 1"
proof -
  obtain n path' ps where p: "gc_find_path two_nodes (MakeId 0 1) (MakeId 0 1) 1 [0] = Inr (n, path')" "n > 0"
      "int (length ps) = n" "hd ps = 0"
      "\<forall>i < length ps. int i < 1 \<longrightarrow> path' ! i = MakeId (int (ps ! i)) (gn_version (gr_nodes two_nodes ! (ps ! i)))"
    using find_path_correct [OF two_nodes_reach two_nodes_find(1,1), of 1 "[0]"] by auto
  then have "ps \<noteq> []" by auto
  then have "path' ! 0 = MakeId 0 1" using p(4,5) by (auto simp: hd_conv_nth two_nodes_eq blank_node_def)
  then show ?thesis using p(1,2) by blast
qed

text \<open>
  C4: \<open>GetId\<close> terminates in every reachable state with room for a node; the identifier it returns
  is live and \<open>Ptr\<close> maps it back to the pointer; no other pointer changes its node, the edges stay,
  and a pointer that has a node already changes nothing.
\<close>

theorem get_id_correct:
  assumes "gc_reach r" "length (gr_nodes r) < 2 ^ 31"
  shows "\<exists>gid r'. gc_get_id junk p r = Some (gid, r') \<and> gc_has_node r' gid = Inr True \<and> gc_ptr r' gid = Inr p \<and>
    pm_find r' p = Some (NodeIndex gid) \<and> (\<forall>q. q \<noteq> p \<longrightarrow> pm_find r' q = pm_find r q) \<and>
    edges (gr_nodes r') = edges (gr_nodes r) \<and> (pm_find r p \<noteq> Some (- 1) \<longrightarrow> r' = r)"
proof -
  obtain gid r' where "gc_get_id junk p r = Some (gid, r')" "id_added r p gid r'"
    using gc_get_id_correct [OF gc_reach_inv [OF assms(1)] assms(2)] by blast
  then show ?thesis by (auto simp: id_added_def id_of_def)
qed

theorem get_id_correct_witness:
  "\<exists>gid r'. gc_get_id blank_node 24 two_nodes = Some (gid, r') \<and> gc_ptr r' gid = Inr 24"
proof -
  have "length (gr_nodes two_nodes) < 2 ^ 31" by (simp add: two_nodes_eq)
  from get_id_correct [OF two_nodes_reach this, of blank_node 24] show ?thesis by blast
qed

text \<open>
  C5: \<open>RemoveNode\<close> terminates in every reachable state; afterwards the pointer has no node, every
  other pointer keeps its node, and exactly the edges at the removed node are gone.
\<close>

theorem remove_node_correct:
  assumes "gc_reach r" "pm_find r p = Some i"
  shows "\<exists>r'. gc_remove_node p r = Some r' \<and> pm_find r' p = Some (- 1) \<and>
    (\<forall>q. q \<noteq> p \<longrightarrow> pm_find r' q = pm_find r q) \<and>
    edges (gr_nodes r') = {(a, c) \<in> edges (gr_nodes r). int a \<noteq> i \<and> int c \<noteq> i}"
proof -
  obtain r' where r': "gc_remove_node p r = Some r'" "node_removed r p r'"
    using gc_remove_node_correct [OF gc_reach_inv [OF assms(1)]] by blast
  then show ?thesis using assms(2) unfolding node_removed_def by blast
qed

lemma two_nodes_lookup: "pm_find two_nodes 8 = Some 0"
  by (simp add: pm_find_def pm_find_from.simps pm_hash_def kHashTableSize_def two_nodes_eq vec_index_def blank_node_def)

theorem remove_node_correct_witness:
  "\<exists>r'. gc_remove_node 8 two_nodes = Some r' \<and> pm_find r' 8 = Some (- 1)"
  using remove_node_correct [OF two_nodes_reach two_nodes_lookup] by blast

text \<open>
  C17: The identifier of a removed node expires (\<open>HasNode\<close> is \<open>false\<close>) unless the version counter
  of its slot is saturated: at the largest version number \<open>RemoveNode\<close> leaves the version alone, and
  copies of the identifier stay valid.
\<close>

theorem removed_id_expires:
  assumes "gc_reach r" "pm_find r p = Some (int k)" "k < length (gr_nodes r)"
    "gid = MakeId (int k) (gn_version (gr_nodes r ! k))"
  shows "\<exists>r'. gc_remove_node p r = Some r' \<and>
    gc_has_node r' gid = Inr (gn_version (gr_nodes r ! k) = - 1)"
proof -
  obtain r' where r': "gc_remove_node p r = Some r'" "node_removed r p r'"
    using gc_remove_node_correct [OF gc_reach_inv [OF assms(1)]] by blast
  let ?v = "gn_version (gr_nodes r ! k)"
  have len: "length (gr_nodes r) \<le> 2 ^ 31" "length (gr_nodes r') \<le> 2 ^ 31"
    using gc_invD(3) [OF gc_reach_inv [OF assms(1)]] gc_invD(3) [of r'] r'(2) by (auto simp: node_removed_def)
  have v: "gn_version (gr_nodes r' ! k) = (if ?v \<noteq> - 1 then ?v + 1 else ?v)"
    using r'(2) assms(2,3) by (auto simp: node_removed_def)
  have i: "NodeIndex gid = int k" "NodeVersion gid = ?v"
    using assms(3) len by (auto simp: assms(4) NodeIndex_MakeId)
  have l: "k < length (gr_nodes r')" using r'(2) assms(3) by (simp add: node_removed_def)
  have "FindNode r' gid = Inr (if gn_version (gr_nodes r' ! k) = ?v then Some (int k) else None)"
    using FindNode_eq [of r' gid] vec_index_int [OF l len(2)] i l len(2) by simp
  then show ?thesis using r'(1) v by (auto simp: gc_has_node_def)
qed

theorem removed_id_expires_witness:
  "\<exists>r'. gc_remove_node 8 two_nodes = Some r' \<and> gc_has_node r' (MakeId 0 1) = Inr False"
proof -
  have f: "pm_find two_nodes 8 = Some (int 0)" by (simp add: two_nodes_lookup)
  have k: "0 < length (gr_nodes two_nodes)" by (simp add: two_nodes_eq)
  show ?thesis
    using removed_id_expires [OF two_nodes_reach f k refl] by (simp add: two_nodes_eq blank_node_def)
qed

end
