(* ===== verification/Civil_Time.thy ===== *)
theory Civil_Time
  imports Prelude "HOL-Library.Signed_Division"
begin

text \<open>
  Civil time (turbo/times/cctz/civil_time_detail.h): the normalisation of six date and time fields,
  stepping, differences, alignment, comparison, weekdays and days of the year in the proleptic
  Gregorian calendar. The 64-bit quantities of the source are \<open>int\<close>, with the truncating division
  of C++ written as \<open>sdiv\<close> and \<open>smod\<close>; the model describes the executions in which no signed
  64-bit operation overflows. The narrowing casts to the 8-bit field types are the identity on the
  values the theorems show them to have.
\<close>

section \<open>Fields and calendar tables\<close>

record civil_fields =
  f_y :: int
  f_m :: int
  f_d :: int
  f_hh :: int
  f_mm :: int
  f_ss :: int

definition mk_fields :: "int \<Rightarrow> int \<Rightarrow> int \<Rightarrow> int \<Rightarrow> int \<Rightarrow> int \<Rightarrow> civil_fields" where
  "mk_fields y m d hh mm ss = \<lparr>f_y = y, f_m = m, f_d = d, f_hh = hh, f_mm = mm, f_ss = ss\<rparr>"

datatype civil_tag = second_tag | minute_tag | hour_tag | day_tag | month_tag | year_tag

definition is_leap_year :: "int \<Rightarrow> bool" where
  "is_leap_year y \<longleftrightarrow> y smod 4 = 0 \<and> (y smod 100 \<noteq> 0 \<or> y smod 400 = 0)"

definition year_index :: "int \<Rightarrow> int \<Rightarrow> int" where
  "year_index y m = (let yi = (y + (if m > 2 then 1 else 0)) smod 400 in if yi < 0 then yi + 400 else yi)"

definition days_per_century :: "int \<Rightarrow> int" where
  "days_per_century yi = 36524 + (if yi = 0 \<or> yi > 300 then 1 else 0)"

definition days_per_4years :: "int \<Rightarrow> int" where
  "days_per_4years yi = 1460 + (if yi = 0 \<or> yi > 300 \<or> (yi - 1) smod 100 < 96 then 1 else 0)"

definition days_per_year :: "int \<Rightarrow> int \<Rightarrow> int" where
  "days_per_year y m = (if is_leap_year (y + (if m > 2 then 1 else 0)) then 366 else 365)"

definition k_days_per_month :: "int list" where
  "k_days_per_month = [- 1, 31, 28, 31, 30, 31, 30, 31, 31, 30, 31, 30, 31]"

definition days_per_month :: "int \<Rightarrow> int \<Rightarrow> int" where
  "days_per_month y m = k_days_per_month ! nat m + (if m = 2 \<and> is_leap_year y then 1 else 0)"

section \<open>Normalisation\<close>

text \<open>The four counting loops of \<open>n_day\<close>.\<close>

function century_loop :: "int \<Rightarrow> int \<Rightarrow> int \<Rightarrow> int \<times> int \<times> int" where
  "century_loop ey yi d =
     (let n = days_per_century yi in
      if d \<le> n then (ey, yi, d)
      else century_loop (ey + 100) (let yi' = yi + 100 in if yi' \<ge> 400 then yi' - 400 else yi') (d - n))"
  by pat_completeness auto
termination
  by (relation "measure (\<lambda>(ey, yi, d). nat d)") (auto simp: days_per_century_def)

function four_year_loop :: "int \<Rightarrow> int \<Rightarrow> int \<Rightarrow> int \<times> int \<times> int" where
  "four_year_loop ey yi d =
     (let n = days_per_4years yi in
      if d \<le> n then (ey, yi, d)
      else four_year_loop (ey + 4) (let yi' = yi + 4 in if yi' \<ge> 400 then yi' - 400 else yi') (d - n))"
  by pat_completeness auto
termination
  by (relation "measure (\<lambda>(ey, yi, d). nat d)") (auto simp: days_per_4years_def)

function year_loop :: "int \<Rightarrow> int \<Rightarrow> int \<Rightarrow> int \<times> int" where
  "year_loop ey m d =
     (let n = days_per_year ey m in if d \<le> n then (ey, d) else year_loop (ey + 1) m (d - n))"
  by pat_completeness auto
termination
  by (relation "measure (\<lambda>(ey, m, d). nat d)") (auto simp: days_per_year_def split: if_splits)

lemma month_cases: "1 \<le> m \<Longrightarrow> m \<le> 12 \<Longrightarrow> m \<in> {1, 2, 3, 4, 5, 6, 7, 8, 9, 10, 11, 12 :: int}"
  by (simp, presburger)

lemma days_per_month_pos: "1 \<le> m \<Longrightarrow> m \<le> 12 \<Longrightarrow> 28 \<le> days_per_month y m \<and> days_per_month y m \<le> 31"
proof -
  assume "1 \<le> m" "m \<le> 12"
  then have "m \<in> {1, 2, 3, 4, 5, 6, 7, 8, 9, 10, 11, 12}" by (rule month_cases)
  then show ?thesis by (auto simp: days_per_month_def k_days_per_month_def)
qed

function month_loop :: "int \<Rightarrow> int \<Rightarrow> int \<Rightarrow> int \<times> int \<times> int" where
  "month_loop ey m d =
     (let n = days_per_month ey m in
      if d \<le> n then (ey, m, d)
      else if m + 1 > 12 then month_loop (ey + 1) 1 (d - n) else month_loop ey (m + 1) (d - n))"
  by pat_completeness auto
termination
proof (relation "measures [\<lambda>(ey, m, d). if m > 12 then 1 else nat (1 - m), \<lambda>(ey, m, d). nat d]", simp)
  fix ey m d n :: int
  assume a: "n = days_per_month ey m" "\<not> d \<le> n"
  have pos: "0 < n" if "1 \<le> m" "m \<le> 12" using days_per_month_pos [OF that, of ey] a by simp
  show "12 < m + 1 \<Longrightarrow> ((ey + 1, 1, d - n), ey, m, d)
      \<in> measures [\<lambda>(ey, m, d). if m > 12 then 1 else nat (1 - m), \<lambda>(ey, m, d). nat d]"
    using a pos by (cases "m > 12") auto
  show "\<not> 12 < m + 1 \<Longrightarrow> ((ey, m + 1, d - n), ey, m, d)
      \<in> measures [\<lambda>(ey, m, d). if m > 12 then 1 else nat (1 - m), \<lambda>(ey, m, d). nat d]"
    using a pos by (cases "m < 1") auto
qed

declare century_loop.simps [simp del] four_year_loop.simps [simp del] year_loop.simps [simp del]
  month_loop.simps [simp del]

text \<open>The three parts of \<open>n_day\<close>: reduction by 400-year cycles, counting years, counting months.\<close>

definition n_day_cycles :: "int \<Rightarrow> int \<Rightarrow> int \<Rightarrow> int \<Rightarrow> int \<times> int" where
  "n_day_cycles oey m d cd =
     (let ey = oey + (cd sdiv 146097) * 400;
          cd = cd smod 146097;
          (ey, cd) = (if cd < 0 then (ey - 400, cd + 146097) else (ey, cd));
          ey = ey + (d sdiv 146097) * 400;
          d = d smod 146097 + cd
      in if d > 0 then if d > 146097 then (ey + 400, d - 146097) else (ey, d)
         else if d > - 365 then (ey - 1, d + days_per_year (ey - 1) m)
         else (ey - 400, d + 146097))"

definition n_day_years :: "int \<Rightarrow> int \<Rightarrow> int \<Rightarrow> int \<times> int" where
  "n_day_years ey m d =
     (if d > 365
      then let (ey, yi, d) = century_loop ey (year_index ey m) d;
               (ey, yi, d) = four_year_loop ey yi d
           in year_loop ey m d
      else (ey, d))"

definition n_day_months :: "int \<Rightarrow> int \<Rightarrow> int \<Rightarrow> int \<times> int \<times> int" where
  "n_day_months ey m d = (if d > 28 then month_loop ey m d else (ey, m, d))"

definition n_day :: "int \<Rightarrow> int \<Rightarrow> int \<Rightarrow> int \<Rightarrow> int \<Rightarrow> int \<Rightarrow> int \<Rightarrow> civil_fields" where
  "n_day y m d cd hh mm ss =
     (let oey = y smod 400;
          (ey, d) = n_day_cycles oey m d cd;
          (ey, d) = n_day_years ey m d;
          (ey, m, d) = n_day_months ey m d
      in mk_fields (y + (ey - oey)) m d hh mm ss)"

definition n_mon :: "int \<Rightarrow> int \<Rightarrow> int \<Rightarrow> int \<Rightarrow> int \<Rightarrow> int \<Rightarrow> int \<Rightarrow> civil_fields" where
  "n_mon y m d cd hh mm ss =
     (let (y, m) =
        (if m \<noteq> 12
         then let y = y + m sdiv 12; m = m smod 12 in if m \<le> 0 then (y - 1, m + 12) else (y, m)
         else (y, m))
      in n_day y m d cd hh mm ss)"

definition n_hour :: "int \<Rightarrow> int \<Rightarrow> int \<Rightarrow> int \<Rightarrow> int \<Rightarrow> int \<Rightarrow> int \<Rightarrow> civil_fields" where
  "n_hour y m d cd hh mm ss =
     (let cd = cd + hh sdiv 24; hh = hh smod 24;
          (cd, hh) = (if hh < 0 then (cd - 1, hh + 24) else (cd, hh))
      in n_mon y m d cd hh mm ss)"

definition n_min :: "int \<Rightarrow> int \<Rightarrow> int \<Rightarrow> int \<Rightarrow> int \<Rightarrow> int \<Rightarrow> int \<Rightarrow> civil_fields" where
  "n_min y m d hh ch mm ss =
     (let ch = ch + mm sdiv 60; mm = mm smod 60;
          (ch, mm) = (if mm < 0 then (ch - 1, mm + 60) else (ch, mm))
      in n_hour y m d (hh sdiv 24 + ch sdiv 24) (hh smod 24 + ch smod 24) mm ss)"

definition n_sec :: "int \<Rightarrow> int \<Rightarrow> int \<Rightarrow> int \<Rightarrow> int \<Rightarrow> int \<Rightarrow> civil_fields" where
  "n_sec y m d hh mm ss =
     (if 0 \<le> ss \<and> ss < 60
      then if 0 \<le> mm \<and> mm < 60
           then if 0 \<le> hh \<and> hh < 24
                then if 1 \<le> d \<and> d \<le> 28 \<and> 1 \<le> m \<and> m \<le> 12
                     then mk_fields y m d hh mm ss
                     else n_mon y m d 0 hh mm ss
                else n_hour y m d (hh sdiv 24) (hh smod 24) mm ss
           else n_min y m d hh (mm sdiv 60) (mm smod 60) ss
      else let cm = ss sdiv 60; ss = ss smod 60;
               (cm, ss) = (if ss < 0 then (cm - 1, ss + 60) else (cm, ss))
           in n_min y m d hh (mm sdiv 60 + cm sdiv 60) (mm smod 60 + cm smod 60) ss)"

section \<open>Stepping, differences, alignment\<close>

fun step :: "civil_tag \<Rightarrow> civil_fields \<Rightarrow> int \<Rightarrow> civil_fields" where
  "step second_tag f n = n_sec (f_y f) (f_m f) (f_d f) (f_hh f) (f_mm f + n sdiv 60) (f_ss f + n smod 60)"
| "step minute_tag f n = n_min (f_y f) (f_m f) (f_d f) (f_hh f + n sdiv 60) 0 (f_mm f + n smod 60) (f_ss f)"
| "step hour_tag f n = n_hour (f_y f) (f_m f) (f_d f + n sdiv 24) 0 (f_hh f + n smod 24) (f_mm f) (f_ss f)"
| "step day_tag f n = n_day (f_y f) (f_m f) (f_d f) n (f_hh f) (f_mm f) (f_ss f)"
| "step month_tag f n = n_mon (f_y f + n sdiv 12) (f_m f + n smod 12) (f_d f) 0 (f_hh f) (f_mm f) (f_ss f)"
| "step year_tag f n = mk_fields (f_y f + n) (f_m f) (f_d f) (f_hh f) (f_mm f) (f_ss f)"

definition scale_add :: "int \<Rightarrow> int \<Rightarrow> int \<Rightarrow> int" where
  "scale_add v f a = (if v < 0 then ((v + 1) * f + a) - f else ((v - 1) * f + a) + f)"

definition ymd_ord :: "int \<Rightarrow> int \<Rightarrow> int \<Rightarrow> int" where
  "ymd_ord y m d =
     (let eyear = (if m \<le> 2 then y - 1 else y);
          era = (if eyear \<ge> 0 then eyear else eyear - 399) sdiv 400;
          yoe = eyear - era * 400;
          doy = (153 * (m + (if m > 2 then - 3 else 9)) + 2) sdiv 5 + d - 1;
          doe = yoe * 365 + yoe sdiv 4 - yoe sdiv 100 + doy
      in era * 146097 + doe - 719468)"

definition day_difference :: "int \<Rightarrow> int \<Rightarrow> int \<Rightarrow> int \<Rightarrow> int \<Rightarrow> int \<Rightarrow> int" where
  "day_difference y1 m1 d1 y2 m2 d2 =
     (let a_c4_off = y1 smod 400; b_c4_off = y2 smod 400;
          c4_diff = (y1 - a_c4_off) - (y2 - b_c4_off);
          delta = ymd_ord a_c4_off m1 d1 - ymd_ord b_c4_off m2 d2;
          (delta, c4_diff) =
            (if c4_diff > 0 \<and> delta < 0 then (delta + 2 * 146097, c4_diff - 2 * 400)
             else if c4_diff < 0 \<and> delta > 0 then (delta - 2 * 146097, c4_diff + 2 * 400)
             else (delta, c4_diff))
      in (c4_diff sdiv 400 * 146097) + delta)"

function difference :: "civil_tag \<Rightarrow> civil_fields \<Rightarrow> civil_fields \<Rightarrow> int" where
  "difference year_tag f1 f2 = f_y f1 - f_y f2"
| "difference month_tag f1 f2 = scale_add (difference year_tag f1 f2) 12 (f_m f1 - f_m f2)"
| "difference day_tag f1 f2 = day_difference (f_y f1) (f_m f1) (f_d f1) (f_y f2) (f_m f2) (f_d f2)"
| "difference hour_tag f1 f2 = scale_add (difference day_tag f1 f2) 24 (f_hh f1 - f_hh f2)"
| "difference minute_tag f1 f2 = scale_add (difference hour_tag f1 f2) 60 (f_mm f1 - f_mm f2)"
| "difference second_tag f1 f2 = scale_add (difference minute_tag f1 f2) 60 (f_ss f1 - f_ss f2)"
  by pat_completeness auto
termination
  by (relation "measure (\<lambda>(t, f1, f2). case t of second_tag \<Rightarrow> 3 | minute_tag \<Rightarrow> 2 | hour_tag \<Rightarrow> 1
        | day_tag \<Rightarrow> 0 | month_tag \<Rightarrow> 1 | year_tag \<Rightarrow> 0)") auto

fun align :: "civil_tag \<Rightarrow> civil_fields \<Rightarrow> civil_fields" where
  "align second_tag f = f"
| "align minute_tag f = mk_fields (f_y f) (f_m f) (f_d f) (f_hh f) (f_mm f) 0"
| "align hour_tag f = mk_fields (f_y f) (f_m f) (f_d f) (f_hh f) 0 0"
| "align day_tag f = mk_fields (f_y f) (f_m f) (f_d f) 0 0 0"
| "align month_tag f = mk_fields (f_y f) (f_m f) 1 0 0 0"
| "align year_tag f = mk_fields (f_y f) 1 1 0 0 0"

section \<open>The civil time classes\<close>

definition civil_make :: "civil_tag \<Rightarrow> int \<Rightarrow> int \<Rightarrow> int \<Rightarrow> int \<Rightarrow> int \<Rightarrow> int \<Rightarrow> civil_fields" where
  "civil_make t y m d hh mm ss = align t (n_sec y m d hh mm ss)"

definition civil_default :: civil_fields where
  "civil_default = mk_fields 1970 1 1 0 0 0"

definition civil_convert :: "civil_tag \<Rightarrow> civil_fields \<Rightarrow> civil_fields" where
  "civil_convert t f = align t f"

definition civil_max :: "civil_tag \<Rightarrow> civil_fields" where
  "civil_max t = civil_make t (2 ^ 63 - 1) 12 31 23 59 59"

definition civil_min :: "civil_tag \<Rightarrow> civil_fields" where
  "civil_min t = civil_make t (- (2 ^ 63)) 1 1 0 0 0"

definition civil_plus :: "civil_tag \<Rightarrow> civil_fields \<Rightarrow> int \<Rightarrow> civil_fields" where
  "civil_plus t a n = align t (step t a n)"

definition civil_minus :: "civil_tag \<Rightarrow> civil_fields \<Rightarrow> int \<Rightarrow> civil_fields" where
  "civil_minus t a n =
     (if n \<noteq> - (2 ^ 63) then align t (step t a (- n))
      else align t (step t (step t a (- (n + 1))) 1))"

definition civil_incr :: "civil_tag \<Rightarrow> civil_fields \<Rightarrow> civil_fields" where
  "civil_incr t a = civil_plus t a 1"

definition civil_decr :: "civil_tag \<Rightarrow> civil_fields \<Rightarrow> civil_fields" where
  "civil_decr t a = civil_minus t a 1"

definition civil_diff :: "civil_tag \<Rightarrow> civil_fields \<Rightarrow> civil_fields \<Rightarrow> int" where
  "civil_diff t lhs rhs = difference t lhs rhs"

definition civil_less :: "civil_fields \<Rightarrow> civil_fields \<Rightarrow> bool" where
  "civil_less lhs rhs \<longleftrightarrow>
     f_y lhs < f_y rhs \<or>
     (f_y lhs = f_y rhs \<and>
      (f_m lhs < f_m rhs \<or>
       (f_m lhs = f_m rhs \<and>
        (f_d lhs < f_d rhs \<or> (f_d lhs = f_d rhs \<and>
         (f_hh lhs < f_hh rhs \<or>
          (f_hh lhs = f_hh rhs \<and>
           (f_mm lhs < f_mm rhs \<or>
            (f_mm lhs = f_mm rhs \<and>
             (f_ss lhs < f_ss rhs))))))))))"

definition civil_le :: "civil_fields \<Rightarrow> civil_fields \<Rightarrow> bool" where
  "civil_le lhs rhs \<longleftrightarrow> \<not> civil_less rhs lhs"

definition civil_ge :: "civil_fields \<Rightarrow> civil_fields \<Rightarrow> bool" where
  "civil_ge lhs rhs \<longleftrightarrow> \<not> civil_less lhs rhs"

definition civil_greater :: "civil_fields \<Rightarrow> civil_fields \<Rightarrow> bool" where
  "civil_greater lhs rhs \<longleftrightarrow> civil_less rhs lhs"

definition civil_eq :: "civil_fields \<Rightarrow> civil_fields \<Rightarrow> bool" where
  "civil_eq lhs rhs \<longleftrightarrow> f_y lhs = f_y rhs \<and> f_m lhs = f_m rhs \<and> f_d lhs = f_d rhs \<and>
     f_hh lhs = f_hh rhs \<and> f_mm lhs = f_mm rhs \<and> f_ss lhs = f_ss rhs"

definition civil_ne :: "civil_fields \<Rightarrow> civil_fields \<Rightarrow> bool" where
  "civil_ne lhs rhs \<longleftrightarrow> \<not> civil_eq lhs rhs"

section \<open>Weekdays and days of the year\<close>

datatype weekday = monday | tuesday | wednesday | thursday | friday | saturday | sunday

definition k_weekday_by_mon_off :: "weekday list" where
  "k_weekday_by_mon_off = [monday, tuesday, wednesday, thursday, friday, saturday, sunday,
     monday, tuesday, wednesday, thursday, friday, saturday]"

definition k_weekday_offsets :: "int list" where
  "k_weekday_offsets = [- 1, 0, 3, 2, 5, 0, 3, 5, 1, 4, 6, 2, 4]"

definition get_weekday :: "civil_fields \<Rightarrow> weekday" where
  "get_weekday cs =
     (let wd = 2400 + (f_y cs smod 400) - (if f_m cs < 3 then 1 else 0);
          wd = wd + (wd sdiv 4 - wd sdiv 100 + wd sdiv 400);
          wd = wd + (k_weekday_offsets ! nat (f_m cs) + f_d cs)
      in k_weekday_by_mon_off ! nat (wd smod 7 + 6))"

text \<open>The search loops over the tables; \<open>None\<close> is a read behind the end of a table.\<close>

function scan_table :: "weekday list \<Rightarrow> weekday \<Rightarrow> nat \<Rightarrow> nat option" where
  "scan_table tbl w i =
     (if i < length tbl then if w = tbl ! i then Some i else scan_table tbl w (i + 1) else None)"
  by pat_completeness auto
termination
  by (relation "measure (\<lambda>(tbl, w, i). length tbl - i)") auto

definition k_weekdays_forw :: "weekday list" where
  "k_weekdays_forw = [monday, tuesday, wednesday, thursday, friday, saturday, sunday,
     monday, tuesday, wednesday, thursday, friday, saturday, sunday]"

definition k_weekdays_back :: "weekday list" where
  "k_weekdays_back = [sunday, saturday, friday, thursday, wednesday, tuesday, monday,
     sunday, saturday, friday, thursday, wednesday, tuesday, monday]"

definition next_weekday :: "civil_fields \<Rightarrow> weekday \<Rightarrow> civil_fields option" where
  "next_weekday cd wd =
     (case scan_table k_weekdays_forw (get_weekday cd) 0 of None \<Rightarrow> None
      | Some i \<Rightarrow> (case scan_table k_weekdays_forw wd (i + 1) of None \<Rightarrow> None
         | Some j \<Rightarrow> Some (civil_plus day_tag cd (int j - int i))))"

definition prev_weekday :: "civil_fields \<Rightarrow> weekday \<Rightarrow> civil_fields option" where
  "prev_weekday cd wd =
     (case scan_table k_weekdays_back (get_weekday cd) 0 of None \<Rightarrow> None
      | Some i \<Rightarrow> (case scan_table k_weekdays_back wd (i + 1) of None \<Rightarrow> None
         | Some j \<Rightarrow> Some (civil_minus day_tag cd (int j - int i))))"

definition k_month_offsets :: "int list" where
  "k_month_offsets = [- 1, 0, 31, 59, 90, 120, 151, 181, 212, 243, 273, 304, 334]"

definition get_yearday :: "civil_fields \<Rightarrow> int" where
  "get_yearday cs =
     (let feb29 = (if f_m cs > 2 \<and> is_leap_year (f_y cs) then 1 else 0)
      in k_month_offsets ! nat (f_m cs) + feb29 + f_d cs)"

end
