(* ===== verification/Civil_Calendar.thy ===== *)
theory Civil_Calendar
  imports Civil_Time
begin

text \<open>
  Correctness of civil time arithmetic against a linear day count of the proleptic Gregorian
  calendar.
\<close>

section \<open>Truncating division\<close>

lemma sdiv_pos: "0 < c \<Longrightarrow> 0 \<le> k \<Longrightarrow> k sdiv c = k div (c :: int)"
  by (cases "k = 0") (auto simp: signed_divide_int_def)

lemma smod_pos: "0 < c \<Longrightarrow> 0 \<le> k \<Longrightarrow> k smod c = k mod (c :: int)"
  by (cases "k = 0") (auto simp: signed_modulo_int_def)

lemma sdiv_neg: "0 < c \<Longrightarrow> k < 0 \<Longrightarrow> k sdiv c = - ((- k) div (c :: int))"
  by (simp add: signed_divide_int_def)

lemma smod_neg: "0 < c \<Longrightarrow> k < 0 \<Longrightarrow> k smod c = - ((- k) mod (c :: int))"
  by (simp add: signed_modulo_int_def)

lemma sdiv_smod: "0 < c \<Longrightarrow> k sdiv c * c + k smod c = (k :: int)"
proof (cases "0 \<le> k")
  case False
  assume "0 < c"
  then have "k sdiv c = - ((- k) div c)" "k smod c = - ((- k) mod c)"
    using False by (simp_all add: sdiv_neg smod_neg)
  moreover have "- a * c + - b = k" if "a * c + b = - k" for a b using that by linarith
  ultimately show ?thesis using div_mult_mod_eq [of "- k" c] by metis
qed (simp add: sdiv_pos smod_pos)

lemma smod_bounds:
  assumes "0 < (c :: int)"
  shows "- c < k smod c \<and> k smod c < c"
proof -
  have "0 \<le> k mod c" "k mod c < c" "0 \<le> (- k) mod c" "(- k) mod c < c" using assms by simp_all
  then show ?thesis
    using smod_pos [OF assms, of k] smod_neg [OF assms, of k] assms by (cases "0 \<le> k") linarith+
qed

text \<open>A quotient and remainder, corrected when the remainder is negative, are those of floor division.\<close>

lemma smod_fix:
  assumes "0 < (c :: int)"
  shows "(if k smod c < 0 then (k sdiv c - 1, k smod c + c) else (k sdiv c, k smod c)) = (k div c, k mod c)"
proof -
  let ?q = "if k smod c < 0 then k sdiv c - 1 else k sdiv c" and ?r = "if k smod c < 0 then k smod c + c else k smod c"
  have "k = c * ?q + ?r" using sdiv_smod [OF assms, of k] by (simp add: algebra_simps)
  moreover have "0 \<le> ?r" "?r < c" using smod_bounds [OF assms, of k] by auto
  ultimately have "k div c = ?q" "k mod c = ?r"
    by (rule int_div_pos_eq, rule int_mod_pos_eq)
  then show ?thesis by simp
qed

lemma smod_zero_iff: "0 < (c :: int) \<Longrightarrow> k smod c = 0 \<longleftrightarrow> k mod c = 0"
  using smod_fix [of c k] smod_bounds [of c k] by (auto split: if_splits)

section \<open>The day count\<close>

text \<open>Leap years before year \<open>z\<close> (relative to year 1), and the days before month \<open>m\<close> in a common year.\<close>

definition leaps_before :: "int \<Rightarrow> int" where
  "leaps_before z = (z - 1) div 4 - (z - 1) div 100 + (z - 1) div 400"

definition days_before_month :: "int \<Rightarrow> int" where
  "days_before_month m = [0, 0, 31, 59, 90, 120, 151, 181, 212, 243, 273, 304, 334] ! nat m"

text \<open>The day count of the day before the first day of month \<open>m\<close> of year \<open>y\<close>.\<close>

definition month_start :: "int \<Rightarrow> int \<Rightarrow> int" where
  "month_start y m = 365 * y + leaps_before (y + (if m > 2 then 1 else 0)) + days_before_month m"

lemma is_leap_year_mod: "is_leap_year y \<longleftrightarrow> y mod 4 = 0 \<and> (y mod 100 \<noteq> 0 \<or> y mod 400 = 0)"
  by (simp add: is_leap_year_def smod_zero_iff)

lemma leaps_before_period: "leaps_before (z + 400 * k) = leaps_before z + 97 * k"
proof -
  have "(z + 400 * k - 1) div 4 = 100 * k + (z - 1) div 4" "(z + 400 * k - 1) div 100 = 4 * k + (z - 1) div 100"
    "(z + 400 * k - 1) div 400 = k + (z - 1) div 400"
    using div_mult_self1 [of 4 "z - 1" "100 * k"] div_mult_self1 [of 100 "z - 1" "4 * k"]
      div_mult_self1 [of 400 "z - 1" k] by (simp_all add: algebra_simps)
  then show ?thesis by (simp add: leaps_before_def)
qed

lemma month_start_period: "month_start (y + 400 * k) m = month_start y m + 146097 * k"
  using leaps_before_period [of "y + (if m > 2 then 1 else 0)" k] by (simp add: month_start_def algebra_simps)

lemma leaps_before_mod: "leaps_before (z + n) - leaps_before z = leaps_before (z mod 400 + n) - leaps_before (z mod 400)"
proof -
  have "z = z mod 400 + 400 * (z div 400)" by simp
  then show ?thesis
    using leaps_before_period [of "z mod 400 + n" "z div 400"] leaps_before_period [of "z mod 400" "z div 400"]
    by (simp add: algebra_simps)
qed

lemma div_jump:
  assumes "0 < n" "n \<le> (c :: int)"
  shows "(z + n - 1) div c - (z - 1) div c = (if (z + n - 1) mod c < n then 1 else 0)"
proof -
  define q r where "q = (z + n - 1) div c" and "r = (z + n - 1) mod c"
  have w: "z + n - 1 = c * q + r" and r: "0 \<le> r" "r < c"
    using assms by (simp_all add: q_def r_def)
  have "(z - 1) div c = (if r < n then q - 1 else q)"
  proof (rule int_div_pos_eq)
    show "z - 1 = c * (if r < n then q - 1 else q) + (if r < n then r - n + c else r - n)"
      using w by (simp add: right_diff_distrib)
  qed (use r assms in auto)
  then show ?thesis by (simp flip: q_def r_def)
qed

lemma leaps_jump:
  assumes "0 < n" "n \<le> 100" "(z + n - 1) div 4 - (z - 1) div 4 = k"
  shows "leaps_before (z + n) = leaps_before z + k
    - (if (z + n - 1) mod 100 < n then 1 else 0) + (if (z + n - 1) mod 400 < n then 1 else 0)"
proof -
  have "n \<le> 400" using assms(2) by simp
  from div_jump [OF assms(1,2), of z] div_jump [OF assms(1) this, of z] assms(3) show ?thesis
    unfolding leaps_before_def by linarith
qed

lemma leaps_1: "leaps_before (z + 1) = leaps_before z + (if is_leap_year z then 1 else 0)"
proof -
  have small: "z mod c < 1 \<longleftrightarrow> z mod c = 0" if "0 < c" for c :: int
    using pos_mod_sign [OF that, of z] by linarith
  have sub: "z mod 100 = 0 \<longrightarrow> z mod 4 = 0" "z mod 400 = 0 \<longrightarrow> z mod 100 = 0" by presburger+
  have "(z + 1 - 1) div 4 - (z - 1) div 4 = (if z mod 4 = 0 then 1 else 0)"
    using div_jump [of 1 4 z] small [of 4] by simp
  from leaps_jump [OF _ _ this]
  have "leaps_before (z + 1) = leaps_before z + (if z mod 4 = 0 then 1 else 0)
      - (if z mod 100 = 0 then 1 else 0) + (if z mod 400 = 0 then 1 else 0)"
    using small [of 100] small [of 400] by simp
  then show ?thesis unfolding is_leap_year_mod using sub by presburger
qed

lemma mod_400_shift: "(z + n) mod 400 = (z mod 400 + n) mod 400" "(z + n) mod 100 = (z mod 400 + n) mod (100 :: int)"
proof -
  show "(z + n) mod 400 = (z mod 400 + n) mod 400" by (simp add: mod_add_left_eq)
  have "(z mod 400) mod 100 = z mod 100" by (simp add: mod_mod_cancel)
  then show "(z + n) mod 100 = (z mod 400 + n) mod 100" by (metis mod_add_left_eq)
qed

lemma mod_carry:
  assumes "0 \<le> t" "t < c" "0 \<le> a" "a \<le> (c :: int)"
  shows "(t + a) mod c = (if t + a < c then t + a else t + a - c)"
  using assms mod_pos_pos_trivial [of "t + a" c] mod_pos_pos_trivial [of "t + a - c" c] minus_mod_self2 [of "t + a" c]
  by auto

lemma leaps_4: "leaps_before (z + 4) = leaps_before z + (days_per_4years (z mod 400) - 1460)"
proof -
  define r where "r = z mod 400"
  have r: "0 \<le> r" "r < 400" by (simp_all add: r_def)
  have s: "r \<noteq> 0 \<longrightarrow> (r - 1) smod 100 = (r - 1) mod 100" using r smod_pos [of 100 "r - 1"] by linarith
  have m: "(z + 4 - 1) mod 100 = (r + 3) mod 100" "(z + 4 - 1) mod 400 = (r + 3) mod 400"
    using mod_400_shift [of z 3] by (simp_all add: r_def add.commute)
  define q t where "q = r div 100" and "t = r mod 100"
  have t: "r = 100 * q + t" "0 \<le> t" "t < 100" by (simp_all add: q_def t_def)
  have t3: "(r + 3) mod 100 = (if t + 3 < 100 then t + 3 else t + 3 - 100)"
    using mod_carry [of t 100 3] t mod_mult_self4 [of 100 q "t + 3"] by (simp add: add.assoc)
  have t1: "(r - 1) mod 100 = (if t = 0 then 99 else t - 1)"
  proof -
    have "r - 1 = 100 * (q - 1) + (t + 99)" using t(1) by simp
    then have "(r - 1) mod 100 = (t + 99) mod 100" by (metis mod_mult_self4)
    then show ?thesis using mod_carry [of t 100 99] t by auto
  qed
  have r3: "(r + 3) mod 400 = (if r + 3 < 400 then r + 3 else r + 3 - 400)"
    using mod_carry [of r 400 3] r by simp
  have m100: "(r + 3) mod 100 < 4 \<longleftrightarrow> r = 0 \<or> 96 \<le> (r - 1) mod 100"
    and m400: "(r + 3) mod 400 < 4 \<longleftrightarrow> r = 0 \<or> 396 < r"
    and late: "300 < r \<and> r \<le> 396 \<longrightarrow> (r - 1) mod 100 < 96" "396 < r \<longrightarrow> 96 \<le> (r - 1) mod 100"
  proof -
    have q3: "q = 3" if "300 < r"
    proof -
      have "q > 2" "q < 4" using that t r by linarith+
      then show ?thesis by simp
    qed
    have r0: "t = 0" if "r = 0" using that by (simp add: t_def)
    show "(r + 3) mod 100 < 4 \<longleftrightarrow> r = 0 \<or> 96 \<le> (r - 1) mod 100"
      unfolding t3 t1 using t r0 by auto
    show "(r + 3) mod 400 < 4 \<longleftrightarrow> r = 0 \<or> 396 < r" unfolding r3 using r by auto
    show "300 < r \<and> r \<le> 396 \<longrightarrow> (r - 1) mod 100 < 96" "396 < r \<longrightarrow> 96 \<le> (r - 1) mod 100"
    proof -
      have "300 < r \<Longrightarrow> t = r - 300" using q3 t(1) by simp
      then show "300 < r \<and> r \<le> 396 \<longrightarrow> (r - 1) mod 100 < 96" "396 < r \<longrightarrow> 96 \<le> (r - 1) mod 100"
        unfolding t1 by auto
    qed
  qed
  have "(z + 4 - 1) div 4 - (z - 1) div 4 = 1" by presburger
  from leaps_jump [OF _ _ this]
  have "leaps_before (z + 4) = leaps_before z + 1 - (if r = 0 \<or> 96 \<le> (r - 1) mod 100 then 1 else 0)
      + (if r = 0 \<or> 396 < r then 1 else 0)"
    unfolding m m100 m400 by simp
  moreover have "days_per_4years r = 1460 + (if r = 0 \<or> 300 < r \<or> (r - 1) mod 100 < 96 then 1 else 0)"
    unfolding days_per_4years_def using s by (cases "r = 0") simp_all
  ultimately show ?thesis
    unfolding r_def [symmetric] using late by (cases "r = 0"; cases "300 < r"; cases "396 < r") auto
qed

lemma leaps_100: "leaps_before (z + 100) = leaps_before z + (days_per_century (z mod 400) - 36500)"
proof -
  define r where "r = z mod 400"
  have r: "0 \<le> r" "r < 400" by (simp_all add: r_def)
  have m: "(z + 100 - 1) mod 400 = (r + 99) mod 400" using mod_400_shift [of z 99] by (simp add: r_def add.commute)
  have m400: "(r + 99) mod 400 < 100 \<longleftrightarrow> r = 0 \<or> r > 300"
    using mod_carry [of r 400 99] r by auto
  have "(z + 100 - 1) div 4 - (z - 1) div 4 = 25" by presburger
  from leaps_jump [OF _ _ this] show ?thesis
    unfolding m m400 days_per_century_def r_def [symmetric] by simp
qed

text \<open>The step widths of the loops are differences of the day count.\<close>

lemma month_start_year: "month_start (y + 1) m = month_start y m + days_per_year y m"
  using leaps_1 [of "y + (if m > 2 then 1 else 0)"] by (simp add: month_start_def days_per_year_def algebra_simps)

lemma year_index_mod: "year_index y m = (y + (if m > 2 then 1 else 0)) mod 400"
  using smod_fix [of 400 "y + (if m > 2 then 1 else 0)"] by (simp add: year_index_def Let_def split: if_splits)

lemma month_start_4: "month_start (y + 4) m = month_start y m + days_per_4years (year_index y m)"
  using leaps_4 [of "y + (if m > 2 then 1 else 0)"] by (simp add: month_start_def year_index_mod algebra_simps)

lemma month_start_100: "month_start (y + 100) m = month_start y m + days_per_century (year_index y m)"
  using leaps_100 [of "y + (if m > 2 then 1 else 0)"] by (simp add: month_start_def year_index_mod algebra_simps)

lemma month_start_month:
  assumes "1 \<le> m" "m \<le> 12"
  shows "month_start (if m = 12 then y + 1 else y) (if m = 12 then 1 else m + 1) = month_start y m + days_per_month y m"
  using month_cases [OF assms] leaps_1 [of y]
  by (elim insertE emptyE) (simp_all add: month_start_def days_before_month_def days_per_month_def k_days_per_month_def)

section \<open>The loops\<close>

lemma year_index_add:
  "(let yi' = year_index y m + 100 in if yi' \<ge> 400 then yi' - 400 else yi') = year_index (y + 100) m"
  "(let yi' = year_index y m + 4 in if yi' \<ge> 400 then yi' - 400 else yi') = year_index (y + 4) m"
proof -
  have r: "0 \<le> z mod 400" "z mod 400 < 400" for z :: int by simp_all
  have "(z mod 400 + n \<ge> 400 \<longrightarrow> z mod 400 + n - 400 = (z + n) mod 400) \<and>
      (\<not> z mod 400 + n \<ge> 400 \<longrightarrow> z mod 400 + n = (z + n) mod 400)" if "0 \<le> n" "n \<le> 400" for z n :: int
    using mod_carry [OF r that, of z] mod_400_shift(1) [of z n] by simp
  from this [of 100 "y + (if m > 2 then 1 else 0)"] this [of 4 "y + (if m > 2 then 1 else 0)"]
  show "(let yi' = year_index y m + 100 in if yi' \<ge> 400 then yi' - 400 else yi') = year_index (y + 100) m"
    "(let yi' = year_index y m + 4 in if yi' \<ge> 400 then yi' - 400 else yi') = year_index (y + 4) m"
    unfolding year_index_mod Let_def by (simp_all add: add.commute add.left_commute)
qed

lemma century_loop_correct:
  "0 < d \<Longrightarrow> century_loop ey (year_index ey m) d = (ey', yi', d') \<Longrightarrow>
     0 < d' \<and> yi' = year_index ey' m \<and> month_start ey' m + d' = month_start ey m + d"
proof (induction "nat d" arbitrary: ey d rule: less_induct)
  case less
  let ?n = "days_per_century (year_index ey m)"
  have n: "0 < ?n" by (simp add: days_per_century_def)
  show ?case
  proof (cases "d \<le> ?n")
    case True
    then show ?thesis using less.prems by (auto simp: century_loop.simps [of ey])
  next
    case False
    then have "century_loop (ey + 100) (year_index (ey + 100) m) (d - ?n) = (ey', yi', d')"
      using less.prems(2) unfolding century_loop.simps [of ey] year_index_add by (simp add: Let_def)
    from less.hyps [OF _ _ this] show ?thesis
      using False n month_start_100 [of ey m] by simp
  qed
qed

lemma four_year_loop_correct:
  "0 < d \<Longrightarrow> four_year_loop ey (year_index ey m) d = (ey', yi', d') \<Longrightarrow>
     0 < d' \<and> month_start ey' m + d' = month_start ey m + d"
proof (induction "nat d" arbitrary: ey d rule: less_induct)
  case less
  let ?n = "days_per_4years (year_index ey m)"
  have n: "0 < ?n" by (simp add: days_per_4years_def)
  show ?case
  proof (cases "d \<le> ?n")
    case True
    then show ?thesis using less.prems by (auto simp: four_year_loop.simps [of ey])
  next
    case False
    then have "four_year_loop (ey + 4) (year_index (ey + 4) m) (d - ?n) = (ey', yi', d')"
      using less.prems(2) unfolding four_year_loop.simps [of ey] year_index_add by (simp add: Let_def)
    from less.hyps [OF _ _ this] show ?thesis
      using False n month_start_4 [of ey m] by simp
  qed
qed

lemma year_loop_correct:
  "0 < d \<Longrightarrow> year_loop ey m d = (ey', d') \<Longrightarrow> 0 < d' \<and> month_start ey' m + d' = month_start ey m + d"
proof (induction ey m d rule: year_loop.induct)
  case (1 ey m d)
  then show ?case
    using month_start_year [of ey m] by (subst (asm) (2) year_loop.simps) (auto simp: Let_def split: if_splits)
qed

lemma month_loop_correct:
  "0 < d \<Longrightarrow> 1 \<le> m \<Longrightarrow> m \<le> 12 \<Longrightarrow> month_loop ey m d = (ey', m', d') \<Longrightarrow>
     1 \<le> m' \<and> m' \<le> 12 \<and> 0 < d' \<and> d' \<le> days_per_month ey' m' \<and> month_start ey' m' + d' = month_start ey m + d"
proof (induction ey m d rule: month_loop.induct)
  case (1 ey m d)
  have n: "0 < days_per_month ey m" using days_per_month_pos [OF "1.prems"(2,3), of ey] by simp
  consider "d \<le> days_per_month ey m" | "d > days_per_month ey m" "m = 12" | "d > days_per_month ey m" "m < 12"
    using "1.prems"(3) by linarith
  then show ?case
  proof cases
    case 1
    then show ?thesis using "1.prems" by (simp add: month_loop.simps [of ey m d])
  next
    case 2
    then have "month_loop (ey + 1) 1 (d - days_per_month ey m) = (ey', m', d')"
      using "1.prems"(4) by (simp add: month_loop.simps [of ey 12 d])
    with "1.IH"(1) [OF refl] show ?thesis
      using 2 month_start_month [OF "1.prems"(2,3), of ey] by simp
  next
    case 3
    then have "month_loop ey (m + 1) (d - days_per_month ey m) = (ey', m', d')"
      using "1.prems"(4) by (simp add: month_loop.simps [of ey m d])
    with "1.IH"(2) [OF refl] show ?thesis
      using 3 "1.prems"(2) month_start_month [OF "1.prems"(2,3), of ey] by simp
  qed
qed

section \<open>Normalisation\<close>

lemma month_start_cycles: "month_start (y + k * 400) m = month_start y m + 146097 * k"
  using month_start_period [of y k m] by (simp add: mult.commute)

lemma n_day_cycles_correct:
  assumes "n_day_cycles oey m d cd = (ey', d')"
  shows "0 < d' \<and> month_start ey' m + d' = month_start oey m + d + cd"
proof -
  define q r where "q = cd div 146097" and "r = cd mod 146097"
  define p s where "p = d sdiv 146097" and "s = d smod 146097"
  have cd: "cd = 146097 * q + r" "0 \<le> r" "r < 146097" by (simp_all add: q_def r_def)
  have d: "d = p * 146097 + s" "- 146097 < s" "s < 146097"
    using sdiv_smod [of 146097 d] smod_bounds [of 146097 d] by (simp_all add: p_def s_def)
  have fix_cd: "(if cd smod 146097 < 0 then (cd sdiv 146097 - 1, cd smod 146097 + 146097)
      else (cd sdiv 146097, cd smod 146097)) = (q, r)"
    unfolding q_def r_def by (rule smod_fix) simp
  let ?ey = "oey + (q + p) * 400" and ?d = "s + r"
  have eq: "n_day_cycles oey m d cd =
      (if ?d > 0 then if ?d > 146097 then (?ey + 400, ?d - 146097) else (?ey, ?d)
       else if ?d > - 365 then (?ey - 1, ?d + days_per_year (?ey - 1) m)
       else (?ey - 400, ?d + 146097))"
    using fix_cd unfolding n_day_cycles_def p_def [symmetric] s_def [symmetric]
    by (cases "cd smod 146097 < 0") (simp_all add: algebra_simps Let_def)
  have total: "month_start ?ey m + ?d = month_start oey m + d + cd"
    using month_start_cycles [of oey "q + p" m] cd(1) d(1) by simp
  have "month_start (?ey + 400) m = month_start ?ey m + 146097"
    "month_start (?ey - 400) m = month_start ?ey m - 146097"
    "month_start (?ey - 1) m + days_per_year (?ey - 1) m = month_start ?ey m"
    using month_start_cycles [of ?ey 1 m] month_start_cycles [of ?ey "- 1" m] month_start_year [of "?ey - 1" m] by simp_all
  moreover have "365 \<le> days_per_year (?ey - 1) m" by (simp add: days_per_year_def)
  ultimately show ?thesis
    using assms total cd(2,3) d(2,3) unfolding eq by (auto split: if_splits)
qed

lemma n_day_years_correct:
  assumes "0 < d" "n_day_years ey m d = (ey', d')"
  shows "0 < d' \<and> month_start ey' m + d' = month_start ey m + d"
proof (cases "d > 365")
  case True
  obtain e1 y1 d1 where l1: "century_loop ey (year_index ey m) d = (e1, y1, d1)" by (metis prod_cases3)
  note c1 = century_loop_correct [OF assms(1) l1]
  obtain e2 y2 d2 where l2: "four_year_loop e1 y1 d1 = (e2, y2, d2)" by (metis prod_cases3)
  note c2 = four_year_loop_correct [of d1 e1 m e2 y2 d2]
  have "year_loop e2 m d2 = (ey', d')" using assms(2) True l1 l2 by (simp add: n_day_years_def)
  from year_loop_correct [OF _ this] show ?thesis using c1 c2 l2 by auto
qed (use assms in \<open>simp add: n_day_years_def\<close>)

definition valid_month :: "int \<Rightarrow> bool" where
  "valid_month m \<longleftrightarrow> 1 \<le> m \<and> m \<le> 12"

definition valid_date :: "civil_fields \<Rightarrow> bool" where
  "valid_date f \<longleftrightarrow> valid_month (f_m f) \<and> 1 \<le> f_d f \<and> f_d f \<le> days_per_month (f_y f) (f_m f)"

definition day_number :: "civil_fields \<Rightarrow> int" where
  "day_number f = month_start (f_y f) (f_m f) + f_d f"

lemma n_day_months_correct:
  assumes "0 < d" "valid_month m" "n_day_months ey m d = (ey', m', d')"
  shows "valid_month m' \<and> 0 < d' \<and> d' \<le> days_per_month ey' m' \<and> month_start ey' m' + d' = month_start ey m + d"
  using month_loop_correct [OF assms(1), of m ey] assms days_per_month_pos [of m ey]
  by (auto simp: n_day_months_def valid_month_def split: if_splits)

lemma days_per_month_period: "days_per_month (y + 400 * k) m = days_per_month y m"
proof -
  have "(y + 400 * k) mod 4 = y mod 4" "(y + 400 * k) mod 100 = y mod 100" "(y + 400 * k) mod 400 = y mod 400"
    using mod_mult_self2 [of y 4 "100 * k"] mod_mult_self2 [of y 100 "4 * k"] mod_mult_self2 [of y 400 k] by simp_all
  then have "is_leap_year (y + 400 * k) \<longleftrightarrow> is_leap_year y" by (simp add: is_leap_year_mod)
  then show ?thesis by (simp add: days_per_month_def)
qed

lemma n_day_correct:
  assumes "valid_month m"
  shows "valid_date (n_day y m d cd hh mm ss)"
    "day_number (n_day y m d cd hh mm ss) = month_start y m + d + cd"
    "f_hh (n_day y m d cd hh mm ss) = hh \<and> f_mm (n_day y m d cd hh mm ss) = mm \<and> f_ss (n_day y m d cd hh mm ss) = ss"
proof -
  obtain e1 d1 where s1: "n_day_cycles (y smod 400) m d cd = (e1, d1)" by fastforce
  obtain e2 d2 where s2: "n_day_years e1 m d1 = (e2, d2)" by fastforce
  obtain e3 m3 d3 where s3: "n_day_months e2 m d2 = (e3, m3, d3)" by (metis prod_cases3)
  note c1 = n_day_cycles_correct [OF s1]
  note c2 = n_day_years_correct [OF conjunct1 [OF c1] s2]
  note c3 = n_day_months_correct [OF conjunct1 [OF c2] assms s3]
  have eq: "n_day y m d cd hh mm ss = mk_fields (y + (e3 - y smod 400)) m3 d3 hh mm ss"
    using s1 s2 s3 by (simp add: n_day_def)
  have y: "y + (e3 - y smod 400) = e3 + 400 * (y sdiv 400)" "y = y smod 400 + 400 * (y sdiv 400)"
    using sdiv_smod [of 400 y] by simp_all
  have "month_start (e3 + 400 * (y sdiv 400)) m3 = month_start e3 m3 + 146097 * (y sdiv 400)"
    "month_start y m = month_start (y smod 400) m + 146097 * (y sdiv 400)"
    using month_start_period [of e3 "y sdiv 400" m3] month_start_period [of "y smod 400" "y sdiv 400" m] y(2) by simp_all
  then show "day_number (n_day y m d cd hh mm ss) = month_start y m + d + cd"
    using c1 c2 c3 unfolding eq day_number_def y(1) by (simp add: mk_fields_def)
  show "valid_date (n_day y m d cd hh mm ss)"
    using c3 days_per_month_period unfolding eq valid_date_def y(1) by (simp add: mk_fields_def)
  show "f_hh (n_day y m d cd hh mm ss) = hh \<and> f_mm (n_day y m d cd hh mm ss) = mm \<and> f_ss (n_day y m d cd hh mm ss) = ss"
    by (simp add: eq mk_fields_def)
qed

end
