(* ===== verification/Civil_Ops.thy ===== *)
theory Civil_Ops
  imports Civil_Calendar
begin

text \<open>
  The civil time classes against the linear count of their unit: construction, stepping,
  differences, comparison, weekdays.
\<close>

section \<open>Normalisation of all fields\<close>

definition valid_fields :: "civil_fields \<Rightarrow> bool" where
  "valid_fields f \<longleftrightarrow> valid_date f \<and> 0 \<le> f_hh f \<and> f_hh f < 24 \<and> 0 \<le> f_mm f \<and> f_mm f < 60 \<and>
     0 \<le> f_ss f \<and> f_ss f < 60"

definition hour_number :: "civil_fields \<Rightarrow> int" where
  "hour_number f = day_number f * 24 + f_hh f"

definition minute_number :: "civil_fields \<Rightarrow> int" where
  "minute_number f = hour_number f * 60 + f_mm f"

definition second_number :: "civil_fields \<Rightarrow> int" where
  "second_number f = minute_number f * 60 + f_ss f"

text \<open>The day before the first day of month number \<open>m\<close>, counted from January of year \<open>y\<close>, for any \<open>m\<close>.\<close>

definition any_month_start :: "int \<Rightarrow> int \<Rightarrow> int" where
  "any_month_start y m = month_start (y + (m - 1) div 12) ((m - 1) mod 12 + 1)"

lemma any_month_start_valid: "valid_month m \<Longrightarrow> any_month_start y m = month_start y m"
  by (simp add: any_month_start_def valid_month_def)

lemma n_mon_correct:
  "valid_date (n_mon y m d cd hh mm ss)"
  "day_number (n_mon y m d cd hh mm ss) = any_month_start y m + d + cd"
  "f_hh (n_mon y m d cd hh mm ss) = hh" "f_mm (n_mon y m d cd hh mm ss) = mm" "f_ss (n_mon y m d cd hh mm ss) = ss"
proof -
  define q r where "q = m sdiv 12" and "r = m smod 12"
  have m: "m = q * 12 + r" "- 12 < r" "r < 12"
    using sdiv_smod [of 12 m] smod_bounds [of 12 m] by (simp_all add: q_def r_def)
  have "(m - 1) div 12 = (if r \<le> 0 then q - 1 else q)"
    by (rule int_div_pos_eq [of _ _ _ "if r \<le> 0 then r + 11 else r - 1"]) (use m in auto)
  moreover have "(m - 1) mod 12 = (if r \<le> 0 then r + 11 else r - 1)"
    by (rule int_mod_pos_eq [of _ _ "if r \<le> 0 then q - 1 else q"]) (use m in auto)
  moreover have "n_mon y m d cd hh mm ss =
      n_day (if m = 12 then y else if r \<le> 0 then y + q - 1 else y + q)
        (if m = 12 then 12 else if r \<le> 0 then r + 12 else r) d cd hh mm ss"
    by (simp add: n_mon_def Let_def q_def r_def)
  moreover have "m = 12 \<Longrightarrow> q = 1 \<and> r = 0" by (simp add: q_def r_def sdiv_pos smod_pos)
  ultimately have eq: "n_mon y m d cd hh mm ss = n_day (y + (m - 1) div 12) ((m - 1) mod 12 + 1) d cd hh mm ss"
    by (cases "m = 12"; cases "r \<le> 0") (simp_all add: add_diff_eq add.commute)
  have v: "valid_month ((m - 1) mod 12 + 1)" by (simp add: valid_month_def)
  note n = n_day_correct [OF v, of "y + (m - 1) div 12" d cd hh mm ss]
  show "valid_date (n_mon y m d cd hh mm ss)" "day_number (n_mon y m d cd hh mm ss) = any_month_start y m + d + cd"
    "f_hh (n_mon y m d cd hh mm ss) = hh" "f_mm (n_mon y m d cd hh mm ss) = mm" "f_ss (n_mon y m d cd hh mm ss) = ss"
    using n unfolding eq any_month_start_def by simp_all
qed

lemma n_hour_correct:
  shows "valid_date (n_hour y m d cd hh mm ss)"
    "0 \<le> f_hh (n_hour y m d cd hh mm ss)" "f_hh (n_hour y m d cd hh mm ss) < 24"
    "hour_number (n_hour y m d cd hh mm ss) = (any_month_start y m + d + cd) * 24 + hh"
    "f_mm (n_hour y m d cd hh mm ss) = mm" "f_ss (n_hour y m d cd hh mm ss) = ss"
proof -
  have eq: "n_hour y m d cd hh mm ss = n_mon y m d (cd + hh div 24) (hh mod 24) mm ss"
    using smod_fix [of 24 hh] unfolding n_hour_def Let_def by (cases "hh smod 24 < 0") (simp_all add: algebra_simps)
  note n = n_mon_correct [of y m d "cd + hh div 24" "hh mod 24" mm ss]
  show "valid_date (n_hour y m d cd hh mm ss)" "0 \<le> f_hh (n_hour y m d cd hh mm ss)"
    "f_hh (n_hour y m d cd hh mm ss) < 24" "f_mm (n_hour y m d cd hh mm ss) = mm" "f_ss (n_hour y m d cd hh mm ss) = ss"
    using n unfolding eq by simp_all
  have "hour_number (n_hour y m d cd hh mm ss) = (any_month_start y m + d + cd) * 24 + (hh div 24 * 24 + hh mod 24)"
    using n unfolding eq hour_number_def by (simp add: algebra_simps)
  then show "hour_number (n_hour y m d cd hh mm ss) = (any_month_start y m + d + cd) * 24 + hh"
    by (simp only: div_mult_mod_eq)
qed

lemma n_min_correct:
  shows "valid_date (n_min y m d hh ch mm ss)" "0 \<le> f_hh (n_min y m d hh ch mm ss)"
    "f_hh (n_min y m d hh ch mm ss) < 24"
    "0 \<le> f_mm (n_min y m d hh ch mm ss)" "f_mm (n_min y m d hh ch mm ss) < 60"
    "minute_number (n_min y m d hh ch mm ss) = ((any_month_start y m + d) * 24 + hh + ch) * 60 + mm"
    "f_ss (n_min y m d hh ch mm ss) = ss"
proof -
  let ?ch = "ch + mm div 60"
  let ?c = "hh sdiv 24 + ?ch sdiv 24" and ?h = "hh smod 24 + ?ch smod 24"
  have eq: "n_min y m d hh ch mm ss = n_hour y m d ?c ?h (mm mod 60) ss"
    using smod_fix [of 60 mm] unfolding n_min_def Let_def by (cases "mm smod 60 < 0") (simp_all add: algebra_simps)
  note n = n_hour_correct [of y m d ?c ?h "mm mod 60" ss]
  show "valid_date (n_min y m d hh ch mm ss)" "0 \<le> f_hh (n_min y m d hh ch mm ss)"
    "f_hh (n_min y m d hh ch mm ss) < 24" "f_ss (n_min y m d hh ch mm ss) = ss"
    "0 \<le> f_mm (n_min y m d hh ch mm ss)" "f_mm (n_min y m d hh ch mm ss) < 60"
    using n unfolding eq by simp_all
  have "?c * 24 + ?h = hh + ?ch"
    using sdiv_smod [of 24 hh] sdiv_smod [of 24 ?ch] by (simp add: algebra_simps)
  then have "minute_number (n_min y m d hh ch mm ss) = ((any_month_start y m + d) * 24 + hh + ch) * 60 + (mm div 60 * 60 + mm mod 60)"
    using n(4,5) unfolding eq minute_number_def by (simp add: algebra_simps)
  then show "minute_number (n_min y m d hh ch mm ss) = ((any_month_start y m + d) * 24 + hh + ch) * 60 + mm"
    by (simp only: div_mult_mod_eq)
qed

lemma n_min_seconds:
  assumes "0 \<le> ss" "ss < 60"
  shows "valid_fields (n_min y m d hh ch mm ss)"
    "second_number (n_min y m d hh ch mm ss) = (((any_month_start y m + d) * 24 + hh + ch) * 60 + mm) * 60 + ss"
  using n_min_correct [of y m d hh ch mm ss] assms by (simp_all add: valid_fields_def second_number_def)

lemma n_sec_correct:
  shows "valid_fields (n_sec y m d hh mm ss)"
    "second_number (n_sec y m d hh mm ss) = (((any_month_start y m + d) * 24 + hh) * 60 + mm) * 60 + ss"
proof -
  have "valid_fields (n_sec y m d hh mm ss) \<and>
    second_number (n_sec y m d hh mm ss) = (((any_month_start y m + d) * 24 + hh) * 60 + mm) * 60 + ss"
  proof (cases "0 \<le> ss \<and> ss < 60")
    case s: True
    show ?thesis
    proof (cases "0 \<le> mm \<and> mm < 60")
      case mi: True
      show ?thesis
      proof (cases "0 \<le> hh \<and> hh < 24")
        case h: True
        show ?thesis
        proof (cases "1 \<le> d \<and> d \<le> 28 \<and> 1 \<le> m \<and> m \<le> 12")
          case True
          then have "valid_month m" by (simp add: valid_month_def)
          then show ?thesis
            using s mi h True days_per_month_pos [of m y] any_month_start_valid [of m y]
            by (simp add: n_sec_def mk_fields_def valid_fields_def valid_date_def second_number_def minute_number_def
                hour_number_def day_number_def)
        next
          case False
          then have "n_sec y m d hh mm ss = n_mon y m d 0 hh mm ss" using s mi h by (simp only: n_sec_def if_True if_False simp_thms)
          then show ?thesis
            using n_mon_correct [of y m d 0 hh mm ss] s mi h
            by (simp add: valid_fields_def second_number_def minute_number_def hour_number_def)
        qed
      next
        case False
        then have "n_sec y m d hh mm ss = n_hour y m d (hh sdiv 24) (hh smod 24) mm ss"
          using s mi by (simp only: n_sec_def if_True if_False simp_thms)
        then show ?thesis
          using n_hour_correct [of y m d "hh sdiv 24" "hh smod 24" mm ss] s mi sdiv_smod [of 24 hh]
          by (simp add: valid_fields_def second_number_def minute_number_def algebra_simps)
      qed
    next
      case False
      then have "n_sec y m d hh mm ss = n_min y m d hh (mm sdiv 60) (mm smod 60) ss"
        using s by (simp only: n_sec_def if_True if_False simp_thms)
      then show ?thesis
        using n_min_seconds [of ss y m d hh "mm sdiv 60" "mm smod 60"] s sdiv_smod [of 60 mm]
        by (simp add: algebra_simps)
    qed
  next
    case False
    let ?cm = "ss div 60"
    have "n_sec y m d hh mm ss = n_min y m d hh (mm sdiv 60 + ?cm sdiv 60) (mm smod 60 + ?cm smod 60) (ss mod 60)"
      using False smod_fix [of 60 ss] unfolding n_sec_def if_not_P [OF False] Let_def
      by (cases "ss smod 60 < 0") simp_all
    moreover have "0 \<le> ss mod 60" "ss mod 60 < 60" by simp_all
    note n = n_min_seconds [OF this, of y m d hh "mm sdiv 60 + ?cm sdiv 60" "mm smod 60 + ?cm smod 60"]
    have c: "((x + (a + b)) * 60 + (e + f)) * 60 + r = (x * 60 + i) * 60 + j"
      if "a * 60 + e = i" "b * 60 + f = k" "k * 60 + r = j" for x a b e f r i j k :: int
      unfolding that [symmetric] by (simp add: algebra_simps)
    have "mm sdiv 60 * 60 + mm smod 60 = mm" "?cm sdiv 60 * 60 + ?cm smod 60 = ?cm" "?cm * 60 + ss mod 60 = ss"
      by (simp_all only: sdiv_smod div_mult_mod_eq zero_less_numeral)
    from c [OF this] have "second_number (n_min y m d hh (mm sdiv 60 + ?cm sdiv 60) (mm smod 60 + ?cm smod 60) (ss mod 60))
        = (((any_month_start y m + d) * 24 + hh) * 60 + mm) * 60 + ss"
      unfolding n(2) .
    ultimately show ?thesis using n(1) by simp
  qed
  then show "valid_fields (n_sec y m d hh mm ss)"
    "second_number (n_sec y m d hh mm ss) = (((any_month_start y m + d) * 24 + hh) * 60 + mm) * 60 + ss" by auto
qed

section \<open>Month indices and the order of dates\<close>

definition month_index :: "civil_fields \<Rightarrow> int" where
  "month_index f = 12 * f_y f + f_m f - 1"

definition index_start :: "int \<Rightarrow> int" where
  "index_start k = month_start (k div 12) (k mod 12 + 1)"

lemma any_month_start_index: "any_month_start y m = index_start (12 * y + m - 1)"
proof -
  have "(m - 1 + 12 * y) div 12 = y + (m - 1) div 12" "(m - 1 + 12 * y) mod 12 = (m - 1) mod 12" by simp_all
  moreover have "m - 1 + 12 * y = 12 * y + m - 1" by simp
  ultimately show ?thesis by (simp add: any_month_start_def index_start_def)
qed

lemma month_carry:
  fixes k :: int
  shows "(k + 1) div 12 = (if k mod 12 = 11 then k div 12 + 1 else k div 12)"
    "(k + 1) mod 12 = (if k mod 12 = 11 then 0 else k mod 12 + 1)"
proof -
  define q r where "q = k div 12" "r = k mod 12"
  then have "k = 12 * q + r" "0 \<le> r" "r < 12" by simp_all
  then have "(12 * q + r + 1) div 12 = (if r = 11 then q + 1 else q)"
    "(12 * q + r + 1) mod 12 = (if r = 11 then 0 else r + 1)"
    by (auto intro: int_div_pos_eq int_mod_pos_eq [where q = q] int_mod_pos_eq [where q = "q + 1"])
  then show "(k + 1) div 12 = (if k mod 12 = 11 then k div 12 + 1 else k div 12)"
    "(k + 1) mod 12 = (if k mod 12 = 11 then 0 else k mod 12 + 1)"
    unfolding q_r_def \<open>k = 12 * q + r\<close> [unfolded q_r_def, symmetric] by simp_all
qed

lemma index_start_Suc:
  "index_start (k + 1) = index_start k + days_per_month (k div 12) (k mod 12 + 1)"
proof -
  have m: "1 \<le> k mod 12 + 1" "k mod 12 + 1 \<le> 12" by simp_all
  have "(k + 1) div 12 = (if k mod 12 + 1 = 12 then k div 12 + 1 else k div 12)"
    "(k + 1) mod 12 + 1 = (if k mod 12 + 1 = 12 then 1 else k mod 12 + 1 + 1)"
    by (simp_all add: month_carry [of k])
  then show ?thesis using month_start_month [OF m, of "k div 12"] by (simp add: index_start_def)
qed

lemma index_start_less: "k < l \<Longrightarrow> index_start (k + 1) \<le> index_start l"
proof -
  assume "k < l"
  then have "k + 1 \<le> l" by simp
  then show ?thesis
  proof (induction l rule: int_ge_induct)
    case (step i)
    have "0 < days_per_month (i div 12) (i mod 12 + 1)"
      using days_per_month_pos [of "i mod 12 + 1" "i div 12"] pos_mod_bound [of 12 i] pos_mod_sign [of 12 i] by linarith
    then show ?case using step index_start_Suc [of i] by simp
  qed simp
qed

lemma day_number_index:
  assumes "valid_date f"
  shows "index_start (month_index f) < day_number f" "day_number f \<le> index_start (month_index f + 1)"
    "day_number f = index_start (month_index f) + f_d f"
proof -
  have m: "valid_month (f_m f)" and d: "1 \<le> f_d f" "f_d f \<le> days_per_month (f_y f) (f_m f)"
    using assms by (auto simp: valid_date_def)
  have i: "month_index f div 12 = f_y f" "month_index f mod 12 = f_m f - 1"
    using m by (auto simp: month_index_def valid_month_def intro: int_div_pos_eq int_mod_pos_eq)
  show e: "day_number f = index_start (month_index f) + f_d f"
    by (simp add: day_number_def index_start_def i)
  show "index_start (month_index f) < day_number f" "day_number f \<le> index_start (month_index f + 1)"
    using index_start_Suc [of "month_index f"] d unfolding e i by simp_all
qed

lemma day_number_less:
  assumes "valid_date f" "valid_date g"
  shows "day_number f < day_number g \<longleftrightarrow> month_index f < month_index g \<or> month_index f = month_index g \<and> f_d f < f_d g"
proof -
  have "day_number a < day_number b" if "valid_date a" "valid_date b" "month_index a < month_index b" for a b
    using day_number_index [OF that(1)] day_number_index [OF that(2)] index_start_less [OF that(3)] by simp
  from this [OF assms] this [OF assms(2,1)] show ?thesis
    using day_number_index(3) [OF assms(1)] day_number_index(3) [OF assms(2)]
    by (cases "month_index f" "month_index g" rule: linorder_cases) auto
qed

lemma month_index_less:
  assumes "valid_month (f_m f)" "valid_month (f_m g)"
  shows "month_index f < month_index g \<longleftrightarrow> f_y f < f_y g \<or> f_y f = f_y g \<and> f_m f < f_m g"
    "month_index f = month_index g \<longleftrightarrow> f_y f = f_y g \<and> f_m f = f_m g"
  using assms unfolding month_index_def valid_month_def
  by (cases "f_y f" "f_y g" rule: linorder_cases; auto)+

lemma carry_less:
  assumes "0 \<le> b" "b < n" "0 \<le> d" "d < (n :: int)"
  shows "a * n + b < c * n + d \<longleftrightarrow> a < c \<or> a = c \<and> b < d"
proof -
  have "a * n + b < c * n + d" if "a < c" "0 \<le> d" "b < n" for a b c d
  proof -
    have "(a + 1) * n \<le> c * n" using that assms by (intro mult_right_mono) auto
    then show ?thesis using that by (simp add: algebra_simps)
  qed
  from this [of a c d b] this [of c a b d] show ?thesis
    using assms by (cases a c rule: linorder_cases) auto
qed

lemma eq_iff_not_less: "(x :: int) = y \<longleftrightarrow> \<not> x < y \<and> \<not> y < x"
  by auto

lemma carry_eq:
  assumes "0 \<le> b" "b < n" "0 \<le> d" "d < (n :: int)"
  shows "a * n + b = c * n + d \<longleftrightarrow> a = c \<and> b = d"
  unfolding eq_iff_not_less [of "a * n + b"] carry_less [OF assms] carry_less [OF assms(3,4,1,2)] by auto

lemma day_number_eq:
  assumes "valid_date f" "valid_date g"
  shows "day_number f = day_number g \<longleftrightarrow> month_index f = month_index g \<and> f_d f = f_d g"
  unfolding eq_iff_not_less [of "day_number f"] day_number_less [OF assms] day_number_less [OF assms(2,1)] by auto

lemma civil_less_iff:
  assumes "valid_fields f" "valid_fields g"
  shows "civil_less f g \<longleftrightarrow> second_number f < second_number g"
    "civil_eq f g \<longleftrightarrow> second_number f = second_number g"
proof -
  have v: "valid_date f" "valid_date g" "valid_month (f_m f)" "valid_month (f_m g)"
    and b: "0 \<le> f_hh f" "f_hh f < 24" "0 \<le> f_hh g" "f_hh g < 24"
      "0 \<le> f_mm f" "f_mm f < 60" "0 \<le> f_mm g" "f_mm g < 60"
      "0 \<le> f_ss f" "f_ss f < 60" "0 \<le> f_ss g" "f_ss g < 60"
    using assms by (auto simp: valid_fields_def valid_date_def)
  note num = second_number_def minute_number_def hour_number_def
  show "civil_less f g \<longleftrightarrow> second_number f < second_number g"
    unfolding num carry_less [OF b(9-12)] carry_less [OF b(5-8)] carry_less [OF b(1-4)]
      carry_eq [OF b(5-8)] carry_eq [OF b(1-4)]
      day_number_less [OF v(1,2)] day_number_eq [OF v(1,2)] month_index_less [OF v(3,4)] civil_less_def
    by blast
  show "civil_eq f g \<longleftrightarrow> second_number f = second_number g"
    unfolding num carry_eq [OF b(9-12)] carry_eq [OF b(5-8)] carry_eq [OF b(1-4)]
      day_number_eq [OF v(1,2)] month_index_less [OF v(3,4)] civil_eq_def
    by blast
qed

section \<open>The units\<close>

fun unit_number :: "civil_tag \<Rightarrow> civil_fields \<Rightarrow> int" where
  "unit_number second_tag f = second_number f"
| "unit_number minute_tag f = minute_number f"
| "unit_number hour_tag f = hour_number f"
| "unit_number day_tag f = day_number f"
| "unit_number month_tag f = month_index f"
| "unit_number year_tag f = f_y f"

end
