(* ===== verification/Civil_Units.thy ===== *)
theory Civil_Units
  imports Civil_Ops
begin

text \<open>
  The arithmetic of the civil time classes. A value of a class with tag \<open>t\<close> stands for the number
  \<open>unit_number t\<close> of units; the locale \<open>civil_unit\<close> is the contract of the operators \<open>+\<close> and \<open>-\<close>
  against that number, and it is interpreted on the operators of all six classes.
\<close>

section \<open>The contract of the operators\<close>

locale civil_unit =
  fixes number :: "civil_fields \<Rightarrow> int" and ok :: "civil_fields \<Rightarrow> bool"
    and plus :: "civil_fields \<Rightarrow> int \<Rightarrow> civil_fields" and diff :: "civil_fields \<Rightarrow> civil_fields \<Rightarrow> int"
  assumes plus_ok: "ok a \<Longrightarrow> ok (plus a n)"
    and plus_number: "ok a \<Longrightarrow> number (plus a n) = number a + n"
    and diff_number: "ok a \<Longrightarrow> ok b \<Longrightarrow> diff a b = number a - number b"
    and number_inj: "ok a \<Longrightarrow> ok b \<Longrightarrow> number a = number b \<Longrightarrow> a = b"
begin

lemma diff_plus: "ok a \<Longrightarrow> diff (plus a n) a = n"
  by (simp add: diff_number plus_ok plus_number)

lemma plus_diff: "ok a \<Longrightarrow> ok b \<Longrightarrow> plus b (diff a b) = a"
  by (intro number_inj) (simp_all add: plus_ok plus_number diff_number)

lemma plus_plus: "ok a \<Longrightarrow> plus (plus a n) k = plus a (n + k)"
  by (intro number_inj) (simp_all add: plus_ok plus_number)

lemma plus_zero: "ok a \<Longrightarrow> plus a 0 = a"
  by (intro number_inj) (simp_all add: plus_ok plus_number)

lemma diff_chain: "ok a \<Longrightarrow> ok b \<Longrightarrow> ok c \<Longrightarrow> diff a b + diff b c = diff a c"
  by (simp add: diff_number)

end

section \<open>Alignment\<close>

definition civil_ok :: "civil_tag \<Rightarrow> civil_fields \<Rightarrow> bool" where
  "civil_ok t f \<longleftrightarrow> valid_fields f \<and> align t f = f"

lemma mk_fields_sel [simp]:
  "f_y (mk_fields y m d hh mm ss) = y" "f_m (mk_fields y m d hh mm ss) = m" "f_d (mk_fields y m d hh mm ss) = d"
  "f_hh (mk_fields y m d hh mm ss) = hh" "f_mm (mk_fields y m d hh mm ss) = mm" "f_ss (mk_fields y m d hh mm ss) = ss"
  by (simp_all add: mk_fields_def)

lemma mk_fields_eq:
  "mk_fields y m d hh mm ss = f \<longleftrightarrow> y = f_y f \<and> m = f_m f \<and> d = f_d f \<and> hh = f_hh f \<and> mm = f_mm f \<and> ss = f_ss f"
  by (cases f) (auto simp: mk_fields_def)

lemma align_align [simp]: "align t (align t f) = align t f"
  by (cases t) simp_all

lemma align_valid: "valid_fields f \<Longrightarrow> valid_fields (align t f)"
  using days_per_month_pos [of "f_m f" "f_y f"] days_per_month_pos [of 1 "f_y f"]
  by (cases t) (auto simp: valid_fields_def valid_date_def valid_month_def)

lemma align_number: "unit_number t (align t f) = unit_number t f"
  by (cases t) (simp_all add: minute_number_def hour_number_def day_number_def month_index_def)

lemma civil_ok_align: "valid_fields f \<Longrightarrow> civil_ok t (align t f)"
  by (simp add: civil_ok_def align_valid)

lemma civil_fields_eqI:
  assumes "f_y f = f_y g" "f_m f = f_m g" "f_d f = f_d g" "f_hh f = f_hh g" "f_mm f = f_mm g" "f_ss f = f_ss g"
  shows "f = (g :: civil_fields)"
  using assms by (cases f; cases g) simp

lemma unit_number_inj:
  assumes "civil_ok t f" "civil_ok t g" "unit_number t f = unit_number t g"
  shows "f = g"
proof -
  have v: "valid_fields f" "valid_fields g" and a: "align t f = f" "align t g = g"
    using assms by (simp_all add: civil_ok_def)
  have "second_number f = second_number g"
  proof (cases t)
    case second_tag then show ?thesis using assms by simp
  next
    case minute_tag then show ?thesis using assms a by (simp add: second_number_def mk_fields_eq)
  next
    case hour_tag then show ?thesis using assms a by (simp add: second_number_def minute_number_def mk_fields_eq)
  next
    case day_tag then show ?thesis using assms a by (simp add: second_number_def minute_number_def hour_number_def mk_fields_eq)
  next
    case month_tag
    then show ?thesis using assms a v day_number_eq [of f g]
      by (auto simp: second_number_def minute_number_def hour_number_def mk_fields_eq valid_fields_def)
  next
    case year_tag
    then show ?thesis using assms a v day_number_eq [of f g]
      by (auto simp: second_number_def minute_number_def hour_number_def mk_fields_eq valid_fields_def month_index_def)
  qed
  then have "civil_eq f g" using civil_less_iff(2) [OF v] by simp
  then show ?thesis by (intro civil_fields_eqI) (simp_all add: civil_eq_def)
qed

section \<open>Steps\<close>

lemma valid_month_start: "valid_fields f \<Longrightarrow> any_month_start (f_y f) (f_m f) + f_d f = day_number f"
  by (simp add: any_month_start_valid valid_fields_def valid_date_def day_number_def)

lemma split_units: "0 < c \<Longrightarrow> a * c + b + n = (a + n sdiv c) * c + (b + n smod (c :: int))"
  using sdiv_smod [of c n] by (simp add: algebra_simps)

lemma step_month:
  assumes "valid_fields f" "f_d f = 1"
  shows "month_index (step month_tag f n) = month_index f + n" "valid_fields (step month_tag f n)"
    "f_d (step month_tag f n) = 1"
proof -
  let ?s = "step month_tag f n"
  note c = n_mon_correct [of "f_y f + n sdiv 12" "f_m f + n smod 12" 1 0 "f_hh f" "f_mm f" "f_ss f"]
  have s: "?s = n_mon (f_y f + n sdiv 12) (f_m f + n smod 12) 1 0 (f_hh f) (f_mm f) (f_ss f)" using assms by simp
  show v: "valid_fields ?s" using c assms unfolding s valid_fields_def by simp
  then have d: "valid_date ?s" by (simp add: valid_fields_def)
  let ?k = "12 * (f_y f + n sdiv 12) + (f_m f + n smod 12) - 1"
  have k: "?k = month_index f + n" using split_units [of 12 "f_y f" "f_m f - 1" n] by (simp add: month_index_def algebra_simps)
  have "day_number ?s = index_start ?k + 1" using c(2) unfolding s any_month_start_index by simp
  moreover have "index_start ?k + 1 \<le> index_start (?k + 1)" using index_start_less [of ?k "?k + 1"]
    index_start_Suc [of ?k] days_per_month_pos [of "?k mod 12 + 1" "?k div 12"]
    pos_mod_bound [of 12 ?k] pos_mod_sign [of 12 ?k] by linarith
  ultimately show i: "month_index ?s = month_index f + n"
    using day_number_index [OF d] index_start_less [of "month_index ?s" ?k] index_start_less [of ?k "month_index ?s"]
    unfolding k by linarith
  show "f_d ?s = 1" using \<open>day_number ?s = index_start ?k + 1\<close> day_number_index(3) [OF d] unfolding i k by simp
qed

lemma step_number:
  assumes "civil_ok t f"
  shows "valid_fields (step t f n) \<and> unit_number t (step t f n) = unit_number t f + n"
proof -
  have v: "valid_fields f" and a: "align t f = f" using assms by (simp_all add: civil_ok_def)
  note day = valid_month_start [OF v]
  have num: "hour_number f = (any_month_start (f_y f) (f_m f) + f_d f) * 24 + f_hh f"
    "minute_number f = ((any_month_start (f_y f) (f_m f) + f_d f) * 24 + f_hh f) * 60 + f_mm f"
    "second_number f = (((any_month_start (f_y f) (f_m f) + f_d f) * 24 + f_hh f) * 60 + f_mm f) * 60 + f_ss f"
    unfolding day by (simp_all add: second_number_def minute_number_def hour_number_def)
  have m: "valid_month (f_m f)" using v by (simp add: valid_fields_def valid_date_def)
  show ?thesis
  proof (cases t)
    case second_tag
    then show ?thesis using n_sec_correct [of "f_y f" "f_m f" "f_d f" "f_hh f" "f_mm f + n sdiv 60" "f_ss f + n smod 60"]
        sdiv_smod [of 60 n] by (simp add: num)
  next
    case minute_tag
    then show ?thesis using n_min_correct [of "f_y f" "f_m f" "f_d f" "f_hh f + n sdiv 60" 0 "f_mm f + n smod 60" "f_ss f"]
        sdiv_smod [of 60 n] v by (simp add: num valid_fields_def)
  next
    case hour_tag
    then show ?thesis using n_hour_correct [of "f_y f" "f_m f" "f_d f + n sdiv 24" 0 "f_hh f + n smod 24" "f_mm f" "f_ss f"]
        sdiv_smod [of 24 n] v by (simp add: num valid_fields_def)
  next
    case day_tag
    then show ?thesis using n_day_correct [OF m, of "f_y f" "f_d f" n "f_hh f" "f_mm f" "f_ss f"] v
      by (simp add: day_number_def valid_fields_def)
  next
    case month_tag
    then have "f_d f = 1" using a by (simp add: mk_fields_eq)
    then show ?thesis using month_tag step_month [OF v] by simp
  next
    case year_tag
    then have "f_m f = 1" "f_d f = 1" using a by (simp_all add: mk_fields_eq)
    then show ?thesis using v year_tag days_per_month_pos [of 1 "f_y f + n"]
      by (simp add: valid_fields_def valid_date_def)
  qed
qed

lemma civil_plus_number:
  assumes "civil_ok t f"
  shows "civil_ok t (civil_plus t f n)" "unit_number t (civil_plus t f n) = unit_number t f + n"
  using step_number [OF assms, of n] by (simp_all add: civil_plus_def civil_ok_align align_number)

lemma step_aligned:
  assumes "civil_ok t f"
  shows "align t (step t f n) = step t f n"
proof -
  have v: "valid_fields f" "align t f = f" and m: "valid_month (f_m f)"
    using assms by (auto simp: civil_ok_def valid_fields_def valid_date_def)
  show ?thesis
  proof (cases t)
    case minute_tag then show ?thesis using v(2) by (simp add: mk_fields_eq n_min_correct)
  next
    case hour_tag then show ?thesis using v(2) by (simp add: mk_fields_eq n_hour_correct)
  next
    case day_tag then show ?thesis using v(2) n_day_correct(3) [OF m] by (simp add: mk_fields_eq)
  next
    case month_tag
    then have "f_d f = 1" using v by (simp add: mk_fields_eq)
    from month_tag step_month [OF v(1) this, of n] show ?thesis using v(2) by (simp add: mk_fields_eq n_mon_correct)
  qed (use v in \<open>simp_all add: mk_fields_eq\<close>)
qed

lemma civil_plus_step: "civil_ok t f \<Longrightarrow> civil_plus t f n = step t f n"
  by (simp add: civil_plus_def step_aligned)

lemma civil_minus_plus:
  assumes "civil_ok t f"
  shows "civil_minus t f n = civil_plus t f (- n)"
proof (cases "n = - (2 ^ 63)")
  case True
  let ?g = "civil_plus t f (- (n + 1))"
  have "civil_minus t f n = civil_plus t ?g 1"
    unfolding civil_minus_def civil_plus_step [OF assms] using True by (simp add: civil_plus_def)
  moreover have "civil_plus t ?g 1 = civil_plus t f (- n)"
    using civil_plus_number [OF assms] civil_plus_number [OF civil_plus_number(1) [OF assms]]
    by (intro unit_number_inj [of t]) simp_all
  ultimately show ?thesis by simp
qed (simp add: civil_minus_def civil_plus_def)

section \<open>Differences\<close>

lemma scale_add_eq: "scale_add v f a = v * f + a"
  by (simp add: scale_add_def algebra_simps)

lemma sdiv_floor:
  assumes "0 < c"
  shows "(if k \<ge> 0 then k else k - (c - 1)) sdiv c = k div (c :: int)"
proof (cases "k \<ge> 0")
  case False
  have "- ((c - 1 - k) div c) = k div c"
  proof -
    have "k = c * (k div c) + k mod c" "0 \<le> k mod c" "k mod c < c" using assms by simp_all
    then have "(c - 1 - k) div c = - (k div c)"
      by (intro int_div_pos_eq [where r = "c - 1 - k mod c"]) (auto simp: algebra_simps)
    then show ?thesis by simp
  qed
  then show ?thesis using False assms by (simp add: sdiv_neg algebra_simps)
qed (use assms in \<open>simp add: sdiv_pos\<close>)

lemma leaps_era:
  fixes e :: int
  shows "e div 400 * 146097 + (e - e div 400 * 400) * 365 + (e - e div 400 * 400) div 4 - (e - e div 400 * 400) div 100
    = 365 * e + leaps_before (e + 1)"
proof -
  define k where "k = e div 400"
  have "(e - k * 400) div 4 = e div 4 - 100 * k" "(e - k * 400) div 100 = e div 100 - 4 * k"
    using div_mult_self1 [of 4 e "- 100 * k"] div_mult_self1 [of 100 e "- 4 * k"] by simp_all
  then show ?thesis unfolding leaps_before_def k_def [symmetric] by (simp add: k_def [symmetric] algebra_simps)
qed

lemma ymd_ord_correct:
  assumes "valid_month m"
  shows "ymd_ord y m d = month_start y m + d - (month_start 1970 1 + 1)"
proof -
  define e where "e = (if m \<le> 2 then y - 1 else y)"
  define doy where "doy = (153 * (m + (if m > 2 then - 3 else 9)) + 2) sdiv 5 + d - 1"
  have e0: "(if e \<ge> 0 then e else e - 399) sdiv 400 = e div 400" using sdiv_floor [of 400 e] by (cases "0 \<le> e") simp_all
  have yoe: "0 \<le> e - e div 400 * 400" by (simp add: minus_div_mult_eq_mod)
  have "ymd_ord y m d = e div 400 * 146097 + ((e - e div 400 * 400) * 365 + (e - e div 400 * 400) div 4
      - (e - e div 400 * 400) div 100 + doy) - 719468"
    unfolding ymd_ord_def Let_def e_def [symmetric] doy_def [symmetric] e0 using yoe by (simp add: sdiv_pos)
  then have "ymd_ord y m d = 365 * e + leaps_before (e + 1) + doy - 719468" using leaps_era [of e] by simp
  moreover have "month_start 1970 1 = 719527" by (simp add: month_start_def leaps_before_def days_before_month_def)
  ultimately show ?thesis using month_cases [of m] assms
    by (auto simp: valid_month_def month_start_def e_def doy_def days_before_month_def sdiv_pos algebra_simps)
qed

lemma day_difference_correct:
  assumes "valid_month m1" "valid_month m2"
  shows "day_difference y1 m1 d1 y2 m2 d2 = (month_start y1 m1 + d1) - (month_start y2 m2 + d2)"
proof -
  define q1 r1 q2 r2 where q: "q1 = y1 sdiv 400" "r1 = y1 smod 400" "q2 = y2 sdiv 400" "r2 = y2 smod 400"
  have y: "y1 = r1 + 400 * q1" "y2 = r2 + 400 * q2"
    using sdiv_smod [of 400 y1] sdiv_smod [of 400 y2] by (simp_all add: q)
  have ms: "month_start y1 m1 = month_start r1 m1 + 146097 * q1" "month_start y2 m2 = month_start r2 m2 + 146097 * q2"
    unfolding y by (rule month_start_period)+
  have exact: "(400 * k) sdiv 400 = k" for k :: int by (cases "0 \<le> k") (simp_all add: sdiv_pos sdiv_neg)
  have c4: "(y1 - r1) - (y2 - r2) = 400 * (q1 - q2)" "400 * (q1 - q2) - 2 * 400 = 400 * (q1 - q2 - 2)"
    "400 * (q1 - q2) + 2 * 400 = 400 * (q1 - q2 + 2)" unfolding y by simp_all
  show ?thesis unfolding day_difference_def Let_def q(2) [symmetric] q(4) [symmetric] c4(1)
    by (simp only: ymd_ord_correct assms ms c4(2,3) exact if_distrib [of "\<lambda>p. case p of (a, b) \<Rightarrow> F a b" for F]
        prod.case split: if_split) (simp add: algebra_simps)
qed

lemma difference_number:
  assumes "valid_fields f" "valid_fields g"
  shows "difference t f g = unit_number t f - unit_number t g"
proof -
  have "difference day_tag f g = day_number f - day_number g"
    using assms by (simp add: day_difference_correct valid_fields_def valid_date_def day_number_def)
  then show ?thesis
    by (cases t) (simp_all add: scale_add_eq second_number_def minute_number_def hour_number_def month_index_def)
qed

interpretation civil: civil_unit "unit_number t" "civil_ok t" "civil_plus t" "civil_diff t" for t
proof unfold_locales
  show "civil_diff t a b = unit_number t a - unit_number t b" if "civil_ok t a" "civil_ok t b" for a b
    using that by (simp add: civil_diff_def difference_number civil_ok_def)
qed (rule civil_plus_number unit_number_inj; assumption)+

section \<open>Weekdays and days of the year\<close>

fun weekday_index :: "weekday \<Rightarrow> int" where
  "weekday_index monday = 0" | "weekday_index tuesday = 1" | "weekday_index wednesday = 2"
| "weekday_index thursday = 3" | "weekday_index friday = 4" | "weekday_index saturday = 5"
| "weekday_index sunday = 6"

lemma weekday_index_inj: "weekday_index a = weekday_index b \<Longrightarrow> a = b"
  by (cases a; cases b) simp_all

lemma weekday_table:
  assumes "0 \<le> r" "r < 7"
  shows "weekday_index (k_weekday_by_mon_off ! nat (r + 6)) = (r + 6) mod 7"
proof -
  have "r \<in> {0, 1, 2, 3, 4, 5, 6}" using assms by auto
  then show ?thesis by (elim insertE emptyE) (simp_all add: k_weekday_by_mon_off_def)
qed

lemma month_offset_mod:
  assumes "valid_month m"
  shows "\<exists>k. k_weekday_offsets ! nat m - (if m < 3 then 1 else 0) = days_before_month m - 1 + 7 * k"
  using month_cases [of m] assms unfolding valid_month_def
  by (auto simp: k_weekday_offsets_def days_before_month_def; presburger)

lemma get_weekday_sum:
  fixes e k :: int
  shows "(400 * k + e) + ((400 * k + e) div 4 - (400 * k + e) div 100 + (400 * k + e) div 400)
    = 497 * k + e + leaps_before (e + 1)"
  using leaps_before_period [of "e + 1" k] by (simp add: leaps_before_def algebra_simps)

lemma get_weekday_index:
  assumes "valid_date f"
  shows "weekday_index (get_weekday f) = (day_number f + 5) mod 7"
proof -
  have m: "valid_month (f_m f)" and d: "1 \<le> f_d f" using assms by (simp_all add: valid_date_def)
  define b :: int where "b = (if f_m f < 3 then 1 else 0)"
  define e where "e = f_y f - b"
  define w where "w = 2400 + f_y f smod 400 - b"
  define k where "k = 6 - f_y f sdiv 400"
  have w: "w = 400 * k + e" using sdiv_smod [of 400 "f_y f"] by (simp add: w_def k_def e_def)
  have w0: "0 \<le> w" using smod_bounds [of 400 "f_y f"] by (simp add: w_def b_def)
  obtain j where j: "k_weekday_offsets ! nat (f_m f) - b = days_before_month (f_m f) - 1 + 7 * j"
    using month_offset_mod [OF m] unfolding b_def by blast
  define t where "t = w + (w div 4 - w div 100 + w div 400) + (k_weekday_offsets ! nat (f_m f) + f_d f)"
  have o: "0 \<le> k_weekday_offsets ! nat (f_m f)"
    using month_cases [of "f_m f"] m by (auto simp: valid_month_def k_weekday_offsets_def)
  have "w div 100 \<le> w" "0 \<le> w div 4" "0 \<le> w div 400" using w0 zdiv_mono2 [of w 1 100] by simp_all
  then have t0: "0 \<le> t" unfolding t_def using o d by linarith
  have "leaps_before (e + 1) = leaps_before (f_y f + (if f_m f > 2 then 1 else 0))"
    by (simp add: e_def b_def)
  then have "t = day_number f - 1 + 7 * (71 * k + j - 52 * f_y f)"
    using get_weekday_sum [of k e] j unfolding t_def w day_number_def month_start_def by (simp add: e_def)
  then have "t + 6 = day_number f + 5 + 7 * (71 * k + j - 52 * f_y f)" by simp
  then have t7: "(t + 6) mod 7 = (day_number f + 5) mod 7" by (simp only: mod_mult_self2)
  have "get_weekday f = k_weekday_by_mon_off ! nat (t smod 7 + 6)"
    unfolding get_weekday_def Let_def t_def w_def b_def using w0 [unfolded w_def b_def] by (simp add: sdiv_pos)
  also have "t smod 7 = t mod 7" using t0 by (simp add: smod_pos)
  finally show ?thesis using weekday_table [of "t mod 7"] t7 by (simp add: mod_add_left_eq)
qed

lemma get_yearday_correct:
  assumes "valid_month (f_m f)"
  shows "get_yearday f = day_number f - month_start (f_y f) 1"
  using month_cases [of "f_m f"] assms leaps_1 [of "f_y f"] unfolding valid_month_def
  by (auto simp: get_yearday_def Let_def k_month_offsets_def day_number_def month_start_def days_before_month_def)

text \<open>The searches through the two tables.\<close>

declare scan_table.simps [simp del]

lemma scan_forw:
  "\<exists>i j. scan_table k_weekdays_forw a 0 = Some i \<and> scan_table k_weekdays_forw b (i + 1) = Some j \<and>
     i < j \<and> j \<le> i + 7 \<and> (weekday_index a + (int j - int i)) mod 7 = weekday_index b"
  by (cases a; cases b) (simp_all add: k_weekdays_forw_def scan_table.simps)

lemma scan_back:
  "\<exists>i j. scan_table k_weekdays_back a 0 = Some i \<and> scan_table k_weekdays_back b (i + 1) = Some j \<and>
     i < j \<and> j \<le> i + 7 \<and> (weekday_index a - (int j - int i)) mod 7 = weekday_index b"
  by (cases a; cases b) (simp_all add: k_weekdays_back_def scan_table.simps)

lemma civil_ok_day: "civil_ok day_tag f \<Longrightarrow> valid_date f"
  by (simp add: civil_ok_def valid_fields_def)

lemma civil_ok_default: "civil_ok day_tag civil_default"
  by (simp add: civil_ok_def civil_default_def valid_fields_def valid_date_def valid_month_def
      days_per_month_def k_days_per_month_def mk_fields_eq)

lemma civil_ok_make: "civil_ok t (civil_make t y m d hh mm ss)"
  by (simp add: civil_make_def civil_ok_align n_sec_correct)

lemma weekday_shift:
  assumes "civil_ok day_tag f" "(weekday_index (get_weekday f) + k) mod 7 = weekday_index w"
  shows "get_weekday (civil_plus day_tag f k) = w"
proof -
  have "weekday_index (get_weekday (civil_plus day_tag f k)) = (day_number f + k + 5) mod 7"
    using civil_plus_number [OF assms(1)] get_weekday_index [OF civil_ok_day] by simp
  also have "\<dots> = weekday_index w"
    using assms(2) get_weekday_index [OF civil_ok_day [OF assms(1)]] mod_add_left_eq [of "day_number f + 5" 7 k]
    by (simp add: ac_simps)
  finally show ?thesis by (rule weekday_index_inj)
qed

text \<open>At most one day of any seven consecutive ones has a given weekday.\<close>

lemma weekday_unique:
  assumes "civil_ok day_tag f" "civil_ok day_tag g" "get_weekday f = get_weekday g"
    "\<bar>civil_diff day_tag f g\<bar> < 7"
  shows "f = g"
proof -
  have "(day_number f + 5) mod 7 = (day_number g + 5) mod 7"
    using assms(3) get_weekday_index [OF civil_ok_day] assms(1,2) by metis
  then have "7 dvd day_number f - day_number g" by (simp add: mod_eq_dvd_iff)
  moreover have "\<bar>day_number f - day_number g\<bar> < 7" using assms(4) civil.diff_number [OF assms(1,2)] by simp
  ultimately have "day_number f - day_number g = 0" using zdvd_imp_le [of 7 "\<bar>day_number f - day_number g\<bar>"] by fastforce
  then show ?thesis using unit_number_inj [OF assms(1,2)] by simp
qed

lemma weekday_nearest:
  assumes "civil_ok day_tag a" "civil_ok day_tag b" "civil_ok day_tag x" "get_weekday x = get_weekday b"
  shows "0 < civil_diff day_tag b a \<and> civil_diff day_tag b a \<le> 7 \<and> 0 < civil_diff day_tag x a
      \<longrightarrow> civil_diff day_tag b a \<le> civil_diff day_tag x a"
    "0 < civil_diff day_tag a b \<and> civil_diff day_tag a b \<le> 7 \<and> 0 < civil_diff day_tag a x
      \<longrightarrow> civil_diff day_tag a b \<le> civil_diff day_tag a x"
  using weekday_unique [OF assms(3,2,4)] civil.diff_number [OF assms(3,2)] civil.diff_number [OF assms(2,1)]
    civil.diff_number [OF assms(3,1)] civil.diff_number [OF assms(1,2)] civil.diff_number [OF assms(1,3)]
  by fastforce+

section \<open>Properties\<close>






text \<open>
  C23: The comparison operators, which compare the six fields one after the other, order normalised civil
  times by the instant they denote; equality of the fields is equality of the instants.
\<close>

theorem civil_order_correct:
  assumes "valid_fields a" "valid_fields b"
  shows "(civil_less a b \<longleftrightarrow> second_number a < second_number b) \<and>
    (civil_le a b \<longleftrightarrow> second_number a \<le> second_number b) \<and> (civil_ge a b \<longleftrightarrow> second_number a \<ge> second_number b) \<and>
    (civil_greater a b \<longleftrightarrow> second_number a > second_number b) \<and>
    (civil_eq a b \<longleftrightarrow> second_number a = second_number b) \<and> (civil_ne a b \<longleftrightarrow> second_number a \<noteq> second_number b)"
  unfolding civil_le_def civil_ge_def civil_greater_def civil_ne_def
    civil_less_iff [OF assms] civil_less_iff [OF assms(2,1)] not_less by blast

theorem civil_order_correct_witness:
  "civil_less (n_sec 2023 14 1 0 0 0) (n_sec 2024 2 29 23 59 60) \<longleftrightarrow>
   second_number (n_sec 2023 14 1 0 0 0) < second_number (n_sec 2024 2 29 23 59 60)"
  using civil_order_correct [of "n_sec 2023 14 1 0 0 0" "n_sec 2024 2 29 23 59 60"] by (simp only: n_sec_correct(1) simp_thms)

text \<open>
  C24: The day of the week advances by one from each day to the next, all through the calendar, and
  1970-01-01 is a Thursday; so the table computation agrees with counting days.
\<close>

theorem get_weekday_correct:
  assumes "civil_ok day_tag a"
  shows "weekday_index (get_weekday a) = (weekday_index thursday + civil_diff day_tag a civil_default) mod 7"
proof -
  have "weekday_index thursday + civil_diff day_tag a civil_default = day_number a + 5 - 719530"
    using civil.diff_number [OF assms civil_ok_default]
    by (simp add: civil_default_def day_number_def month_start_def leaps_before_def days_before_month_def)
  also have "\<dots> = day_number a + 5 + 7 * (- 102790)" by simp
  finally show ?thesis using get_weekday_index [OF civil_ok_day [OF assms]] by (simp only: mod_mult_self2)
qed

theorem get_weekday_correct_witness:
  "get_weekday (mk_fields 2000 1 1 0 0 0) = saturday"
proof -
  have "civil_ok day_tag (mk_fields 2000 1 1 0 0 0)" using civil_ok_make [of day_tag 2000 1 1 0 0 0]
    by (simp add: civil_make_def n_sec_def)
  from get_weekday_correct [OF this] have "weekday_index (get_weekday (mk_fields 2000 1 1 0 0 0)) = weekday_index saturday"
    by (simp add: civil_diff_def day_difference_correct valid_month_def civil_default_def month_start_def
        leaps_before_def days_before_month_def)
  then show ?thesis by (rule weekday_index_inj)
qed

text \<open>
  C25: The search for the next or previous weekday never runs off its table and finds the nearest day: the
  result has the weekday asked for and lies one to seven days after (before) the given day, and every day
  strictly between has another weekday.
\<close>

theorem next_prev_weekday_correct:
  assumes "civil_ok day_tag a"
  shows "\<exists>b c. next_weekday a w = Some b \<and> prev_weekday a w = Some c \<and>
    civil_ok day_tag b \<and> civil_ok day_tag c \<and> get_weekday b = w \<and> get_weekday c = w \<and>
    civil_diff day_tag b a \<in> {1..7} \<and> civil_diff day_tag a c \<in> {1..7} \<and>
    (\<forall>x. civil_ok day_tag x \<longrightarrow> get_weekday x = w \<longrightarrow>
       (civil_diff day_tag x a > 0 \<longrightarrow> civil_diff day_tag x a \<ge> civil_diff day_tag b a) \<and>
       (civil_diff day_tag a x > 0 \<longrightarrow> civil_diff day_tag a x \<ge> civil_diff day_tag a c))"
proof -
  obtain i j where f: "scan_table k_weekdays_forw (get_weekday a) 0 = Some i" "scan_table k_weekdays_forw w (i + 1) = Some j"
    "i < j" "j \<le> i + 7" "(weekday_index (get_weekday a) + (int j - int i)) mod 7 = weekday_index w"
    using scan_forw [of "get_weekday a" w] by blast
  obtain k l where p: "scan_table k_weekdays_back (get_weekday a) 0 = Some k" "scan_table k_weekdays_back w (k + 1) = Some l"
    "k < l" "l \<le> k + 7" "(weekday_index (get_weekday a) - (int l - int k)) mod 7 = weekday_index w"
    using scan_back [of "get_weekday a" w] by blast
  let ?b = "civil_plus day_tag a (int j - int i)" and ?c = "civil_plus day_tag a (- (int l - int k))"
  have ok: "civil_ok day_tag ?b" "civil_ok day_tag ?c" using assms by (simp_all add: civil.plus_ok del: minus_diff_eq)
  have w: "get_weekday ?b = w" "get_weekday ?c = w"
    by (rule weekday_shift [OF assms]; use f(5) p(5) in \<open>simp add: algebra_simps\<close>)+
  have df: "civil_diff day_tag ?b a = int j - int i" "civil_diff day_tag a ?c = int l - int k"
    using civil.diff_plus [OF assms] civil.diff_number [OF ok(2) assms] civil.diff_number [OF assms ok(2)] by simp_all
  moreover have "next_weekday a w = Some ?b" "prev_weekday a w = Some ?c"
    using f p by (simp_all add: next_weekday_def prev_weekday_def civil_minus_plus [OF assms])
  moreover have "(civil_diff day_tag x a > 0 \<longrightarrow> civil_diff day_tag x a \<ge> civil_diff day_tag ?b a) \<and>
       (civil_diff day_tag a x > 0 \<longrightarrow> civil_diff day_tag a x \<ge> civil_diff day_tag a ?c)"
    if x: "civil_ok day_tag x" "get_weekday x = w" for x
    using weekday_nearest [OF assms ok(1) x(1)] weekday_nearest [OF assms ok(2) x(1)] x(2) w df f(3,4) p(3,4) by simp
  ultimately show ?thesis using ok w f(3,4) p(3,4)
    by (intro exI [of _ ?b] exI [of _ ?c] conjI) simp_all
qed

theorem next_prev_weekday_correct_witness:
  "\<exists>b c. next_weekday (civil_make day_tag 2000 1 1 0 0 0) monday = Some b \<and>
     prev_weekday (civil_make day_tag 2000 1 1 0 0 0) monday = Some c \<and> get_weekday b = monday \<and> get_weekday c = monday"
  using next_prev_weekday_correct [of "civil_make day_tag 2000 1 1 0 0 0" monday]
  by (auto simp: civil_ok_make)

text \<open>
  C26: The day of the year is the distance from the first of January, counted from one, so it lies between
  1 and 366 and reaches 366 only in leap years.
\<close>

theorem get_yearday_count:
  assumes "civil_ok day_tag a"
  shows "get_yearday a = civil_diff day_tag a (mk_fields (f_y a) 1 1 0 0 0) + 1 \<and>
    1 \<le> get_yearday a \<and> get_yearday a \<le> (if is_leap_year (f_y a) then 366 else 365)"
proof -
  have v: "valid_month (f_m a)" "valid_date a" using civil_ok_day [OF assms] by (simp_all add: valid_date_def)
  have ok: "civil_ok day_tag (mk_fields (f_y a) 1 1 0 0 0)"
    by (simp add: civil_ok_def valid_fields_def valid_date_def valid_month_def days_per_month_def k_days_per_month_def mk_fields_eq)
  have "1 \<le> get_yearday a \<and> get_yearday a \<le> (if is_leap_year (f_y a) then 366 else 365)"
    using v month_cases [of "f_m a"]
    by (auto simp: get_yearday_def Let_def k_month_offsets_def valid_date_def valid_month_def days_per_month_def k_days_per_month_def)
  then show ?thesis using get_yearday_correct [OF v(1)] civil.diff_number [OF assms ok] by (simp add: day_number_def)
qed

theorem get_yearday_count_witness:
  "get_yearday (civil_make day_tag 2024 12 31 0 0 0) \<ge> 1"
  using get_yearday_count [of "civil_make day_tag 2024 12 31 0 0 0"] by (simp add: civil_ok_make)

end
