(* ===== verification/Cache_Policies.thy ===== *)
theory Cache_Policies
  imports Prelude
begin

text \<open>
  The replacement policies of the fixed size cache (turbo/container/cache): the interface
  \<open>CachePolicyBase\<close>, the policy without an order, and the FIFO, LRU and LFU policies. The policies keep
  iterators into a \<open>std::list\<close> or \<open>std::multimap\<close>; a container of nodes is a list of pairs of the address
  of a node and its content, front first, and an iterator is the address. The use of an iterator that
  points to no node is a fault.
\<close>

section \<open>Containers of nodes\<close>

type_synonym 'a nodes = "(nat \<times> 'a) list"

definition node_erase :: "nat \<Rightarrow> 'a nodes \<Rightarrow> fault + 'a nodes" where
  "node_erase it xs =
     (if it \<in> set (map fst xs) then Inr (filter (\<lambda>n. fst n \<noteq> it) xs) else Inl Bad_iterator)"

definition node_at :: "nat \<Rightarrow> 'a nodes \<Rightarrow> fault + 'a" where
  "node_at it xs = (case map_of xs it of None \<Rightarrow> Inl Bad_iterator | Some x \<Rightarrow> Inr x)"

definition node_splice_front :: "nat \<Rightarrow> 'a nodes \<Rightarrow> fault + 'a nodes" where
  "node_splice_front it xs =
     bindE (node_at it xs) (\<lambda>x. Inr ((it, x) # filter (\<lambda>n. fst n \<noteq> it) xs))"

definition node_back :: "'a nodes \<Rightarrow> fault + 'a" where
  "node_back xs = (if xs = [] then Inl Bad_iterator else Inr (snd (last xs)))"

definition node_front :: "'a nodes \<Rightarrow> fault + 'a" where
  "node_front xs = (if xs = [] then Inl Bad_iterator else Inr (snd (hd xs)))"

text \<open>
  \<open>std::multimap::emplace_hint\<close> inserts as close as possible to the position before the hint: with the
  first position as hint before all elements with an equal key, with the end as hint behind them.
\<close>

definition multimap_insert_first :: "nat \<Rightarrow> 'f::linorder \<times> 'k \<Rightarrow> ('f \<times> 'k) nodes \<Rightarrow> ('f \<times> 'k) nodes" where
  "multimap_insert_first it x xs =
     takeWhile (\<lambda>n. fst (snd n) < fst x) xs @ (it, x) # dropWhile (\<lambda>n. fst (snd n) < fst x) xs"

definition multimap_insert_last :: "nat \<Rightarrow> 'f::linorder \<times> 'k \<Rightarrow> ('f \<times> 'k) nodes \<Rightarrow> ('f \<times> 'k) nodes" where
  "multimap_insert_last it x xs =
     takeWhile (\<lambda>n. fst (snd n) \<le> fst x) xs @ (it, x) # dropWhile (\<lambda>n. fst (snd n) \<le> fst x) xs"

text \<open>The iterator a hash map holds for a key; \<open>operator[]\<close> on an absent key gives a null iterator.\<close>

definition iterator_of :: "('k \<Rightarrow> nat option) \<Rightarrow> 'k \<Rightarrow> fault + nat" where
  "iterator_of m k = (case m k of None \<Rightarrow> Inl Bad_iterator | Some it \<Rightarrow> Inr it)"

section \<open>The policy interface\<close>

record ('p, 'k) cache_policy_ops =
  pol_insert :: "'k \<Rightarrow> 'p \<Rightarrow> fault + 'p"
  pol_touch :: "'k \<Rightarrow> 'p \<Rightarrow> fault + 'p"
  pol_erase :: "'k \<Rightarrow> 'p \<Rightarrow> fault + 'p"
  pol_repl_candidate :: "'p \<Rightarrow> fault + 'k"

section \<open>No order\<close>

text \<open>
  \<open>NoCachePolicy\<close> keeps the keys in a hash set. Which element is the first of the set depends on the
  hash function: it is the parameter \<open>first\<close>.
\<close>

record 'k no_cache_policy =
  key_storage :: "'k list"

definition no_cache_empty :: "'k no_cache_policy" where
  "no_cache_empty = \<lparr>key_storage = []\<rparr>"

definition no_cache_insert :: "'k \<Rightarrow> 'k no_cache_policy \<Rightarrow> fault + 'k no_cache_policy" where
  "no_cache_insert k p = Inr (p\<lparr>key_storage := List.insert k (key_storage p)\<rparr>)"

definition no_cache_touch :: "'k \<Rightarrow> 'k no_cache_policy \<Rightarrow> fault + 'k no_cache_policy" where
  "no_cache_touch k p = Inr p"

definition no_cache_erase :: "'k \<Rightarrow> 'k no_cache_policy \<Rightarrow> fault + 'k no_cache_policy" where
  "no_cache_erase k p = Inr (p\<lparr>key_storage := removeAll k (key_storage p)\<rparr>)"

definition no_cache_repl_candidate :: "('k list \<Rightarrow> 'k) \<Rightarrow> 'k no_cache_policy \<Rightarrow> fault + 'k" where
  "no_cache_repl_candidate first p =
     (if key_storage p = [] then Inl Bad_iterator else Inr (first (key_storage p)))"

definition no_cache_ops :: "('k list \<Rightarrow> 'k) \<Rightarrow> ('k no_cache_policy, 'k) cache_policy_ops" where
  "no_cache_ops first = \<lparr>pol_insert = no_cache_insert, pol_touch = no_cache_touch, pol_erase = no_cache_erase,
     pol_repl_candidate = no_cache_repl_candidate first\<rparr>"

section \<open>First in, first out\<close>

record 'k fifo_policy =
  fifo_queue :: "'k nodes"
  key_lookup :: "'k \<Rightarrow> nat option"
  fifo_fresh :: nat

definition fifo_empty :: "'k fifo_policy" where
  "fifo_empty = \<lparr>fifo_queue = [], key_lookup = (\<lambda>_. None), fifo_fresh = 0\<rparr>"

definition fifo_insert :: "'k \<Rightarrow> 'k fifo_policy \<Rightarrow> fault + 'k fifo_policy" where
  "fifo_insert k p =
     Inr \<lparr>fifo_queue = (fifo_fresh p, k) # fifo_queue p, key_lookup = (key_lookup p)(k \<mapsto> fifo_fresh p),
          fifo_fresh = fifo_fresh p + 1\<rparr>"

definition fifo_touch :: "'k \<Rightarrow> 'k fifo_policy \<Rightarrow> fault + 'k fifo_policy" where
  "fifo_touch k p = Inr p"

definition fifo_erase :: "'k \<Rightarrow> 'k fifo_policy \<Rightarrow> fault + 'k fifo_policy" where
  "fifo_erase k p =
     bindE (iterator_of (key_lookup p) k) (\<lambda>element.
     bindE (node_erase element (fifo_queue p)) (\<lambda>q.
       Inr (p\<lparr>fifo_queue := q, key_lookup := (key_lookup p)(k := None)\<rparr>)))"

definition fifo_repl_candidate :: "'k fifo_policy \<Rightarrow> fault + 'k" where
  "fifo_repl_candidate p = node_back (fifo_queue p)"

definition fifo_ops :: "('k fifo_policy, 'k) cache_policy_ops" where
  "fifo_ops = \<lparr>pol_insert = fifo_insert, pol_touch = fifo_touch, pol_erase = fifo_erase,
     pol_repl_candidate = fifo_repl_candidate\<rparr>"

section \<open>Least recently used\<close>

record 'k lru_policy =
  lru_queue :: "'k nodes"
  key_finder :: "'k \<Rightarrow> nat option"
  lru_fresh :: nat

definition lru_empty :: "'k lru_policy" where
  "lru_empty = \<lparr>lru_queue = [], key_finder = (\<lambda>_. None), lru_fresh = 0\<rparr>"

definition lru_insert :: "'k \<Rightarrow> 'k lru_policy \<Rightarrow> fault + 'k lru_policy" where
  "lru_insert k p =
     Inr \<lparr>lru_queue = (lru_fresh p, k) # lru_queue p, key_finder = (key_finder p)(k \<mapsto> lru_fresh p),
          lru_fresh = lru_fresh p + 1\<rparr>"

definition lru_touch :: "'k \<Rightarrow> 'k lru_policy \<Rightarrow> fault + 'k lru_policy" where
  "lru_touch k p =
     bindE (iterator_of (key_finder p) k) (\<lambda>it.
     bindE (node_splice_front it (lru_queue p)) (\<lambda>q. Inr (p\<lparr>lru_queue := q\<rparr>)))"

definition lru_erase :: "'k \<Rightarrow> 'k lru_policy \<Rightarrow> fault + 'k lru_policy" where
  "lru_erase k p =
     bindE (iterator_of (key_finder p) k) (\<lambda>element.
     bindE (node_erase element (lru_queue p)) (\<lambda>q.
       Inr (p\<lparr>lru_queue := q, key_finder := (key_finder p)(k := None)\<rparr>)))"

definition lru_repl_candidate :: "'k lru_policy \<Rightarrow> fault + 'k" where
  "lru_repl_candidate p = node_back (lru_queue p)"

definition lru_ops :: "('k lru_policy, 'k) cache_policy_ops" where
  "lru_ops = \<lparr>pol_insert = lru_insert, pol_touch = lru_touch, pol_erase = lru_erase,
     pol_repl_candidate = lru_repl_candidate\<rparr>"

section \<open>Least frequently used\<close>

record 'k lfu_policy =
  frequency_storage :: "(u64 \<times> 'k) nodes"
  lfu_storage :: "'k \<Rightarrow> nat option"
  lfu_fresh :: nat

definition lfu_empty :: "'k lfu_policy" where
  "lfu_empty = \<lparr>frequency_storage = [], lfu_storage = (\<lambda>_. None), lfu_fresh = 0\<rparr>"

definition lfu_insert :: "'k \<Rightarrow> 'k lfu_policy \<Rightarrow> fault + 'k lfu_policy" where
  "lfu_insert k p =
     Inr \<lparr>frequency_storage = multimap_insert_first (lfu_fresh p) (1, k) (frequency_storage p),
          lfu_storage = (lfu_storage p)(k \<mapsto> lfu_fresh p), lfu_fresh = lfu_fresh p + 1\<rparr>"

definition lfu_touch :: "'k \<Rightarrow> 'k lfu_policy \<Rightarrow> fault + 'k lfu_policy" where
  "lfu_touch k p =
     bindE (iterator_of (lfu_storage p) k) (\<lambda>elem_for_update.
     bindE (node_at elem_for_update (frequency_storage p)) (\<lambda>x.
     let updated_elem = (fst x + 1, snd x) in
     bindE (node_erase elem_for_update (frequency_storage p)) (\<lambda>fs.
       Inr \<lparr>frequency_storage = multimap_insert_last (lfu_fresh p) updated_elem fs,
            lfu_storage = (lfu_storage p)(k \<mapsto> lfu_fresh p), lfu_fresh = lfu_fresh p + 1\<rparr>)))"

definition lfu_erase :: "'k \<Rightarrow> 'k lfu_policy \<Rightarrow> fault + 'k lfu_policy" where
  "lfu_erase k p =
     bindE (iterator_of (lfu_storage p) k) (\<lambda>it.
     bindE (node_erase it (frequency_storage p)) (\<lambda>fs.
       Inr (p\<lparr>frequency_storage := fs, lfu_storage := (lfu_storage p)(k := None)\<rparr>)))"

definition lfu_repl_candidate :: "'k lfu_policy \<Rightarrow> fault + 'k" where
  "lfu_repl_candidate p = bindE (node_front (frequency_storage p)) (\<lambda>x. Inr (snd x))"

definition lfu_ops :: "('k lfu_policy, 'k) cache_policy_ops" where
  "lfu_ops = \<lparr>pol_insert = lfu_insert, pol_touch = lfu_touch, pol_erase = lfu_erase,
     pol_repl_candidate = lfu_repl_candidate\<rparr>"

section \<open>Nodes and the index of their keys\<close>

text \<open>The hash map next to a container points from the key of each node to its address.\<close>

definition node_index :: "('a \<Rightarrow> 'k) \<Rightarrow> 'a nodes \<Rightarrow> ('k \<Rightarrow> nat option) \<Rightarrow> nat \<Rightarrow> bool" where
  "node_index key xs m n \<longleftrightarrow> distinct (map fst xs) \<and> distinct (map (key \<circ> snd) xs) \<and>
     (\<forall>k it. m k = Some it \<longleftrightarrow> (\<exists>x. (it, x) \<in> set xs \<and> key x = k)) \<and> (\<forall>it \<in> fst ` set xs. it < n)"

definition node_keys :: "('a \<Rightarrow> 'k) \<Rightarrow> 'a nodes \<Rightarrow> 'k set" where
  "node_keys key xs = (key \<circ> snd) ` set xs"

lemma node_index_empty [simp]: "node_index key [] (\<lambda>_. None) n"
  by (simp add: node_index_def)

lemma node_index_insert:
  assumes "node_index key (us @ vs) m n" "key x \<notin> node_keys key (us @ vs)"
  shows "node_index key (us @ (n, x) # vs) (m(key x \<mapsto> n)) (n + 1)"
proof -
  have "n \<notin> fst ` set (us @ vs)" using assms(1) by (auto simp: node_index_def)
  then show ?thesis using assms unfolding node_index_def node_keys_def
    by (auto simp: image_iff less_Suc_eq Ball_def) metis+
qed

lemma node_index_find:
  assumes "node_index key xs m n" "k \<in> node_keys key xs"
  obtains it x where "m k = Some it" "(it, x) \<in> set xs" "key x = k" "node_at it xs = Inr x"
proof -
  obtain it x where x: "(it, x) \<in> set xs" "key x = k" using assms(2) by (auto simp: node_keys_def)
  moreover have "m k = Some it" using assms(1) x by (auto simp: node_index_def)
  moreover have "map_of xs it = Some x" using assms(1) x by (simp add: node_index_def)
  ultimately show ?thesis using that by (simp add: node_at_def)
qed

lemma distinct_snd_unique:
  assumes "distinct (map (key \<circ> snd) xs)" "(i, x) \<in> set xs" "(j, y) \<in> set xs" "key x = key y"
  shows "i = j \<and> x = y"
proof -
  have "inj_on (key \<circ> snd) (set xs)" using assms(1) by (simp add: distinct_map)
  then show ?thesis using assms(2-4) by (auto dest!: inj_onD [of _ _ "(i, x)" "(j, y)"])
qed

lemma node_index_erase:
  assumes "node_index key xs m n" "(it, x) \<in> set xs" "key x = k"
  shows "node_erase it xs = Inr (filter (\<lambda>a. key (snd a) \<noteq> k) xs)"
    "node_index key (filter (\<lambda>a. key (snd a) \<noteq> k) xs) (m(k := None)) n"
    "node_keys key (filter (\<lambda>a. key (snd a) \<noteq> k) xs) = node_keys key xs - {k}"
proof -
  have d: "distinct (map fst xs)" "distinct (map (key \<circ> snd) xs)" using assms(1) by (auto simp: node_index_def)
  have "fst a \<noteq> it \<longleftrightarrow> key (snd a) \<noteq> k" if "a \<in> set xs" for a
  proof -
    have a: "(fst a, snd a) \<in> set xs" using that by simp
    show ?thesis
      using assms(3) distinct_snd_unique [OF d(2) assms(2) a] eq_key_imp_eq_value [OF d(1) assms(2), of "snd a"] a by metis
  qed
  then have "filter (\<lambda>a. fst a \<noteq> it) xs = filter (\<lambda>a. key (snd a) \<noteq> k) xs" by (intro filter_cong) auto
  then show "node_erase it xs = Inr (filter (\<lambda>a. key (snd a) \<noteq> k) xs)"
    using assms(2) by (force simp: node_erase_def)
  show "node_index key (filter (\<lambda>a. key (snd a) \<noteq> k) xs) (m(k := None)) n"
    using assms(1) by (auto simp: node_index_def distinct_map_filter)
  show "node_keys key (filter (\<lambda>a. key (snd a) \<noteq> k) xs) = node_keys key xs - {k}"
    by (auto simp: node_keys_def)
qed

lemma node_index_splice:
  assumes "node_index key xs m n" "(it, x) \<in> set xs" "key x = k"
  shows "node_splice_front it xs = Inr ((it, x) # filter (\<lambda>a. key (snd a) \<noteq> k) xs)"
    "node_index key ((it, x) # filter (\<lambda>a. key (snd a) \<noteq> k) xs) m n"
    "node_keys key ((it, x) # filter (\<lambda>a. key (snd a) \<noteq> k) xs) = node_keys key xs"
proof -
  note e = node_index_erase [OF assms]
  have d: "distinct (map fst xs)" and m: "m k = Some it" and it: "it < n" using assms by (force simp: node_index_def)+
  have f: "filter (\<lambda>a. fst a \<noteq> it) xs = filter (\<lambda>a. key (snd a) \<noteq> k) xs"
    using e(1) assms(2) by (auto simp: node_erase_def split: if_splits)
  show "node_splice_front it xs = Inr ((it, x) # filter (\<lambda>a. key (snd a) \<noteq> k) xs)"
    using d assms(2) f by (simp add: node_splice_front_def node_at_def)
  have "it \<notin> fst ` set (filter (\<lambda>a. key (snd a) \<noteq> k) xs)" unfolding f [symmetric] by auto
  then show "node_index key ((it, x) # filter (\<lambda>a. key (snd a) \<noteq> k) xs) m n"
    using e(2) m it assms(3) unfolding node_index_def by (auto split: if_splits) (metis option.inject)
  show "node_keys key ((it, x) # filter (\<lambda>a. key (snd a) \<noteq> k) xs) = node_keys key xs"
    using assms by (force simp: node_keys_def)
qed

lemma node_keys_empty [simp]: "node_keys key xs = {} \<longleftrightarrow> xs = []"
  by (simp add: node_keys_def)

lemma node_keys_insert [simp]: "node_keys key (us @ (n, x) # vs) = insert (key x) (node_keys key (us @ vs))"
  by (auto simp: node_keys_def)

section \<open>The contract of a policy\<close>

text \<open>
  What the cache relies on: under the policy's invariant the policy knows a set of keys; a new key may
  be inserted, a known one touched or erased without a fault, and there is a candidate among the known
  keys unless there are none.
\<close>

locale replacement_policy =
  fixes ops :: "('p, 'k) cache_policy_ops" and pinv :: "'p \<Rightarrow> bool" and keys :: "'p \<Rightarrow> 'k set"
  assumes insert_ok: "pinv p \<Longrightarrow> k \<notin> keys p \<Longrightarrow> \<exists>p'. pol_insert ops k p = Inr p' \<and> pinv p' \<and> keys p' = insert k (keys p)"
    and touch_ok: "pinv p \<Longrightarrow> k \<in> keys p \<Longrightarrow> \<exists>p'. pol_touch ops k p = Inr p' \<and> pinv p' \<and> keys p' = keys p"
    and erase_ok: "pinv p \<Longrightarrow> k \<in> keys p \<Longrightarrow> \<exists>p'. pol_erase ops k p = Inr p' \<and> pinv p' \<and> keys p' = keys p - {k}"
    and candidate_ok: "pinv p \<Longrightarrow> keys p \<noteq> {} \<Longrightarrow> \<exists>k \<in> keys p. pol_repl_candidate ops p = Inr k"

definition no_cache_inv :: "'k no_cache_policy \<Rightarrow> bool" where
  "no_cache_inv p \<longleftrightarrow> distinct (key_storage p)"

definition no_cache_keys :: "'k no_cache_policy \<Rightarrow> 'k set" where
  "no_cache_keys p = set (key_storage p)"

definition fifo_inv :: "'k fifo_policy \<Rightarrow> bool" where
  "fifo_inv p \<longleftrightarrow> node_index id (fifo_queue p) (key_lookup p) (fifo_fresh p)"

definition fifo_keys :: "'k fifo_policy \<Rightarrow> 'k set" where
  "fifo_keys p = node_keys id (fifo_queue p)"

definition lru_inv :: "'k lru_policy \<Rightarrow> bool" where
  "lru_inv p \<longleftrightarrow> node_index id (lru_queue p) (key_finder p) (lru_fresh p)"

definition lru_keys :: "'k lru_policy \<Rightarrow> 'k set" where
  "lru_keys p = node_keys id (lru_queue p)"

definition lfu_inv :: "'k lfu_policy \<Rightarrow> bool" where
  "lfu_inv p \<longleftrightarrow> node_index snd (frequency_storage p) (lfu_storage p) (lfu_fresh p) \<and>
     sorted (map (fst \<circ> snd) (frequency_storage p))"

definition lfu_keys :: "'k lfu_policy \<Rightarrow> 'k set" where
  "lfu_keys p = node_keys snd (frequency_storage p)"

lemma node_back_key: "xs \<noteq> [] \<Longrightarrow> \<exists>k \<in> node_keys id xs. node_back xs = Inr k"
  by (auto simp: node_back_def node_keys_def intro!: bexI [of _ "last xs"])

text \<open>The effect of the operations on the queues, as lists of keys.\<close>

lemma fifo_insert_queue:
  assumes "fifo_inv p" "k \<notin> fifo_keys p"
  shows "\<exists>p'. fifo_insert k p = Inr p' \<and> fifo_inv p' \<and> map snd (fifo_queue p') = k # map snd (fifo_queue p)"
  using assms node_index_insert [of id "[]" "fifo_queue p" "key_lookup p" "fifo_fresh p" k]
  by (simp add: fifo_insert_def fifo_inv_def fifo_keys_def)

lemma fifo_erase_queue:
  assumes "fifo_inv p" "k \<in> fifo_keys p"
  shows "\<exists>p'. fifo_erase k p = Inr p' \<and> fifo_inv p' \<and> map snd (fifo_queue p') = filter (\<lambda>a. a \<noteq> k) (map snd (fifo_queue p))"
proof -
  obtain it x where i: "key_lookup p k = Some it" "(it, x) \<in> set (fifo_queue p)" "id x = k"
    using node_index_find [of id] assms unfolding fifo_inv_def fifo_keys_def by metis
  show ?thesis using node_index_erase [where key = id, OF _ i(2,3)] i(1) assms
    by (simp add: fifo_erase_def fifo_inv_def iterator_of_def filter_map comp_def)
qed

lemma lru_insert_queue:
  assumes "lru_inv p" "k \<notin> lru_keys p"
  shows "\<exists>p'. lru_insert k p = Inr p' \<and> lru_inv p' \<and> map snd (lru_queue p') = k # map snd (lru_queue p)"
  using assms node_index_insert [of id "[]" "lru_queue p" "key_finder p" "lru_fresh p" k]
  by (simp add: lru_insert_def lru_inv_def lru_keys_def)

lemma lru_find:
  assumes "lru_inv p" "k \<in> lru_keys p"
  obtains it x where "key_finder p k = Some it" "(it, x) \<in> set (lru_queue p)" "id x = k"
  using node_index_find [of id] assms unfolding lru_inv_def lru_keys_def by metis

lemma lru_erase_queue:
  assumes "lru_inv p" "k \<in> lru_keys p"
  shows "\<exists>p'. lru_erase k p = Inr p' \<and> lru_inv p' \<and> map snd (lru_queue p') = filter (\<lambda>a. a \<noteq> k) (map snd (lru_queue p))"
proof -
  from assms obtain it x where i: "key_finder p k = Some it" "(it, x) \<in> set (lru_queue p)" "id x = k" by (rule lru_find)
  show ?thesis using node_index_erase [where key = id, OF _ i(2,3)] i(1) assms
    by (simp add: lru_erase_def lru_inv_def iterator_of_def filter_map comp_def)
qed

lemma lru_touch_queue:
  assumes "lru_inv p" "k \<in> lru_keys p"
  shows "\<exists>p'. lru_touch k p = Inr p' \<and> lru_inv p' \<and> map snd (lru_queue p') = k # filter (\<lambda>a. a \<noteq> k) (map snd (lru_queue p))"
proof -
  from assms obtain it x where i: "key_finder p k = Some it" "(it, x) \<in> set (lru_queue p)" "id x = k" by (rule lru_find)
  show ?thesis using node_index_splice [where key = id, OF _ i(2,3)] i assms
    by (simp add: lru_touch_def lru_inv_def iterator_of_def filter_map comp_def)
qed

text \<open>The frequencies.\<close>

definition lfu_freq :: "'k lfu_policy \<Rightarrow> 'k \<Rightarrow> u64" where
  "lfu_freq p k = fst (the (map_of (map (\<lambda>n. (snd (snd n), snd n)) (frequency_storage p)) k))"

lemma lfu_freq_eq:
  assumes "distinct (map (snd \<circ> snd) (frequency_storage p))" "(it, f, k) \<in> set (frequency_storage p)"
  shows "lfu_freq p k = f"
proof -
  have "map_of (map (\<lambda>n. (snd (snd n), snd n)) (frequency_storage p)) k = Some (f, k)"
    using assms by (intro map_of_is_SomeI) (force simp: comp_def)+
  then show ?thesis by (simp add: lfu_freq_def)
qed

lemma sorted_insert_first:
  assumes "sorted (map (fst \<circ> snd) xs)"
  shows "sorted (map (fst \<circ> snd) (multimap_insert_first it x xs))"
  using assms unfolding multimap_insert_first_def
  by (induction xs) (fastforce simp: sorted_append dest: set_takeWhileD)+

lemma sorted_insert_last:
  assumes "sorted (map (fst \<circ> snd) xs)"
  shows "sorted (map (fst \<circ> snd) (multimap_insert_last it x xs))"
  using assms unfolding multimap_insert_last_def
  by (induction xs) (fastforce simp: sorted_append dest: set_takeWhileD)+

lemma multimap_insert_index:
  assumes "node_index snd xs m n" "snd x \<notin> node_keys snd xs"
  shows "node_index snd (multimap_insert_first n x xs) (m(snd x \<mapsto> n)) (n + 1)"
    "node_index snd (multimap_insert_last n x xs) (m(snd x \<mapsto> n)) (n + 1)"
    "node_keys snd (multimap_insert_first n x xs) = insert (snd x) (node_keys snd xs)"
    "node_keys snd (multimap_insert_last n x xs) = insert (snd x) (node_keys snd xs)"
  unfolding multimap_insert_first_def multimap_insert_last_def
  using assms node_index_insert [of snd "takeWhile P xs" "dropWhile P xs" m n x for P]
  by (simp_all only: node_keys_insert takeWhile_dropWhile_id) blast+

lemma lfu_insert_storage:
  assumes "lfu_inv p" "k \<notin> lfu_keys p"
  shows "\<exists>p'. lfu_insert k p = Inr p' \<and> lfu_inv p' \<and> lfu_keys p' = insert k (lfu_keys p) \<and>
    set (map snd (frequency_storage p')) = insert (1, k) (set (map snd (frequency_storage p)))"
proof -
  have "set (multimap_insert_first n x xs) = insert (n, x) (set xs)" for n :: nat and x :: "u64 \<times> 'a" and xs
    unfolding multimap_insert_first_def set_append list.set
    by (metis Un_insert_right set_append takeWhile_dropWhile_id)
  then show ?thesis
    using assms multimap_insert_index [of "frequency_storage p" "lfu_storage p" "lfu_fresh p" "(1, k)"]
    by (auto simp: lfu_insert_def lfu_inv_def lfu_keys_def sorted_insert_first)
qed

lemma lfu_find:
  assumes "lfu_inv p" "k \<in> lfu_keys p"
  obtains it f where "lfu_storage p k = Some it" "(it, f, k) \<in> set (frequency_storage p)"
    "node_at it (frequency_storage p) = Inr (f, k)"
proof -
  have "node_index snd (frequency_storage p) (lfu_storage p) (lfu_fresh p)" "k \<in> node_keys snd (frequency_storage p)"
    using assms by (simp_all add: lfu_inv_def lfu_keys_def)
  then show ?thesis by (rule node_index_find) (use that in \<open>auto\<close>)
qed

lemma sorted_map_filter: "sorted (map f xs) \<Longrightarrow> sorted (map f (filter P xs))"
  by (induction xs) auto

lemma lfu_erase_storage:
  assumes "lfu_inv p" "k \<in> lfu_keys p"
  shows "\<exists>p'. lfu_erase k p = Inr p' \<and> lfu_inv p' \<and> lfu_keys p' = lfu_keys p - {k} \<and>
    frequency_storage p' = filter (\<lambda>a. snd (snd a) \<noteq> k) (frequency_storage p)"
proof -
  from assms obtain it f where i: "lfu_storage p k = Some it" "(it, f, k) \<in> set (frequency_storage p)" by (rule lfu_find)
  have ni: "node_index snd (frequency_storage p) (lfu_storage p) (lfu_fresh p)" using assms by (simp add: lfu_inv_def)
  note e = node_index_erase [OF ni i(2), of k, simplified]
  show ?thesis using e i(1) assms(1)
    by (simp add: lfu_erase_def lfu_inv_def iterator_of_def lfu_keys_def sorted_map_filter)
qed

lemma lfu_touch_storage:
  assumes "lfu_inv p" "k \<in> lfu_keys p"
  shows "\<exists>p' f. lfu_touch k p = Inr p' \<and> lfu_inv p' \<and> lfu_keys p' = lfu_keys p \<and>
    (f, k) \<in> set (map snd (frequency_storage p)) \<and>
    set (map snd (frequency_storage p')) = insert (f + 1, k) (set (map snd (frequency_storage p)) - {(f, k)})"
proof -
  let ?fs = "filter (\<lambda>a. snd (snd a) \<noteq> k) (frequency_storage p)"
  from assms obtain it f where i: "lfu_storage p k = Some it" "(it, f, k) \<in> set (frequency_storage p)"
    "node_at it (frequency_storage p) = Inr (f, k)" by (rule lfu_find)
  have ni: "node_index snd (frequency_storage p) (lfu_storage p) (lfu_fresh p)" using assms by (simp add: lfu_inv_def)
  note e = node_index_erase [OF ni i(2), of k, simplified]
  have new: "snd (f + 1, k) \<notin> node_keys snd ?fs" unfolding e(3) by simp
  note m = multimap_insert_index [OF e(2) new]
  have set: "set (multimap_insert_last n x xs) = insert (n, x) (set xs)" for n :: nat and x :: "u64 \<times> 'a" and xs
    unfolding multimap_insert_last_def set_append list.set
    by (metis Un_insert_right set_append takeWhile_dropWhile_id)
  have keys: "insert k (node_keys snd (frequency_storage p)) = node_keys snd (frequency_storage p)"
    using assms(2) by (auto simp: lfu_keys_def)
  have "(g, k) \<in> snd ` set (frequency_storage p) \<Longrightarrow> g = f" for g
    using ni i(2) distinct_snd_unique [of snd "frequency_storage p" it "(f, k)"] unfolding node_index_def by fastforce
  then have others: "snd ` set ?fs = snd ` set (frequency_storage p) - {(f, k)}" by force
  let ?p' = "\<lparr>frequency_storage = multimap_insert_last (lfu_fresh p) (f + 1, k) ?fs,
    lfu_storage = (lfu_storage p)(k \<mapsto> lfu_fresh p), lfu_fresh = lfu_fresh p + 1\<rparr>"
  have "lfu_touch k p = Inr ?p'" using i e(1) by (simp add: lfu_touch_def iterator_of_def Let_def)
  moreover have "lfu_inv ?p'" using m(2) assms(1) by (simp add: lfu_inv_def sorted_insert_last sorted_map_filter)
  moreover have "lfu_keys ?p' = lfu_keys p" using m(4) e(3) keys by (simp add: lfu_keys_def)
  moreover have "(f, k) \<in> set (map snd (frequency_storage p))" using i(2) by force
  ultimately show ?thesis using set others by (intro exI [of _ ?p'] exI [of _ f]) (simp del: set_filter)
qed

lemma lfu_candidate_min:
  assumes "lfu_inv p" "lfu_keys p \<noteq> {}"
  shows "\<exists>k \<in> lfu_keys p. lfu_repl_candidate p = Inr k \<and> (\<forall>k' \<in> lfu_keys p. lfu_freq p k \<le> lfu_freq p k')"
proof -
  obtain it f k xs where fs: "frequency_storage p = (it, f, k) # xs"
    using assms(2) by (cases "frequency_storage p") (auto simp: lfu_keys_def)
  have d: "distinct (map (snd \<circ> snd) (frequency_storage p))" using assms(1) by (simp add: lfu_inv_def node_index_def)
  have "f \<le> lfu_freq p k'" if k': "k' \<in> lfu_keys p" for k'
  proof -
    obtain it' f' where "(it', f', k') \<in> set (frequency_storage p)" using k' by (force simp: lfu_keys_def node_keys_def)
    then show ?thesis using lfu_freq_eq [OF d] assms(1) fs by (auto simp: lfu_inv_def)
  qed
  moreover have "lfu_freq p k = f" using lfu_freq_eq [OF d, of it f k] fs by simp
  ultimately show ?thesis
    by (intro bexI [of _ k]) (auto simp: lfu_repl_candidate_def node_front_def fs lfu_keys_def node_keys_def)
qed

section \<open>The policies satisfy the contract\<close>

interpretation fifo: replacement_policy fifo_ops fifo_inv fifo_keys
proof
  fix p :: "'k fifo_policy" and k
  assume i: "fifo_inv p"
  have keys: "fifo_keys q = set (map snd (fifo_queue q))" for q :: "'k fifo_policy" by (simp add: fifo_keys_def node_keys_def)
  show "\<exists>p'. pol_insert fifo_ops k p = Inr p' \<and> fifo_inv p' \<and> fifo_keys p' = insert k (fifo_keys p)" if "k \<notin> fifo_keys p"
    using fifo_insert_queue [OF i that] unfolding keys by (auto simp: fifo_ops_def simp del: set_map)
  show "\<exists>p'. pol_touch fifo_ops k p = Inr p' \<and> fifo_inv p' \<and> fifo_keys p' = fifo_keys p"
    using i by (simp add: fifo_ops_def fifo_touch_def)
  show "\<exists>p'. pol_erase fifo_ops k p = Inr p' \<and> fifo_inv p' \<and> fifo_keys p' = fifo_keys p - {k}" if "k \<in> fifo_keys p"
    using fifo_erase_queue [OF i that] unfolding keys by (auto simp: fifo_ops_def simp del: set_map)
  show "\<exists>k \<in> fifo_keys p. pol_repl_candidate fifo_ops p = Inr k" if "fifo_keys p \<noteq> {}"
    using node_back_key [of "fifo_queue p"] that by (simp add: fifo_ops_def fifo_repl_candidate_def fifo_keys_def)
qed

interpretation lru: replacement_policy lru_ops lru_inv lru_keys
proof
  fix p :: "'k lru_policy" and k
  assume i: "lru_inv p"
  have keys: "lru_keys q = set (map snd (lru_queue q))" for q :: "'k lru_policy" by (simp add: lru_keys_def node_keys_def)
  show "\<exists>p'. pol_insert lru_ops k p = Inr p' \<and> lru_inv p' \<and> lru_keys p' = insert k (lru_keys p)" if "k \<notin> lru_keys p"
    using lru_insert_queue [OF i that] unfolding keys by (auto simp: lru_ops_def simp del: set_map)
  show "\<exists>p'. pol_touch lru_ops k p = Inr p' \<and> lru_inv p' \<and> lru_keys p' = lru_keys p" if "k \<in> lru_keys p"
    using lru_touch_queue [OF i that] that unfolding keys by (auto simp: lru_ops_def simp del: set_map)
  show "\<exists>p'. pol_erase lru_ops k p = Inr p' \<and> lru_inv p' \<and> lru_keys p' = lru_keys p - {k}" if "k \<in> lru_keys p"
    using lru_erase_queue [OF i that] unfolding keys by (auto simp: lru_ops_def simp del: set_map)
  show "\<exists>k \<in> lru_keys p. pol_repl_candidate lru_ops p = Inr k" if "lru_keys p \<noteq> {}"
    using node_back_key [of "lru_queue p"] that by (simp add: lru_ops_def lru_repl_candidate_def lru_keys_def)
qed

interpretation lfu: replacement_policy lfu_ops lfu_inv lfu_keys
proof
  fix p :: "'k lfu_policy" and k
  assume i: "lfu_inv p"
  show "\<exists>p'. pol_insert lfu_ops k p = Inr p' \<and> lfu_inv p' \<and> lfu_keys p' = insert k (lfu_keys p)" if "k \<notin> lfu_keys p"
    using lfu_insert_storage [OF i that] by (auto simp: lfu_ops_def)
  show "\<exists>p'. pol_touch lfu_ops k p = Inr p' \<and> lfu_inv p' \<and> lfu_keys p' = lfu_keys p" if "k \<in> lfu_keys p"
    using lfu_touch_storage [OF i that] by (auto simp: lfu_ops_def)
  show "\<exists>p'. pol_erase lfu_ops k p = Inr p' \<and> lfu_inv p' \<and> lfu_keys p' = lfu_keys p - {k}" if "k \<in> lfu_keys p"
    using lfu_erase_storage [OF i that] by (auto simp: lfu_ops_def)
  show "\<exists>k \<in> lfu_keys p. pol_repl_candidate lfu_ops p = Inr k" if "lfu_keys p \<noteq> {}"
    using lfu_candidate_min [OF i that] by (auto simp: lfu_ops_def)
qed

text \<open>
  For the policy without an order the contract holds for every choice function that picks one of the
  stored keys.
\<close>

lemma no_cache_policy_contract:
  assumes "\<And>ks. ks \<noteq> [] \<Longrightarrow> first ks \<in> set ks"
  shows "replacement_policy (no_cache_ops first) no_cache_inv no_cache_keys"
  using assms
  by unfold_locales
    (auto simp: no_cache_ops_def no_cache_insert_def no_cache_touch_def no_cache_erase_def no_cache_repl_candidate_def
      no_cache_inv_def distinct_removeAll no_cache_keys_def)

interpretation no_order: replacement_policy "no_cache_ops hd" no_cache_inv no_cache_keys
  by (rule no_cache_policy_contract) simp

end
