(* ===== verification/Fixed_Cache.thy ===== *)
theory Fixed_Cache
  imports Cache_Policies "HOL-Library.AList"
begin

text \<open>
  The fixed size cache (turbo/container/cache/cache_internal.h), generic in its replacement policy. The
  hash map of the items is an association list with distinct keys; its order stands for the iteration
  order of the hash map. A stored value and the \<open>shared_ptr\<close> to it are not distinguished. A callback is
  an opaque name, and the calls made are recorded in \<open>erase_log\<close>. Every operation of the source holds the
  mutex from its first to its last statement, so the operations are the atomic steps.
\<close>

record ('k, 'v, 'p, 'c) cache =
  cache_items_map :: "('k \<times> 'v) list"
  cache_policy :: 'p
  max_cache_size :: nat
  on_erase_callback :: "'c option"
  erase_log :: "('c \<times> 'k \<times> 'v) list"

definition cache_new :: "nat \<Rightarrow> 'p \<Rightarrow> 'c option \<Rightarrow> fault + ('k, 'v, 'p, 'c) cache" where
  "cache_new max_size policy on_erase =
     (if max_size = 0 then Inl Invalid_argument
      else Inr \<lparr>cache_items_map = [], cache_policy = policy, max_cache_size = max_size,
                on_erase_callback = on_erase, erase_log = []\<rparr>)"

definition find_elem :: "'k \<Rightarrow> ('k, 'v, 'p, 'c) cache \<Rightarrow> 'v option" where
  "find_elem key c = map_of (cache_items_map c) key"

definition erase_itr ::
  "('p, 'k) cache_policy_ops \<Rightarrow> 'k \<times> 'v \<Rightarrow> 'c option \<Rightarrow> ('k, 'v, 'p, 'c) cache \<Rightarrow> fault + ('k, 'v, 'p, 'c) cache" where
  "erase_itr ops elem cb c =
     (let prune_cb = (case cb of Some f \<Rightarrow> Some f | None \<Rightarrow> on_erase_callback c) in
      bindE (pol_erase ops (fst elem) (cache_policy c)) (\<lambda>p.
      case prune_cb of None \<Rightarrow> Inl Bad_function_call
      | Some f \<Rightarrow> Inr (c\<lparr>cache_policy := p, erase_log := erase_log c @ [(f, fst elem, snd elem)],
                       cache_items_map := AList.delete (fst elem) (cache_items_map c)\<rparr>)))"

definition cache_erase ::
  "('p, 'k) cache_policy_ops \<Rightarrow> 'k \<Rightarrow> 'c option \<Rightarrow> ('k, 'v, 'p, 'c) cache \<Rightarrow> fault + ('k, 'v, 'p, 'c) cache" where
  "cache_erase ops key cb c =
     (case find_elem key c of None \<Rightarrow> Inl Bad_iterator | Some v \<Rightarrow> erase_itr ops (key, v) cb c)"

definition cache_insert ::
  "('p, 'k) cache_policy_ops \<Rightarrow> 'k \<Rightarrow> 'v \<Rightarrow> ('k, 'v, 'p, 'c) cache \<Rightarrow> fault + ('k, 'v, 'p, 'c) cache" where
  "cache_insert ops key v c =
     bindE (pol_insert ops key (cache_policy c)) (\<lambda>p.
       Inr (c\<lparr>cache_policy := p, cache_items_map :=
         (if find_elem key c = None then cache_items_map c @ [(key, v)] else cache_items_map c)\<rparr>))"

definition cache_update ::
  "('p, 'k) cache_policy_ops \<Rightarrow> 'k \<Rightarrow> 'v \<Rightarrow> ('k, 'v, 'p, 'c) cache \<Rightarrow> fault + ('k, 'v, 'p, 'c) cache" where
  "cache_update ops key v c =
     bindE (pol_touch ops key (cache_policy c)) (\<lambda>p.
       Inr (c\<lparr>cache_policy := p, cache_items_map := AList.update key v (cache_items_map c)\<rparr>))"

definition get_internal ::
  "('p, 'k) cache_policy_ops \<Rightarrow> 'k \<Rightarrow> ('k, 'v, 'p, 'c) cache \<Rightarrow> fault + ('v option \<times> ('k, 'v, 'p, 'c) cache)" where
  "get_internal ops key c =
     (case find_elem key c of
        Some v \<Rightarrow> bindE (pol_touch ops key (cache_policy c)) (\<lambda>p. Inr (Some v, c\<lparr>cache_policy := p\<rparr>))
      | None \<Rightarrow> Inr (None, c))"

definition cache_put ::
  "('p, 'k) cache_policy_ops \<Rightarrow> 'k \<Rightarrow> 'v \<Rightarrow> 'c option \<Rightarrow> ('k, 'v, 'p, 'c) cache \<Rightarrow> fault + ('k, 'v, 'p, 'c) cache" where
  "cache_put ops key v cb c =
     (case find_elem key c of
        None \<Rightarrow>
          bindE (if length (cache_items_map c) + 1 > max_cache_size c
                 then bindE (pol_repl_candidate ops (cache_policy c)) (\<lambda>disp_candidate_key.
                        cache_erase ops disp_candidate_key cb c)
                 else Inr c) (\<lambda>c. cache_insert ops key v c)
      | Some _ \<Rightarrow> cache_update ops key v c)"

definition cache_try_get ::
  "('p, 'k) cache_policy_ops \<Rightarrow> 'k \<Rightarrow> ('k, 'v, 'p, 'c) cache \<Rightarrow> fault + (('v option \<times> bool) \<times> ('k, 'v, 'p, 'c) cache)" where
  "cache_try_get ops key c =
     bindE (get_internal ops key c) (\<lambda>(r, c). Inr ((r, r \<noteq> None), c))"

definition cache_get_or_die ::
  "('p, 'k) cache_policy_ops \<Rightarrow> 'k \<Rightarrow> ('k, 'v, 'p, 'c) cache \<Rightarrow> fault + ('v \<times> ('k, 'v, 'p, 'c) cache)" where
  "cache_get_or_die ops key c =
     bindE (get_internal ops key c) (\<lambda>(r, c). case r of Some v \<Rightarrow> Inr (v, c) | None \<Rightarrow> Inl Range_error)"

definition cache_contains :: "'k \<Rightarrow> ('k, 'v, 'p, 'c) cache \<Rightarrow> bool" where
  "cache_contains key c \<longleftrightarrow> find_elem key c \<noteq> None"

definition cache_size :: "('k, 'v, 'p, 'c) cache \<Rightarrow> nat" where
  "cache_size c = length (cache_items_map c)"

definition cache_remove ::
  "('p, 'k) cache_policy_ops \<Rightarrow> 'k \<Rightarrow> 'c option \<Rightarrow> ('k, 'v, 'p, 'c) cache \<Rightarrow> fault + (bool \<times> ('k, 'v, 'p, 'c) cache)" where
  "cache_remove ops key cb c =
     (case find_elem key c of
        None \<Rightarrow> Inr (False, c)
      | Some v \<Rightarrow> bindE (erase_itr ops (key, v) cb c) (\<lambda>c. Inr (True, c)))"

definition cache_set_prune_callback :: "'c option \<Rightarrow> ('k, 'v, 'p, 'c) cache \<Rightarrow> ('k, 'v, 'p, 'c) cache" where
  "cache_set_prune_callback cb c = c\<lparr>on_erase_callback := cb\<rparr>"

text \<open>The loop of \<open>prune\<close> ends because every erasure that succeeds removes an item.\<close>

lemma cache_erase_shorter:
  assumes "cache_erase ops key cb c = Inr c'"
  shows "length (cache_items_map c') < length (cache_items_map c)"
proof -
  have "\<exists>v. (key, v) \<in> set (cache_items_map c)"
    using assms by (auto simp: cache_erase_def find_elem_def split: option.splits dest: map_of_SomeD)
  moreover have "cache_items_map c' = AList.delete key (cache_items_map c)"
    using assms by (auto simp: cache_erase_def erase_itr_def Let_def bindE_eq_Inr split: option.splits)
  ultimately show ?thesis by (auto simp: AList.delete_eq intro!: length_filter_less)
qed

function cache_prune_loop ::
  "('p, 'k) cache_policy_ops \<Rightarrow> nat \<Rightarrow> 'c option \<Rightarrow> nat \<Rightarrow> ('k, 'v, 'p, 'c) cache \<Rightarrow> fault + (nat \<times> ('k, 'v, 'p, 'c) cache)" where
  "cache_prune_loop ops size_to_reserve cb pruned c =
     (if length (cache_items_map c) > size_to_reserve
      then bindE (pol_repl_candidate ops (cache_policy c)) (\<lambda>disp_candidate_key.
           bindE (cache_erase ops disp_candidate_key cb c) (\<lambda>c.
             cache_prune_loop ops size_to_reserve cb (pruned + 1) c))
      else Inr (pruned, c))"
  by pat_completeness auto
termination
  by (relation "measure (\<lambda>(ops, n, cb, pruned, c). length (cache_items_map c))") (auto intro: cache_erase_shorter)

definition cache_prune ::
  "('p, 'k) cache_policy_ops \<Rightarrow> nat \<Rightarrow> 'c option \<Rightarrow> ('k, 'v, 'p, 'c) cache \<Rightarrow> fault + (nat \<times> ('k, 'v, 'p, 'c) cache)" where
  "cache_prune ops size_to_reserve cb c = cache_prune_loop ops size_to_reserve cb 0 c"

primrec cache_clear_loop :: "('p, 'k) cache_policy_ops \<Rightarrow> ('k \<times> 'v) list \<Rightarrow> 'p \<Rightarrow> fault + 'p" where
  "cache_clear_loop ops [] p = Inr p"
| "cache_clear_loop ops (el # els) p = bindE (pol_erase ops (fst el) p) (cache_clear_loop ops els)"

definition cache_clear :: "('p, 'k) cache_policy_ops \<Rightarrow> ('k, 'v, 'p, 'c) cache \<Rightarrow> fault + ('k, 'v, 'p, 'c) cache" where
  "cache_clear ops c =
     bindE (cache_clear_loop ops (cache_items_map c) (cache_policy c)) (\<lambda>p.
       Inr (c\<lparr>cache_policy := p, cache_items_map := []\<rparr>))"

declare cache_prune_loop.simps [simp del]

section \<open>The cache over any policy that satisfies the contract\<close>

text \<open>The content of a cache as a partial function.\<close>

definition cache_content :: "('k, 'v, 'p, 'c) cache \<Rightarrow> 'k \<Rightarrow> 'v option" where
  "cache_content c = map_of (cache_items_map c)"

definition the_callback :: "'c option \<Rightarrow> ('k, 'v, 'p, 'c) cache \<Rightarrow> 'c option" where
  "the_callback cb c = (case cb of Some f \<Rightarrow> Some f | None \<Rightarrow> on_erase_callback c)"

definition cache_ok :: "('p \<Rightarrow> bool) \<Rightarrow> ('p \<Rightarrow> 'k set) \<Rightarrow> ('k, 'v, 'p, 'c) cache \<Rightarrow> bool" where
  "cache_ok pinv keys c \<longleftrightarrow> pinv (cache_policy c) \<and> keys (cache_policy c) = fst ` set (cache_items_map c) \<and>
     distinct (map fst (cache_items_map c)) \<and> length (cache_items_map c) \<le> max_cache_size c \<and> 0 < max_cache_size c"

lemma cache_okD:
  assumes "cache_ok pinv keys c"
  shows "pinv (cache_policy c)" "keys (cache_policy c) = fst ` set (cache_items_map c)"
    "distinct (map fst (cache_items_map c))" "length (cache_items_map c) \<le> max_cache_size c" "0 < max_cache_size c"
  using assms by (auto simp: cache_ok_def)

lemma keys_delete: "fst ` set (AList.delete k xs) = fst ` set xs - {k}"
  by (simp add: AList.delete_keys flip: set_map)

lemma length_delete:
  assumes "distinct (map fst xs)" "k \<in> fst ` set xs"
  shows "length (AList.delete k xs) = length xs - 1"
proof -
  have "length (AList.delete k xs) = card (fst ` set (AList.delete k xs))"
    using AList.distinct_delete [OF assms(1)] by (metis distinct_card length_map set_map)
  also note keys_delete
  finally show ?thesis using assms by (metis card_Diff_singleton distinct_card finite_set length_map set_map finite_imageI)
qed

text \<open>The entry that leaves the cache together with the callback that is told.\<close>

definition cache_evict :: "'c \<Rightarrow> 'k \<Rightarrow> ('k, 'v, 'p, 'c) cache \<Rightarrow> 'p \<Rightarrow> ('k, 'v, 'p, 'c) cache" where
  "cache_evict f k c p = c\<lparr>cache_policy := p, erase_log := erase_log c @ [(f, k, the (cache_content c k))],
     cache_items_map := AList.delete k (cache_items_map c)\<rparr>"

lemma cache_evict_simps [simp]:
  "cache_content (cache_evict f k c p) = (cache_content c)(k := None)" "cache_policy (cache_evict f k c p) = p"
  "erase_log (cache_evict f k c p) = erase_log c @ [(f, k, the (cache_content c k))]"
  "max_cache_size (cache_evict f k c p) = max_cache_size c" "on_erase_callback (cache_evict f k c p) = on_erase_callback c"
  "the_callback cb (cache_evict f k c p) = the_callback cb c"
  by (simp_all add: cache_evict_def cache_content_def AList.delete_conv' the_callback_def cong: option.case_cong)

lemma cache_contentD: "k \<in> dom (cache_content c) \<longleftrightarrow> k \<in> fst ` set (cache_items_map c)"
  by (simp add: cache_content_def dom_map_of_conv_image_fst)

context replacement_policy
begin

abbreviation ok :: "('k, 'v, 'p, 'c) cache \<Rightarrow> bool" where
  "ok \<equiv> cache_ok pinv keys"

lemma erase_cache:
  assumes "ok c" "k \<in> dom (cache_content c)" "the_callback cb c = Some f"
  shows "\<exists>p'. pol_erase ops k (cache_policy c) = Inr p' \<and> cache_erase ops k cb c = Inr (cache_evict f k c p') \<and>
    ok (cache_evict f k c p') \<and> length (cache_items_map (cache_evict f k c p')) = length (cache_items_map c) - 1"
proof -
  note o = cache_okD [OF assms(1)]
  have k: "k \<in> fst ` set (cache_items_map c)" using assms(2) by (simp add: cache_contentD)
  obtain p' where p': "pol_erase ops k (cache_policy c) = Inr p'" "pinv p'" "keys p' = keys (cache_policy c) - {k}"
    using erase_ok [of "cache_policy c" k] k o by auto
  then show ?thesis using assms o k length_delete [OF o(3) k]
    by (intro exI [of _ p'])
      (auto simp: cache_erase_def find_elem_def cache_content_def erase_itr_def the_callback_def cache_ok_def keys_delete
          AList.distinct_delete cache_evict_def)
qed

lemma erase_cache_null:
  assumes "ok c" "k \<in> dom (cache_content c)" "the_callback cb c = None"
  shows "cache_erase ops k cb c = Inl Bad_function_call"
proof -
  note o = cache_okD [OF assms(1)]
  have k: "k \<in> fst ` set (cache_items_map c)" using assms(2) by (simp add: cache_contentD)
  then obtain p' where p': "pol_erase ops k (cache_policy c) = Inr p'"
    using erase_ok [of "cache_policy c" k] o by auto
  then show ?thesis using assms(2,3)
    by (auto simp: cache_erase_def find_elem_def cache_content_def erase_itr_def the_callback_def)
qed

lemma insert_cache:
  assumes "ok c" "k \<notin> dom (cache_content c)" "length (cache_items_map c) < max_cache_size c"
  shows "\<exists>p' c'. pol_insert ops k (cache_policy c) = Inr p' \<and> cache_insert ops k v c = Inr c' \<and> ok c' \<and>
    cache_policy c' = p' \<and> cache_content c' = (cache_content c)(k \<mapsto> v) \<and> erase_log c' = erase_log c \<and>
    max_cache_size c' = max_cache_size c \<and> on_erase_callback c' = on_erase_callback c \<and>
    length (cache_items_map c') = length (cache_items_map c) + 1"
proof -
  note o = cache_okD [OF assms(1)]
  have k: "k \<notin> fst ` set (cache_items_map c)" using assms(2) by (simp add: cache_contentD)
  then have m: "map_of (cache_items_map c) k = None" by (simp add: map_of_eq_None_iff)
  obtain p' where p': "pol_insert ops k (cache_policy c) = Inr p'" "pinv p'" "keys p' = insert k (keys (cache_policy c))"
    using insert_ok [of "cache_policy c" k] k o by auto
  have "map_of (cache_items_map c @ [(k, v)]) = (map_of (cache_items_map c))(k \<mapsto> v)"
    using m by (auto simp: map_add_def fun_eq_iff split: option.splits)
  then show ?thesis using p' assms o k m
    by (auto simp: cache_insert_def find_elem_def cache_content_def cache_ok_def)
qed

lemma touch_cache:
  assumes "ok c" "cache_content c k = Some v"
  shows "\<exists>p'. pol_touch ops k (cache_policy c) = Inr p' \<and> get_internal ops k c = Inr (Some v, c\<lparr>cache_policy := p'\<rparr>) \<and>
    ok (c\<lparr>cache_policy := p'\<rparr>)"
proof -
  note o = cache_okD [OF assms(1)]
  have k: "k \<in> keys (cache_policy c)" using assms(2) cache_contentD [of k c] o by auto
  from touch_ok [OF o(1) k] show ?thesis using assms o
    by (auto simp: get_internal_def find_elem_def cache_content_def cache_ok_def)
qed

lemma update_cache:
  assumes "ok c" "cache_content c k = Some w"
  shows "\<exists>p' c'. pol_touch ops k (cache_policy c) = Inr p' \<and> cache_update ops k v c = Inr c' \<and> ok c' \<and>
    cache_policy c' = p' \<and> cache_content c' = (cache_content c)(k \<mapsto> v) \<and> erase_log c' = erase_log c \<and>
    max_cache_size c' = max_cache_size c \<and> on_erase_callback c' = on_erase_callback c \<and>
    length (cache_items_map c') = length (cache_items_map c)"
proof -
  note o = cache_okD [OF assms(1)]
  have k: "k \<in> fst ` set (cache_items_map c)" using assms(2) cache_contentD [of k c] by auto
  obtain p' where p': "pol_touch ops k (cache_policy c) = Inr p'" "pinv p'" "keys p' = keys (cache_policy c)"
    using touch_ok [of "cache_policy c" k] k o by auto
  let ?m = "AList.update k v (cache_items_map c)"
  have "fst ` set ?m = fst ` set (cache_items_map c)" using k by (auto simp: AList.dom_update)
  moreover have d: "distinct (map fst ?m)" using o(3) by (rule AList.distinct_update)
  ultimately have "length ?m = length (cache_items_map c)"
    using o(3) by (metis distinct_card length_map set_map)
  then show ?thesis using p' o k d \<open>fst ` set ?m = _\<close>
    by (simp add: cache_update_def cache_ok_def cache_content_def AList.update_conv')
qed

lemma put_cache:
  assumes "ok c" "length (cache_items_map c) = max_cache_size c \<Longrightarrow> cache_content c k = None \<Longrightarrow> the_callback cb c \<noteq> None"
  shows "\<exists>c'. cache_put ops k v cb c = Inr c' \<and> ok c' \<and> cache_content c' k = Some v \<and>
    max_cache_size c' = max_cache_size c \<and> on_erase_callback c' = on_erase_callback c \<and>
    (if cache_content c k \<noteq> None \<or> length (cache_items_map c) < max_cache_size c
     then cache_content c' = (cache_content c)(k \<mapsto> v) \<and> erase_log c' = erase_log c
     else \<exists>old f. pol_repl_candidate ops (cache_policy c) = Inr old \<and> old \<in> dom (cache_content c) \<and>
       the_callback cb c = Some f \<and> cache_content c' = (cache_content c)(old := None, k \<mapsto> v) \<and>
       erase_log c' = erase_log c @ [(f, old, the (cache_content c old))])"
proof (cases "cache_content c k")
  case Some
  with update_cache [OF assms(1) Some, of v] show ?thesis
    by (auto simp: cache_put_def find_elem_def cache_content_def [symmetric])
next
  case None
  note o = cache_okD [OF assms(1)]
  show ?thesis
  proof (cases "length (cache_items_map c) < max_cache_size c")
    case True
    have "k \<notin> dom (cache_content c)" using None by auto
    from insert_cache [OF assms(1) this True, of v] True None show ?thesis
      by (auto simp: cache_put_def find_elem_def cache_content_def [symmetric])
  next
    case False
    then have full: "length (cache_items_map c) = max_cache_size c" using o(4) by simp
    obtain f where f: "the_callback cb c = Some f" using assms(2) [OF full None] by auto
    have "keys (cache_policy c) \<noteq> {}" using full o by auto
    from candidate_ok [OF o(1) this] obtain old where old: "pol_repl_candidate ops (cache_policy c) = Inr old"
      "old \<in> dom (cache_content c)" using o(2) by (auto simp: cache_contentD)
    from erase_cache [OF assms(1) old(2) f] obtain p where p: "cache_erase ops old cb c = Inr (cache_evict f old c p)"
      "ok (cache_evict f old c p)" "length (cache_items_map (cache_evict f old c p)) = length (cache_items_map c) - 1" by blast
    have "k \<notin> dom (cache_content (cache_evict f old c p))" using None by auto
    moreover have "length (cache_items_map (cache_evict f old c p)) < max_cache_size (cache_evict f old c p)"
      using p(3) full o(5) by simp
    ultimately obtain c' where c': "cache_insert ops k v (cache_evict f old c p) = Inr c'" "ok c'"
      "cache_content c' = (cache_content (cache_evict f old c p))(k \<mapsto> v)" "erase_log c' = erase_log (cache_evict f old c p)"
      "max_cache_size c' = max_cache_size c" "on_erase_callback c' = on_erase_callback c"
      using insert_cache [OF p(2), of k v] by auto
    have "cache_put ops k v cb c = Inr c'" using None full old(1) p(1) c'(1)
      by (simp add: cache_put_def find_elem_def cache_content_def [symmetric])
    then show ?thesis using c' None False old f by auto
  qed
qed

lemma remove_cache:
  assumes "ok c" "the_callback cb c = Some f"
  shows "\<exists>c'. cache_remove ops k cb c = Inr (cache_content c k \<noteq> None, c') \<and> ok c' \<and>
    cache_content c' = (cache_content c)(k := None) \<and>
    erase_log c' = erase_log c @ (case cache_content c k of None \<Rightarrow> [] | Some v \<Rightarrow> [(f, k, v)])"
proof (cases "cache_content c k")
  case None
  then show ?thesis using assms by (auto simp: cache_remove_def find_elem_def cache_content_def [symmetric] fun_upd_idem)
next
  case (Some v)
  then have "k \<in> dom (cache_content c)" by auto
  from erase_cache [OF assms(1) this assms(2)] Some show ?thesis
    by (auto simp: cache_remove_def cache_erase_def find_elem_def cache_content_def [symmetric])
qed

lemma prune_loop_cache:
  assumes "ok c" "the_callback cb c = Some f"
  shows "\<exists>c' es. cache_prune_loop ops n cb pruned c = Inr (pruned + (length (cache_items_map c) - n), c') \<and> ok c' \<and>
    length (cache_items_map c') = min n (length (cache_items_map c)) \<and>
    erase_log c' = erase_log c @ map (\<lambda>(k, v). (f, k, v)) es \<and> length es = length (cache_items_map c) - n \<and>
    cache_content c = cache_content c' ++ map_of es"
  using assms
proof (induction "length (cache_items_map c)" arbitrary: c pruned rule: less_induct)
  case less
  show ?case
  proof (cases "length (cache_items_map c) > n")
    case False
    then show ?thesis using less.prems by (subst cache_prune_loop.simps) (auto intro!: exI [of _ "[]"])
  next
    case True
    note o = cache_okD [OF less.prems(1)]
    have "keys (cache_policy c) \<noteq> {}" using True o by auto
    from candidate_ok [OF o(1) this] obtain k v where k: "pol_repl_candidate ops (cache_policy c) = Inr k"
      "cache_content c k = Some v" using o(2) by (metis cache_contentD domD)
    from erase_cache [OF less.prems(1) _ less.prems(2), of k] k(2) obtain p where p:
      "cache_erase ops k cb c = Inr (cache_evict f k c p)" "ok (cache_evict f k c p)"
      "length (cache_items_map (cache_evict f k c p)) = length (cache_items_map c) - 1" by auto
    let ?d = "cache_evict f k c p"
    have "length (cache_items_map ?d) < length (cache_items_map c)" using p(3) True by simp
    from less.hyps [OF this p(2), of "pruned + 1"] obtain c' es where c':
      "cache_prune_loop ops n cb (pruned + 1) ?d = Inr (pruned + 1 + (length (cache_items_map ?d) - n), c')" "ok c'"
      "length (cache_items_map c') = min n (length (cache_items_map ?d))"
      "erase_log c' = erase_log ?d @ map (\<lambda>(k, v). (f, k, v)) es" "length es = length (cache_items_map ?d) - n"
      "cache_content ?d = cache_content c' ++ map_of es" using less.prems(2) by auto
    have run: "cache_prune_loop ops n cb pruned c = cache_prune_loop ops n cb (pruned + 1) ?d"
      using True k(1) p(1) by (subst cache_prune_loop.simps) simp
    have "cache_content c = cache_content c' ++ map_of ((k, v) # es)"
      using c'(6) k(2) by (auto simp: fun_eq_iff map_add_def split: option.splits if_splits)
    then show ?thesis unfolding run using c' p(3) True k(2)
      by (intro exI [of _ c'] exI [of _ "(k, v) # es"]) auto
  qed
qed

lemma clear_loop_ok:
  assumes "pinv p" "keys p = fst ` set els" "distinct (map fst els)"
  shows "\<exists>p'. cache_clear_loop ops els p = Inr p' \<and> pinv p' \<and> keys p' = {}"
  using assms
proof (induction els arbitrary: p)
  case (Cons el els)
  from erase_ok [of p "fst el"] Cons.prems obtain p1 where "pol_erase ops (fst el) p = Inr p1" "pinv p1" "keys p1 = fst ` set els"
    by auto
  with Cons.IH [of p1] Cons.prems show ?case by simp
qed simp

lemma clear_cache:
  assumes "ok c"
  shows "\<exists>c'. cache_clear ops c = Inr c' \<and> ok c' \<and> cache_items_map c' = [] \<and> erase_log c' = erase_log c"
  using clear_loop_ok [of "cache_policy c" "cache_items_map c"] cache_okD [OF assms]
  by (auto simp: cache_clear_def cache_ok_def)

end

end
