(* ===== verification/Cache_Order.thy ===== *)
theory Cache_Order
  imports Fixed_Cache
begin

text \<open>
  The caches whose policy keeps the keys in a list, against a reference cache that is one list of entries:
  the LRU and the FIFO cache. Further the properties of the LFU cache and of the cache without an order.
\<close>

section \<open>The reference cache\<close>

record ('k, 'v, 'c) ref_cache =
  ref_entries :: "('k \<times> 'v) list"
  ref_max :: nat
  ref_callback :: "'c option"
  ref_log :: "('c \<times> 'k \<times> 'v) list"

text \<open>An access moves the entry to the front (LRU) or leaves the order alone (FIFO).\<close>

definition to_front :: "bool \<Rightarrow> ('a \<Rightarrow> 'k) \<Rightarrow> 'k \<Rightarrow> 'a list \<Rightarrow> 'a list" where
  "to_front moves key k xs =
     (if moves then filter (\<lambda>x. key x = k) xs @ filter (\<lambda>x. key x \<noteq> k) xs else xs)"

definition ref_the_callback :: "'c option \<Rightarrow> ('k, 'v, 'c) ref_cache \<Rightarrow> 'c option" where
  "ref_the_callback cb r = (case cb of Some f \<Rightarrow> Some f | None \<Rightarrow> ref_callback r)"

definition ref_evict :: "'c option \<Rightarrow> ('k \<times> 'v) list \<Rightarrow> ('k, 'v, 'c) ref_cache \<Rightarrow> fault + ('k, 'v, 'c) ref_cache" where
  "ref_evict cb out r =
     (if out = [] then Inr r
      else case ref_the_callback cb r of
        None \<Rightarrow> Inl Bad_function_call
      | Some f \<Rightarrow> Inr (r\<lparr>ref_entries := filter (\<lambda>e. e \<notin> set out) (ref_entries r),
                       ref_log := ref_log r @ map (\<lambda>(k, v). (f, k, v)) out\<rparr>))"

definition ref_put :: "bool \<Rightarrow> 'k \<Rightarrow> 'v \<Rightarrow> 'c option \<Rightarrow> ('k, 'v, 'c) ref_cache \<Rightarrow> fault + ('k, 'v, 'c) ref_cache" where
  "ref_put moves k v cb r =
     (if k \<in> fst ` set (ref_entries r)
      then Inr (r\<lparr>ref_entries := to_front moves fst k (map (\<lambda>e. if fst e = k then (k, v) else e) (ref_entries r))\<rparr>)
      else bindE (ref_evict cb (drop (ref_max r - 1) (ref_entries r)) r) (\<lambda>r.
        Inr (r\<lparr>ref_entries := (k, v) # ref_entries r\<rparr>)))"

definition ref_get :: "bool \<Rightarrow> 'k \<Rightarrow> ('k, 'v, 'c) ref_cache \<Rightarrow> ('k, 'v, 'c) ref_cache" where
  "ref_get moves k r = r\<lparr>ref_entries := to_front moves fst k (ref_entries r)\<rparr>"

datatype ('k, 'v, 'c) cache_op =
    Put 'k 'v "'c option" | Try_get 'k | Get_or_die 'k | Contains 'k | Size
  | Remove 'k "'c option" | Set_prune_callback "'c option" | Prune nat "'c option"

datatype 'v cache_out = Done | Value "'v option" bool | Found 'v | Truth bool | Count nat

fun ref_step :: "bool \<Rightarrow> ('k, 'v, 'c) cache_op \<Rightarrow> ('k, 'v, 'c) ref_cache \<Rightarrow> fault + ('v cache_out \<times> ('k, 'v, 'c) ref_cache)" where
  "ref_step mv (Put k v cb) r = bindE (ref_put mv k v cb r) (\<lambda>r. Inr (Done, r))"
| "ref_step mv (Try_get k) r = Inr (Value (map_of (ref_entries r) k) (map_of (ref_entries r) k \<noteq> None), ref_get mv k r)"
| "ref_step mv (Get_or_die k) r =
     (case map_of (ref_entries r) k of None \<Rightarrow> Inl Range_error | Some v \<Rightarrow> Inr (Found v, ref_get mv k r))"
| "ref_step mv (Contains k) r = Inr (Truth (map_of (ref_entries r) k \<noteq> None), r)"
| "ref_step mv Size r = Inr (Count (length (ref_entries r)), r)"
| "ref_step mv (Remove k cb) r =
     bindE (ref_evict cb (filter (\<lambda>e. fst e = k) (ref_entries r)) r) (\<lambda>r'. Inr (Truth (map_of (ref_entries r) k \<noteq> None), r'))"
| "ref_step mv (Set_prune_callback cb) r = Inr (Done, r\<lparr>ref_callback := cb\<rparr>)"
| "ref_step mv (Prune n cb) r =
     bindE (ref_evict cb (rev (drop n (ref_entries r))) r) (\<lambda>r'. Inr (Count (length (ref_entries r) - n), r'))"

fun cache_step :: "('p, 'k) cache_policy_ops \<Rightarrow> ('k, 'v, 'c) cache_op \<Rightarrow> ('k, 'v, 'p, 'c) cache \<Rightarrow>
    fault + ('v cache_out \<times> ('k, 'v, 'p, 'c) cache)" where
  "cache_step ops (Put k v cb) c = bindE (cache_put ops k v cb c) (\<lambda>c. Inr (Done, c))"
| "cache_step ops (Try_get k) c = bindE (cache_try_get ops k c) (\<lambda>((r, b), c). Inr (Value r b, c))"
| "cache_step ops (Get_or_die k) c = bindE (cache_get_or_die ops k c) (\<lambda>(v, c). Inr (Found v, c))"
| "cache_step ops (Contains k) c = Inr (Truth (cache_contains k c), c)"
| "cache_step ops Size c = Inr (Count (cache_size c), c)"
| "cache_step ops (Remove k cb) c = bindE (cache_remove ops k cb c) (\<lambda>(b, c). Inr (Truth b, c))"
| "cache_step ops (Set_prune_callback cb) c = Inr (Done, cache_set_prune_callback cb c)"
| "cache_step ops (Prune n cb) c = bindE (cache_prune ops n cb c) (\<lambda>(n, c). Inr (Count n, c))"

fun run_steps :: "('op \<Rightarrow> 's \<Rightarrow> fault + ('o \<times> 's)) \<Rightarrow> 'op list \<Rightarrow> 's \<Rightarrow> 'o list \<times> (fault + 's)" where
  "run_steps st [] s = ([], Inr s)"
| "run_steps st (x # xs) s =
     (case st x s of Inl e \<Rightarrow> ([], Inl e) | Inr (y, s') \<Rightarrow> (let (ys, r) = run_steps st xs s' in (y # ys, r)))"

section \<open>Policies that keep an order\<close>

locale ordered_policy = replacement_policy ops pinv keys
  for ops :: "('p, 'k) cache_policy_ops" and pinv :: "'p \<Rightarrow> bool" and keys :: "'p \<Rightarrow> 'k set" +
  fixes ord :: "'p \<Rightarrow> 'k list" and moves :: bool
  assumes ord_distinct: "pinv p \<Longrightarrow> distinct (ord p)"
    and ord_keys: "pinv p \<Longrightarrow> set (ord p) = keys p"
    and ord_insert: "pinv p \<Longrightarrow> k \<notin> keys p \<Longrightarrow> pol_insert ops k p = Inr p' \<Longrightarrow> ord p' = k # ord p"
    and ord_touch: "pinv p \<Longrightarrow> k \<in> keys p \<Longrightarrow> pol_touch ops k p = Inr p' \<Longrightarrow> ord p' = to_front moves id k (ord p)"
    and ord_erase: "pinv p \<Longrightarrow> k \<in> keys p \<Longrightarrow> pol_erase ops k p = Inr p' \<Longrightarrow> ord p' = filter (\<lambda>a. a \<noteq> k) (ord p)"
    and ord_candidate: "pinv p \<Longrightarrow> keys p \<noteq> {} \<Longrightarrow> pol_repl_candidate ops p = Inr (last (ord p))"

definition cache_entries :: "('p \<Rightarrow> 'k list) \<Rightarrow> ('k, 'v, 'p, 'c) cache \<Rightarrow> ('k \<times> 'v) list" where
  "cache_entries ord c = map (\<lambda>k. (k, the (cache_content c k))) (ord (cache_policy c))"

definition cache_abs :: "('p \<Rightarrow> 'k list) \<Rightarrow> ('k, 'v, 'p, 'c) cache \<Rightarrow> ('k, 'v, 'c) ref_cache" where
  "cache_abs ord c = \<lparr>ref_entries = cache_entries ord c, ref_max = max_cache_size c,
     ref_callback = on_erase_callback c, ref_log = erase_log c\<rparr>"

definition simulates :: "('s \<Rightarrow> bool) \<Rightarrow> ('s \<Rightarrow> 'r) \<Rightarrow> fault + ('o \<times> 's) \<Rightarrow> fault + ('o \<times> 'r) \<Rightarrow> bool" where
  "simulates good view a b \<longleftrightarrow> (case b of Inl e \<Rightarrow> a = Inl e | Inr (y, r) \<Rightarrow> (\<exists>s. a = Inr (y, s) \<and> good s \<and> view s = r))"

lemma simulates_run:
  assumes "\<And>x s. good s \<Longrightarrow> simulates good view (f x s) (g x (view s))" "good s"
  shows "fst (run_steps f xs s) = fst (run_steps g xs (view s)) \<and>
    map_sum id view (snd (run_steps f xs s)) = snd (run_steps g xs (view s)) \<and>
    (\<forall>s'. snd (run_steps f xs s) = Inr s' \<longrightarrow> good s')"
  using assms(2)
proof (induction xs arbitrary: s)
  case (Cons x xs)
  have s: "simulates good view (f x s) (g x (view s))" using assms(1) Cons.prems .
  show ?case
  proof (cases "g x (view s)")
    case (Inl e) then show ?thesis using s by (simp add: simulates_def)
  next
    case (Inr yr)
    then obtain s' where "f x s = Inr (fst yr, s')" "good s'" "view s' = snd yr"
      using s by (cases yr) (auto simp: simulates_def)
    then show ?thesis using Cons.IH [of s'] Inr by (cases yr) (auto simp: Let_def split: prod.splits)
  qed
qed simp

section \<open>Every step of an ordered cache is a step of the reference cache\<close>

lemma filter_last: "distinct ks \<Longrightarrow> ks \<noteq> [] \<Longrightarrow> filter (\<lambda>a. a \<noteq> last ks) ks = butlast ks"
  by (induction ks rule: rev_induct) (auto simp: filter_id_conv)

lemma to_front_map: "to_front mv key k (map f xs) = map f (to_front mv (key \<circ> f) k xs)"
  by (simp add: to_front_def filter_map comp_def)

lemma view_simps [simp]:
  "ref_entries (cache_abs ord c) = cache_entries ord c" "ref_max (cache_abs ord c) = max_cache_size c"
  "ref_the_callback cb (cache_abs ord c) = the_callback cb c" "ref_log (cache_abs ord c) = erase_log c"
  by (simp_all add: cache_abs_def ref_the_callback_def the_callback_def cong: option.case_cong)

lemma ref_evict_Cons: "ref_evict cb (x # out) r = bindE (ref_evict cb [x] r) (ref_evict cb out)"
  by (auto simp: ref_evict_def ref_the_callback_def conj_commute cong: option.case_cong split: option.splits)

lemma filter_key_single:
  assumes "distinct (map fst xs)" "map_of xs k = Some v"
  shows "filter (\<lambda>e. fst e = k) xs = [(k, v)]"
  using assms by (induction xs) (auto simp: filter_empty_conv split: if_splits, force)

context ordered_policy
begin

abbreviation entries :: "('k, 'v, 'p, 'c) cache \<Rightarrow> ('k \<times> 'v) list" where
  "entries \<equiv> cache_entries ord"

abbreviation view :: "('k, 'v, 'p, 'c) cache \<Rightarrow> ('k, 'v, 'c) ref_cache" where
  "view \<equiv> cache_abs ord"

lemma entries_keys:
  assumes "ok c"
  shows "map fst (entries c) = ord (cache_policy c)" "distinct (map fst (entries c))"
    "fst ` set (entries c) = dom (cache_content c)" "map_of (entries c) = cache_content c"
    "length (entries c) = length (cache_items_map c)"
proof -
  note o = cache_okD [OF assms]
  show k: "map fst (entries c) = ord (cache_policy c)" by (simp add: cache_entries_def comp_def)
  show d: "distinct (map fst (entries c))" unfolding k by (rule ord_distinct [OF o(1)])
  show f: "fst ` set (entries c) = dom (cache_content c)"
    using ord_keys [OF o(1)] o(2) unfolding set_map [symmetric] k
    by (simp add: cache_content_def dom_map_of_conv_image_fst)
  show "map_of (entries c) = cache_content c"
  proof
    fix x
    show "map_of (entries c) x = cache_content c x"
    proof (cases "x \<in> dom (cache_content c)")
      case True
      then have "(x, the (cache_content c x)) \<in> set (entries c)"
        using f by (auto simp: cache_entries_def image_image)
      then show ?thesis using True d by (auto simp: map_of_is_SomeI)
    next
      case False
      then show ?thesis using f by (metis domIff map_of_eq_None_iff)
    qed
  qed
  have "length (entries c) = card (fst ` set (entries c))" using d by (metis distinct_card length_map set_map)
  also have "\<dots> = length (cache_items_map c)"
    using o(3) unfolding f cache_content_def dom_map_of_conv_image_fst by (metis distinct_card length_map set_map)
  finally show "length (entries c) = length (cache_items_map c)" .
qed

lemma entries_evict:
  assumes "ok c" "k \<in> dom (cache_content c)" "pol_erase ops k (cache_policy c) = Inr p'"
  shows "entries (cache_evict f k c p') = filter (\<lambda>e. fst e \<noteq> k) (entries c)"
proof -
  note o = cache_okD [OF assms(1)]
  have "k \<in> keys (cache_policy c)" using assms(2) o(2) by (simp add: cache_contentD)
  from ord_erase [OF o(1) this assms(3)] show ?thesis
    by (simp add: cache_entries_def filter_map comp_def)
qed

lemma view_evict:
  assumes "ok c" "k \<in> dom (cache_content c)" "pol_erase ops k (cache_policy c) = Inr p'" "the_callback cb c = Some f"
  shows "ref_evict cb [(k, the (cache_content c k))] (view c) = Inr (view (cache_evict f k c p'))"
proof -
  have "filter (\<lambda>e. e \<noteq> (k, the (cache_content c k))) (entries c) = filter (\<lambda>e. fst e \<noteq> k) (entries c)"
    by (intro filter_cong) (auto simp: cache_entries_def)
  then show ?thesis using assms(4) entries_evict [OF assms(1-3)]
    by (simp add: ref_evict_def) (simp add: cache_abs_def)
qed

lemma sim_evict:
  assumes "ok c" "k \<in> dom (cache_content c)"
  shows "simulates ok view (bindE (cache_erase ops k cb c) (\<lambda>c. Inr (y, c)))
    (bindE (ref_evict cb [(k, the (cache_content c k))] (view c)) (\<lambda>r. Inr (y, r)))"
proof (cases "the_callback cb c")
  case None
  then show ?thesis using erase_cache_null [OF assms None]
    by (simp add: simulates_def ref_evict_def)
next
  case (Some f)
  from erase_cache [OF assms Some] view_evict [OF assms _ Some] show ?thesis
    by (auto simp: simulates_def)
qed

lemma view_insert:
  assumes "ok c" "k \<notin> dom (cache_content c)" "length (cache_items_map c) < max_cache_size c"
  shows "\<exists>c'. cache_insert ops k v c = Inr c' \<and> ok c' \<and> view c' = view c\<lparr>ref_entries := (k, v) # entries c\<rparr>"
proof -
  note o = cache_okD [OF assms(1)]
  obtain p' c' where c': "pol_insert ops k (cache_policy c) = Inr p'" "cache_insert ops k v c = Inr c'" "ok c'"
    "cache_policy c' = p'" "cache_content c' = (cache_content c)(k \<mapsto> v)" "erase_log c' = erase_log c"
    "max_cache_size c' = max_cache_size c" "on_erase_callback c' = on_erase_callback c"
    using insert_cache [OF assms] by blast
  have k: "k \<notin> keys (cache_policy c)" using assms(2) o(2) by (simp add: cache_contentD)
  then have "k \<notin> set (ord (cache_policy c))" using ord_keys [OF o(1)] by simp
  then have "entries c' = (k, v) # entries c"
    using c' ord_insert [OF o(1) k c'(1)] by (auto simp: cache_entries_def)
  then show ?thesis using c' by (simp add: cache_abs_def)
qed

lemma view_touch:
  assumes "ok c" "k \<in> dom (cache_content c)" "pol_touch ops k (cache_policy c) = Inr p'"
  shows "view (c\<lparr>cache_policy := p'\<rparr>) = ref_get moves k (view c)"
proof -
  note o = cache_okD [OF assms(1)]
  have k: "k \<in> keys (cache_policy c)" using assms(2) o(2) by (simp add: cache_contentD)
  from ord_touch [OF o(1) k assms(3)] show ?thesis
    by (simp add: cache_abs_def ref_get_def cache_entries_def to_front_map comp_def cache_content_def id_def)
qed

lemma view_update:
  assumes "ok c" "cache_content c k = Some w"
  shows "\<exists>c'. cache_update ops k v c = Inr c' \<and> ok c' \<and>
    view c' = view c\<lparr>ref_entries := to_front moves fst k (map (\<lambda>e. if fst e = k then (k, v) else e) (entries c))\<rparr>"
proof -
  note o = cache_okD [OF assms(1)]
  obtain p' c' where c': "pol_touch ops k (cache_policy c) = Inr p'" "cache_update ops k v c = Inr c'" "ok c'"
    "cache_policy c' = p'" "cache_content c' = (cache_content c)(k \<mapsto> v)" "erase_log c' = erase_log c"
    "max_cache_size c' = max_cache_size c" "on_erase_callback c' = on_erase_callback c"
    using update_cache [OF assms] by blast
  have k: "k \<in> keys (cache_policy c)" using assms(2) o(2) cache_contentD [of k c] by auto
  have "entries c' = map (\<lambda>a. (a, the (((cache_content c)(k \<mapsto> v)) a))) (to_front moves id k (ord (cache_policy c)))"
    using c' ord_touch [OF o(1) k c'(1)] by (simp add: cache_entries_def)
  also have "\<dots> = map (\<lambda>e. if fst e = k then (k, v) else e)
      (map (\<lambda>a. (a, the (cache_content c a))) (to_front moves id k (ord (cache_policy c))))" by simp
  also have "\<dots> = to_front moves fst k (map (\<lambda>e. if fst e = k then (k, v) else e) (entries c))"
    unfolding cache_entries_def to_front_map by (simp add: to_front_def comp_def id_def cong: if_cong)
  finally show ?thesis using c' by (simp add: cache_abs_def)
qed

lemma last_entry:
  assumes "ok c" "entries c \<noteq> []"
  shows "\<exists>k. pol_repl_candidate ops (cache_policy c) = Inr k \<and> k \<in> dom (cache_content c) \<and>
    last (entries c) = (k, the (cache_content c k)) \<and> filter (\<lambda>e. fst e \<noteq> k) (entries c) = butlast (entries c)"
proof -
  note o = cache_okD [OF assms(1)] and e = entries_keys [OF assms(1)]
  let ?k = "last (ord (cache_policy c))"
  have ne: "ord (cache_policy c) \<noteq> []" using assms(2) by (simp add: cache_entries_def)
  then have "?k \<in> dom (cache_content c)" using e(3) unfolding set_map [symmetric] e(1) by (metis last_in_set)
  moreover have "last (entries c) = (?k, the (cache_content c ?k))" using ne by (simp add: cache_entries_def last_map)
  moreover have "filter (\<lambda>e. fst e \<noteq> ?k) (entries c) = butlast (entries c)"
    using filter_last [OF ord_distinct [OF o(1)] ne] by (simp add: cache_entries_def filter_map comp_def map_butlast)
  moreover have "keys (cache_policy c) \<noteq> {}" using ne ord_keys [OF o(1)] by auto
  ultimately show ?thesis using ord_candidate [OF o(1)] by blast
qed

lemma sim_prune:
  assumes "ok c"
  shows "simulates ok view (cache_prune_loop ops n cb pruned c)
    (bindE (ref_evict cb (rev (drop n (entries c))) (view c)) (\<lambda>r. Inr (pruned + (length (entries c) - n), r)))"
  using assms
proof (induction "length (cache_items_map c)" arbitrary: c pruned rule: less_induct)
  case less
  note e = entries_keys [OF less.prems]
  show ?case
  proof (cases "length (cache_items_map c) > n")
    case False
    then show ?thesis using less.prems e(5)
      by (subst cache_prune_loop.simps) (simp add: simulates_def ref_evict_def)
  next
    case True
    then have ne: "entries c \<noteq> []" using e(5) by auto
    from last_entry [OF less.prems ne] obtain k where k: "pol_repl_candidate ops (cache_policy c) = Inr k"
      "k \<in> dom (cache_content c)" "last (entries c) = (k, the (cache_content c k))"
      "filter (\<lambda>e. fst e \<noteq> k) (entries c) = butlast (entries c)" by blast
    have out: "rev (drop n (entries c)) = last (entries c) # rev (drop n (butlast (entries c)))"
      using True e(5) ne by (metis drop_butlast append_butlast_last_id drop_eq_Nil not_less rev_eq_Cons_iff rev_rev_ident last_drop)
    show ?thesis
    proof (cases "the_callback cb c")
      case None
      then show ?thesis using True k erase_cache_null [OF less.prems k(2) None] out
        by (subst cache_prune_loop.simps) (simp add: simulates_def ref_evict_def)
    next
      case (Some f)
      from erase_cache [OF less.prems k(2) Some] obtain p where p: "pol_erase ops k (cache_policy c) = Inr p"
        "cache_erase ops k cb c = Inr (cache_evict f k c p)" "ok (cache_evict f k c p)"
        "length (cache_items_map (cache_evict f k c p)) = length (cache_items_map c) - 1" by blast
      let ?d = "cache_evict f k c p"
      have d: "entries ?d = butlast (entries c)" using entries_evict [OF less.prems k(2) p(1)] k(4) by simp
      have shorter: "length (cache_items_map ?d) < length (cache_items_map c)" using p(4) True by simp
      have run: "cache_prune_loop ops n cb pruned c = cache_prune_loop ops n cb (pruned + 1) ?d"
        using True k(1) p(2) by (subst cache_prune_loop.simps) simp
      have "ref_evict cb (rev (drop n (entries c))) (view c) = ref_evict cb (rev (drop n (entries ?d))) (view ?d)"
        unfolding out k(3) d
        using ref_evict_Cons [of cb "(k, the (cache_content c k))" "rev (drop n (butlast (entries c)))" "view c"]
          view_evict [OF less.prems k(2) p(1) Some] by simp
      moreover have "pruned + (length (entries c) - n) = pruned + 1 + (length (entries ?d) - n)"
        using True e(5) d by simp
      ultimately show ?thesis using less.hyps [OF shorter p(3), of "pruned + 1"] unfolding run by simp
    qed
  qed
qed

lemma sim_put:
  assumes "ok c"
  shows "simulates ok view (bindE (cache_put ops k v cb c) (\<lambda>c. Inr (y, c))) (bindE (ref_put moves k v cb (view c)) (\<lambda>r. Inr (y, r)))"
proof (cases "cache_content c k")
  case (Some w)
  then have "k \<in> fst ` set (entries c)" using entries_keys(3) [OF assms] by auto
  then show ?thesis using view_update [OF assms Some, of v] Some
    by (auto simp: simulates_def ref_put_def cache_put_def find_elem_def cache_content_def [symmetric])
next
  case None
  note o = cache_okD [OF assms] and e = entries_keys [OF assms]
  have k: "k \<notin> fst ` set (entries c)" "k \<notin> dom (cache_content c)" using e(3) None by auto
  show ?thesis
  proof (cases "length (cache_items_map c) < max_cache_size c")
    case True
    then have "drop (max_cache_size c - 1) (entries c) = []" using e(5) by simp
    then show ?thesis using view_insert [OF assms k(2) True, of v] k(1) None True
      by (auto simp: simulates_def ref_put_def ref_evict_def cache_put_def find_elem_def cache_content_def [symmetric])
  next
    case False
    then have full: "length (entries c) = max_cache_size c" using e(5) o(4) by simp
    then have ne: "entries c \<noteq> []" using o(5) by auto
    from last_entry [OF assms ne] obtain old where old: "pol_repl_candidate ops (cache_policy c) = Inr old"
      "old \<in> dom (cache_content c)" "last (entries c) = (old, the (cache_content c old))" by blast
    have "drop (max_cache_size c - 1) (butlast (entries c) @ [last (entries c)]) = [last (entries c)]"
      using full by simp
    then have out: "drop (max_cache_size c - 1) (entries c) = [(old, the (cache_content c old))]"
      using append_butlast_last_id [OF ne] old(3) by metis
    show ?thesis
    proof (cases "the_callback cb c")
      case cbN: None
      then show ?thesis using erase_cache_null [OF assms old(2) cbN] None False old(1) k(1) out
        by (simp add: simulates_def ref_put_def ref_evict_def cache_put_def find_elem_def cache_content_def [symmetric])
    next
      case (Some f)
      from erase_cache [OF assms old(2) Some] obtain p where p: "pol_erase ops old (cache_policy c) = Inr p"
        "cache_erase ops old cb c = Inr (cache_evict f old c p)" "ok (cache_evict f old c p)"
        "length (cache_items_map (cache_evict f old c p)) = length (cache_items_map c) - 1" by blast
      have "k \<notin> dom (cache_content (cache_evict f old c p))" using k(2) by auto
      moreover have "length (cache_items_map (cache_evict f old c p)) < max_cache_size (cache_evict f old c p)"
        using p(4) full e(5) o(5) by simp
      ultimately obtain c' where c': "cache_insert ops k v (cache_evict f old c p) = Inr c'" "ok c'"
        "view c' = view (cache_evict f old c p)\<lparr>ref_entries := (k, v) # entries (cache_evict f old c p)\<rparr>"
        using view_insert [OF p(3), of k v] by blast
      have "cache_put ops k v cb c = Inr c'" using None False old(1) p(2) c'(1)
        by (simp add: cache_put_def find_elem_def cache_content_def [symmetric])
      moreover have "ref_put moves k v cb (view c) = Inr (view c')"
        using k(1) out view_evict [OF assms old(2) p(1) Some] c'(3) by (simp add: ref_put_def)
      ultimately show ?thesis using c'(2) by (simp add: simulates_def)
    qed
  qed
qed

lemma sim_get:
  assumes "ok c"
  shows "case cache_content c k of None \<Rightarrow> get_internal ops k c = Inr (None, c)
    | Some v \<Rightarrow> (\<exists>c'. get_internal ops k c = Inr (Some v, c') \<and> ok c' \<and> view c' = ref_get moves k (view c))"
proof (cases "cache_content c k")
  case (Some v)
  then have k: "k \<in> dom (cache_content c)" by auto
  from touch_cache [OF assms Some] view_touch [OF assms k] Some show ?thesis by auto
qed (simp add: get_internal_def find_elem_def cache_content_def)

lemma to_front_absent: "k \<notin> key ` set xs \<Longrightarrow> to_front mv key k xs = xs"
proof -
  assume "k \<notin> key ` set xs"
  then have "\<forall>x \<in> set xs. key x \<noteq> k" by auto
  then show ?thesis by (simp add: to_front_def)
qed

lemma sim_remove:
  assumes "ok c"
  shows "simulates ok view (cache_step ops (Remove k cb) c) (ref_step moves (Remove k cb) (view c))"
proof (cases "cache_content c k")
  case None
  then have "k \<notin> fst ` set (entries c)" using entries_keys(3) [OF assms] by auto
  then have "filter (\<lambda>e. fst e = k) (entries c) = []" by (auto simp: filter_empty_conv)
  then show ?thesis using None assms entries_keys(4) [OF assms]
    by (simp add: simulates_def ref_evict_def cache_remove_def find_elem_def cache_content_def [symmetric])
next
  case (Some v)
  then have k: "k \<in> dom (cache_content c)" by auto
  note e = entries_keys [OF assms]
  have "filter (\<lambda>e. fst e = k) (entries c) = [(k, the (cache_content c k))]"
    using e(2) Some e(4) by (metis filter_key_single option.sel)
  moreover have "cache_remove ops k cb c = bindE (cache_erase ops k cb c) (\<lambda>c. Inr (True, c))"
    using Some by (simp add: cache_remove_def cache_erase_def find_elem_def cache_content_def)
  ultimately show ?thesis using sim_evict [OF assms k, of cb "Truth True"] Some e(4)
    by (simp add: bindE_assoc)
qed

lemma sim_step:
  assumes "ok c"
  shows "simulates ok view (cache_step ops x c) (ref_step moves x (view c))"
proof (cases x)
  case (Put k v cb) then show ?thesis using sim_put [OF assms, of k v cb Done] by simp
next
  case (Try_get k)
  show ?thesis using sim_get [OF assms, of k] entries_keys(3,4) [OF assms] Try_get assms to_front_absent [of k fst "entries c" moves]
    by (cases "cache_content c k") (auto simp: simulates_def cache_try_get_def ref_get_def cache_abs_def domIff)
next
  case (Get_or_die k)
  show ?thesis using sim_get [OF assms, of k] entries_keys(4) [OF assms] Get_or_die
    by (cases "cache_content c k") (auto simp: simulates_def cache_get_or_die_def)
next
  case (Contains k)
  then show ?thesis using assms entries_keys(4) [OF assms]
    by (simp add: simulates_def cache_contains_def find_elem_def cache_content_def [symmetric])
next
  case Size then show ?thesis using assms entries_keys(5) [OF assms] by (simp add: simulates_def cache_size_def)
next
  case (Remove k cb) then show ?thesis using sim_remove [OF assms] by simp
next
  case (Set_prune_callback cb)
  then show ?thesis using assms
    by (simp add: simulates_def cache_set_prune_callback_def cache_ok_def cache_abs_def cache_entries_def cache_content_def)
next
  case (Prune n cb)
  then show ?thesis using sim_prune [OF assms, of n cb 0] by (auto simp: cache_prune_def bindE_def simulates_def split: sum.splits prod.splits)
qed

end

section \<open>The ordered policies\<close>

definition fifo_order :: "'k fifo_policy \<Rightarrow> 'k list" where
  "fifo_order p = map snd (fifo_queue p)"

definition lru_order :: "'k lru_policy \<Rightarrow> 'k list" where
  "lru_order p = map snd (lru_queue p)"

lemma filter_single: "distinct xs \<Longrightarrow> k \<in> set xs \<Longrightarrow> filter (\<lambda>x. x = k) xs = [k]"
  by (induction xs) (auto simp: filter_empty_conv)

interpretation fifo: ordered_policy fifo_ops fifo_inv fifo_keys fifo_order False
proof
  fix p p' :: "'k fifo_policy" and k
  assume i: "fifo_inv p"
  show "distinct (fifo_order p)" "set (fifo_order p) = fifo_keys p"
    using i by (auto simp: fifo_inv_def fifo_keys_def fifo_order_def node_index_def node_keys_def comp_def)
  show "fifo_order p' = k # fifo_order p" if "k \<notin> fifo_keys p" "pol_insert fifo_ops k p = Inr p'"
    using fifo_insert_queue [OF i that(1)] that(2) by (auto simp: fifo_ops_def fifo_order_def)
  show "fifo_order p' = to_front False id k (fifo_order p)" if "pol_touch fifo_ops k p = Inr p'"
    using that by (simp add: fifo_ops_def fifo_touch_def to_front_def)
  show "fifo_order p' = filter (\<lambda>a. a \<noteq> k) (fifo_order p)" if "k \<in> fifo_keys p" "pol_erase fifo_ops k p = Inr p'"
    using fifo_erase_queue [OF i that(1)] that(2) by (auto simp: fifo_ops_def fifo_order_def)
  show "pol_repl_candidate fifo_ops p = Inr (last (fifo_order p))" if "fifo_keys p \<noteq> {}"
    using that by (simp add: fifo_ops_def fifo_repl_candidate_def node_back_def fifo_keys_def fifo_order_def last_map)
qed

interpretation lru: ordered_policy lru_ops lru_inv lru_keys lru_order True
proof
  fix p p' :: "'k lru_policy" and k
  assume i: "lru_inv p"
  show d: "distinct (lru_order p)" and s: "set (lru_order p) = lru_keys p"
    using i by (auto simp: lru_inv_def lru_keys_def lru_order_def node_index_def node_keys_def comp_def)
  show "lru_order p' = k # lru_order p" if "k \<notin> lru_keys p" "pol_insert lru_ops k p = Inr p'"
    using lru_insert_queue [OF i that(1)] that(2) by (auto simp: lru_ops_def lru_order_def)
  show "lru_order p' = to_front True id k (lru_order p)" if "k \<in> lru_keys p" "pol_touch lru_ops k p = Inr p'"
    using lru_touch_queue [OF i that(1)] that(2) filter_single [OF d, of k] that(1) s
    by (auto simp: lru_ops_def lru_order_def to_front_def)
  show "lru_order p' = filter (\<lambda>a. a \<noteq> k) (lru_order p)" if "k \<in> lru_keys p" "pol_erase lru_ops k p = Inr p'"
    using lru_erase_queue [OF i that(1)] that(2) by (auto simp: lru_ops_def lru_order_def)
  show "pol_repl_candidate lru_ops p = Inr (last (lru_order p))" if "lru_keys p \<noteq> {}"
    using that by (simp add: lru_ops_def lru_repl_candidate_def node_back_def lru_keys_def lru_order_def last_map)
qed

section \<open>Properties\<close>

definition ref_new :: "nat \<Rightarrow> 'c option \<Rightarrow> ('k, 'v, 'c) ref_cache" where
  "ref_new n cb = \<lparr>ref_entries = [], ref_max = n, ref_callback = cb, ref_log = []\<rparr>"

lemma lru_new:
  assumes "cache_new n lru_empty cb = Inr c"
  shows "cache_ok lru_inv lru_keys c \<and> cache_abs lru_order c = ref_new n cb"
  using assms by (auto simp: cache_new_def cache_ok_def lru_inv_def lru_keys_def lru_empty_def cache_abs_def
      cache_entries_def lru_order_def ref_new_def node_keys_def split: if_splits)

lemma fifo_new:
  assumes "cache_new n fifo_empty cb = Inr c"
  shows "cache_ok fifo_inv fifo_keys c \<and> cache_abs fifo_order c = ref_new n cb"
  using assms by (auto simp: cache_new_def cache_ok_def fifo_inv_def fifo_keys_def fifo_empty_def cache_abs_def
      cache_entries_def fifo_order_def ref_new_def node_keys_def split: if_splits)

text \<open>
  C11: The LRU cache behaves like one list of entries, most recently used first. Every sequence of operations
  on a new cache returns exactly what the reference cache returns, stops with the same error if it does
  (an absent key in \<open>get_or_die\<close>, an eviction without a callback), calls the erase callbacks for the same
  entries in the same order, and never uses an invalid iterator: a put on a full cache evicts the entry
  whose last access lies furthest back.
\<close>

theorem lru_cache_refines:
  assumes "cache_new n lru_empty cb = Inr c"
  shows "fst (run_steps (cache_step lru_ops) xs c) = fst (run_steps (ref_step True) xs (ref_new n cb)) \<and>
    map_sum id (cache_abs lru_order) (snd (run_steps (cache_step lru_ops) xs c)) =
      snd (run_steps (ref_step True) xs (ref_new n cb))"
  using simulates_run [of "cache_ok lru_inv lru_keys" "cache_abs lru_order" "cache_step lru_ops" "ref_step True" c xs,
      OF lru.sim_step] lru_new [OF assms] by simp

theorem lru_cache_refines_witness:
  "\<exists>c. cache_new 2 lru_empty (Some ''cb'') = Inr c \<and>
     fst (run_steps (cache_step lru_ops)
       [Put (1 :: nat) ''a'' None, Put 2 ''b'' None, Try_get 1, Put 3 ''c'' None, Contains 1, Contains 2] c) =
       [Done, Done, Value (Some ''a'') True, Done, Truth True, Truth False]"
proof -
  obtain c :: "(nat, string, nat lru_policy, string) cache" where c: "cache_new 2 lru_empty (Some ''cb'') = Inr c"
    by (simp add: cache_new_def)
  have "fst (run_steps (ref_step True) [Put 1 ''a'' None, Put 2 ''b'' None, Try_get 1, Put 3 ''c'' None, Contains 1, Contains 2]
      (ref_new 2 (Some ''cb'') :: (nat, string, string) ref_cache)) = [Done, Done, Value (Some ''a'') True, Done, Truth True, Truth False]"
    by code_simp
  then show ?thesis using lru_cache_refines [OF c, of "[Put 1 ''a'' None, Put 2 ''b'' None, Try_get 1, Put 3 ''c'' None, Contains 1, Contains 2]"] c by (intro exI [of _ c]) simp
qed

text \<open>
  C27: The FIFO cache behaves like one list of entries, most recently inserted first, whose order accesses do
  not change: a put of a new key on a full cache evicts the entry inserted first, a put of a present key
  changes its value only.
\<close>

theorem fifo_cache_refines:
  assumes "cache_new n fifo_empty cb = Inr c"
  shows "fst (run_steps (cache_step fifo_ops) xs c) = fst (run_steps (ref_step False) xs (ref_new n cb)) \<and>
    map_sum id (cache_abs fifo_order) (snd (run_steps (cache_step fifo_ops) xs c)) =
      snd (run_steps (ref_step False) xs (ref_new n cb))"
  using simulates_run [of "cache_ok fifo_inv fifo_keys" "cache_abs fifo_order" "cache_step fifo_ops" "ref_step False" c xs,
      OF fifo.sim_step] fifo_new [OF assms] by simp

theorem fifo_cache_refines_witness:
  "\<exists>c. cache_new 2 fifo_empty (Some ''cb'') = Inr c \<and>
     fst (run_steps (cache_step fifo_ops)
       [Put (1 :: nat) ''a'' None, Put 2 ''b'' None, Try_get 1, Put 3 ''c'' None, Contains 1, Contains 2] c) =
       [Done, Done, Value (Some ''a'') True, Done, Truth False, Truth True]"
proof -
  obtain c :: "(nat, string, nat fifo_policy, string) cache" where c: "cache_new 2 fifo_empty (Some ''cb'') = Inr c"
    by (simp add: cache_new_def)
  have "fst (run_steps (ref_step False) [Put 1 ''a'' None, Put 2 ''b'' None, Try_get 1, Put 3 ''c'' None, Contains 1, Contains 2]
      (ref_new 2 (Some ''cb'') :: (nat, string, string) ref_cache)) = [Done, Done, Value (Some ''a'') True, Done, Truth False, Truth True]"
    by code_simp
  then show ?thesis using fifo_cache_refines [OF c, of "[Put 1 ''a'' None, Put 2 ''b'' None, Try_get 1, Put 3 ''c'' None, Contains 1, Contains 2]"] c by (intro exI [of _ c]) simp
qed

text \<open>
  C28: In the LFU cache a put of a new key on a full cache succeeds and evicts an entry whose frequency is
  minimal among all entries, calls the callback for it, keeps all other entries and starts the new key with
  frequency one.
\<close>

theorem lfu_evicts_min:
  assumes "cache_ok lfu_inv lfu_keys c" "cache_size c = max_cache_size c" "cache_content c k = None" "the_callback cb c = Some f"
  shows "\<exists>c' old. cache_put lfu_ops k v cb c = Inr c' \<and> cache_ok lfu_inv lfu_keys c' \<and>
    old \<in> lfu_keys (cache_policy c) \<and> (\<forall>k' \<in> lfu_keys (cache_policy c). lfu_freq (cache_policy c) old \<le> lfu_freq (cache_policy c) k') \<and>
    cache_content c' = (cache_content c)(old := None, k \<mapsto> v) \<and>
    erase_log c' = erase_log c @ [(f, old, the (cache_content c old))]"
proof -
  note o = cache_okD [OF assms(1)]
  have "lfu_keys (cache_policy c) \<noteq> {}" using o assms(2) by (auto simp: cache_size_def)
  from lfu_candidate_min [OF o(1) this] obtain old where old: "old \<in> lfu_keys (cache_policy c)"
    "pol_repl_candidate lfu_ops (cache_policy c) = Inr old"
    "\<forall>k' \<in> lfu_keys (cache_policy c). lfu_freq (cache_policy c) old \<le> lfu_freq (cache_policy c) k'"
    by (auto simp: lfu_ops_def)
  from lfu.put_cache [OF assms(1), of k cb v] assms(2-4) old show ?thesis
    by (auto simp: cache_size_def)
qed

definition lfu_example :: "(nat, string, nat lfu_policy, string) cache" where
  "lfu_example = \<lparr>cache_items_map = [(1, ''a''), (2, ''b'')],
     cache_policy = \<lparr>frequency_storage = [(1, 1, 2), (2, 2, 1)], lfu_storage = [1 \<mapsto> 2, 2 \<mapsto> 1], lfu_fresh = 3\<rparr>,
     max_cache_size = 2, on_erase_callback = Some ''cb'', erase_log = []\<rparr>"

lemma lfu_example_ok: "cache_ok lfu_inv lfu_keys lfu_example"
  by (auto simp: lfu_example_def cache_ok_def lfu_inv_def lfu_keys_def node_index_def node_keys_def)

theorem lfu_evicts_min_witness:
  "\<exists>c'. cache_put lfu_ops 3 ''c'' None lfu_example = Inr c' \<and> cache_content c' = [1 \<mapsto> ''a'', 3 \<mapsto> ''c'']"
proof -
  have keys: "lfu_keys (cache_policy lfu_example) = {1, 2}" and freq: "lfu_freq (cache_policy lfu_example) 1 = 2"
    "lfu_freq (cache_policy lfu_example) 2 = 1" and content: "cache_content lfu_example = [1 \<mapsto> ''a'', 2 \<mapsto> ''b'']"
    by (auto simp: lfu_example_def lfu_keys_def node_keys_def lfu_freq_def cache_content_def)
  have "cache_size lfu_example = max_cache_size lfu_example" "cache_content lfu_example 3 = None"
    "the_callback None lfu_example = Some ''cb''"
    by (simp_all add: content cache_size_def lfu_example_def the_callback_def cache_content_def)
  from lfu_evicts_min [OF lfu_example_ok this, of "''c''"] obtain c' old where c': "cache_put lfu_ops 3 ''c'' None lfu_example = Inr c'"
    "old \<in> {1, 2}" "lfu_freq (cache_policy lfu_example) old \<le> lfu_freq (cache_policy lfu_example) 2"
    "cache_content c' = (cache_content lfu_example)(old := None, 3 \<mapsto> ''c'')" unfolding keys by blast
  have "\<not> (2 :: u64) \<le> 1" by (simp add: word_le_nat_alt)
  then have "old = 2" using c'(2,3) freq by auto
  then have "cache_content c' = [1 \<mapsto> ''a'', 3 \<mapsto> ''c'']" using c'(4) by (auto simp: content fun_eq_iff)
  then show ?thesis using c'(1) by blast
qed

lemma lfu_touch_freq:
  assumes "lfu_inv p" "k \<in> lfu_keys p"
  shows "\<exists>p'. lfu_touch k p = Inr p' \<and> lfu_inv p' \<and> lfu_keys p' = lfu_keys p \<and> lfu_freq p' k = lfu_freq p k + 1 \<and>
    (\<forall>k' \<in> lfu_keys p. k' \<noteq> k \<longrightarrow> lfu_freq p' k' = lfu_freq p k')"
proof -
  obtain p' f where t: "lfu_touch k p = Inr p'" "lfu_inv p'" "lfu_keys p' = lfu_keys p"
    "(f, k) \<in> set (map snd (frequency_storage p))"
    "set (map snd (frequency_storage p')) = insert (f + 1, k) (set (map snd (frequency_storage p)) - {(f, k)})"
    using lfu_touch_storage [OF assms] by blast
  have d: "distinct (map (snd \<circ> snd) (frequency_storage q))" if "lfu_inv q" for q :: "'a lfu_policy"
    using that by (simp add: lfu_inv_def node_index_def)
  have freq: "lfu_freq q a = g" if "lfu_inv q" "(g, a) \<in> set (map snd (frequency_storage q))" for q :: "'a lfu_policy" and a g
    using that lfu_freq_eq [OF d [OF that(1)]] by auto
  have "lfu_freq p' k' = lfu_freq p k'" if k': "k' \<in> lfu_keys p" "k' \<noteq> k" for k'
  proof -
    obtain g where g: "(g, k') \<in> set (map snd (frequency_storage p))" using k'(1) by (force simp: lfu_keys_def node_keys_def)
    then have "(g, k') \<in> set (map snd (frequency_storage p'))" unfolding t(5) using k'(2) by auto
    then show ?thesis using freq [OF t(2)] freq [OF assms(1) g] by simp
  qed
  moreover have "lfu_freq p' k = f + 1" using freq [OF t(2)] t(5) by auto
  ultimately show ?thesis using t(1-3) freq [OF assms(1) t(4)] by auto
qed

text \<open>
  C29: In the LFU cache a successful lookup returns the stored value, counts exactly one access for its key
  (modulo the width of the counter) and changes neither the other frequencies nor the content.
\<close>

theorem lfu_counts_accesses:
  assumes "cache_ok lfu_inv lfu_keys c" "cache_content c k = Some v"
  shows "\<exists>c'. cache_try_get lfu_ops k c = Inr ((Some v, True), c') \<and> cache_ok lfu_inv lfu_keys c' \<and>
    cache_content c' = cache_content c \<and> lfu_freq (cache_policy c') k = lfu_freq (cache_policy c) k + 1 \<and>
    (\<forall>k' \<in> lfu_keys (cache_policy c). k' \<noteq> k \<longrightarrow> lfu_freq (cache_policy c') k' = lfu_freq (cache_policy c) k')"
proof -
  note o = cache_okD [OF assms(1)]
  have k: "k \<in> lfu_keys (cache_policy c)" using assms(2) o(2) cache_contentD [of k c] by auto
  from lfu.touch_cache [OF assms] lfu_touch_freq [OF o(1) k] show ?thesis
    by (auto simp: cache_try_get_def lfu_ops_def cache_content_def)
qed

theorem lfu_counts_accesses_witness:
  "\<exists>c'. cache_try_get lfu_ops 1 lfu_example = Inr ((Some ''a'', True), c') \<and> lfu_freq (cache_policy c') 1 = 3"
proof -
  have "cache_content lfu_example 1 = Some ''a''" by (simp add: lfu_example_def cache_content_def)
  moreover have "lfu_freq (cache_policy lfu_example) 1 + 1 = 3" by (simp add: lfu_example_def lfu_freq_def)
  ultimately show ?thesis using lfu_counts_accesses [OF lfu_example_ok, of 1 "''a''"] by auto
qed

text \<open>
  C30: Pruning the LFU cache terminates, removes exactly as many entries as exceed the size asked for and
  reports their number, tells the callback about each of them, and keeps all other entries; clearing
  removes everything without a call.
\<close>

theorem lfu_prune_correct:
  assumes "cache_ok lfu_inv lfu_keys c" "the_callback cb c = Some f"
  shows "(\<exists>c' es. cache_prune lfu_ops n cb c = Inr (cache_size c - n, c') \<and> cache_ok lfu_inv lfu_keys c' \<and>
      cache_size c' = min n (cache_size c) \<and> length es = cache_size c - n \<and>
      erase_log c' = erase_log c @ map (\<lambda>(k, v). (f, k, v)) es \<and> cache_content c = cache_content c' ++ map_of es) \<and>
    (\<exists>c'. cache_clear lfu_ops c = Inr c' \<and> cache_ok lfu_inv lfu_keys c' \<and> cache_size c' = 0 \<and> erase_log c' = erase_log c)"
  using lfu.prune_loop_cache [OF assms, of n 0] lfu.clear_cache [OF assms(1)]
  by (auto simp: cache_prune_def cache_size_def)

theorem lfu_prune_correct_witness:
  "\<exists>c'. cache_prune lfu_ops 1 None lfu_example = Inr (1, c') \<and> cache_size c' = 1"
proof -
  have "the_callback None lfu_example = Some ''cb''" "cache_size lfu_example = 2"
    by (simp_all add: cache_size_def lfu_example_def the_callback_def)
  with lfu_prune_correct [OF lfu_example_ok this(1), of 1] show ?thesis by auto
qed

text \<open>
  C31: The cache without an order keeps its bound whatever key the hash set yields first: a put stores the
  value, and unless the key was present or there was room it evicts exactly one present entry.
\<close>

theorem no_order_put_correct:
  assumes "\<And>ks :: 'k list. ks \<noteq> [] \<Longrightarrow> first ks \<in> set ks" "cache_ok no_cache_inv no_cache_keys c" "the_callback cb c = Some f"
  shows "\<exists>c'. cache_put (no_cache_ops first) k v cb c = Inr c' \<and> cache_ok no_cache_inv no_cache_keys c' \<and>
    cache_size c' \<le> max_cache_size c' \<and> max_cache_size c' = max_cache_size c \<and> cache_content c' k = Some v \<and>
    (if cache_content c k \<noteq> None \<or> cache_size c < max_cache_size c
     then cache_content c' = (cache_content c)(k \<mapsto> v) \<and> erase_log c' = erase_log c
     else \<exists>old \<in> dom (cache_content c). cache_content c' = (cache_content c)(old := None, k \<mapsto> v) \<and>
       erase_log c' = erase_log c @ [(f, old, the (cache_content c old))])"
proof -
  have "the_callback cb c \<noteq> None" using assms(3) by simp
  from replacement_policy.put_cache [OF no_cache_policy_contract [OF assms(1)] assms(2) this, of k v]
  obtain c' where c': "cache_put (no_cache_ops first) k v cb c = Inr c'" "cache_ok no_cache_inv no_cache_keys c'"
    "cache_content c' k = Some v" "max_cache_size c' = max_cache_size c"
    "if cache_content c k \<noteq> None \<or> length (cache_items_map c) < max_cache_size c
     then cache_content c' = (cache_content c)(k \<mapsto> v) \<and> erase_log c' = erase_log c
     else \<exists>old f. pol_repl_candidate (no_cache_ops first) (cache_policy c) = Inr old \<and> old \<in> dom (cache_content c) \<and>
       the_callback cb c = Some f \<and> cache_content c' = (cache_content c)(old := None, k \<mapsto> v) \<and>
       erase_log c' = erase_log c @ [(f, old, the (cache_content c old))]" by blast
  then show ?thesis using cache_okD(4) [OF c'(2)] assms(3) unfolding cache_size_def
    by (intro exI [of _ c']) (auto split: if_splits)
qed

theorem no_order_put_correct_witness:
  "\<exists>c'. cache_put (no_cache_ops hd) (2 :: nat) ''b'' None
     \<lparr>cache_items_map = [(1, ''a'')], cache_policy = \<lparr>key_storage = [1]\<rparr>, max_cache_size = 1,
      on_erase_callback = Some ''cb'', erase_log = []\<rparr> = Inr c' \<and> cache_content c' 2 = Some ''b''"
proof -
  let ?c = "\<lparr>cache_items_map = [(1 :: nat, ''a'')], cache_policy = \<lparr>key_storage = [1]\<rparr>, max_cache_size = 1,
      on_erase_callback = Some ''cb'', erase_log = []\<rparr>"
  have "cache_ok no_cache_inv no_cache_keys ?c" "the_callback None ?c = Some ''cb''"
    by (simp_all add: cache_ok_def no_cache_inv_def no_cache_keys_def the_callback_def)
  from no_order_put_correct [OF hd_in_set this, of 2 "''b''"] show ?thesis by blast
qed

end
