(* ===== verification/Ascii.thy ===== *)
theory Ascii
  imports Prelude
begin

text \<open>
  Character classes and case conversion of ASCII bytes and strings (turbo/strings/ascii.h and
  ascii.cc). A byte is an 8-bit word, a string a list of bytes.
\<close>

section \<open>Tables\<close>

text \<open>The source lists 128 properties; the others are zero.\<close>

definition kPropertyBits :: "u8 list" where
  "kPropertyBits = [
    0x40, 0x40, 0x40, 0x40, 0x40, 0x40, 0x40, 0x40, 0x40, 0x68, 0x48, 0x48, 0x48, 0x48, 0x40, 0x40,
    0x40, 0x40, 0x40, 0x40, 0x40, 0x40, 0x40, 0x40, 0x40, 0x40, 0x40, 0x40, 0x40, 0x40, 0x40, 0x40,
    0x28, 0x10, 0x10, 0x10, 0x10, 0x10, 0x10, 0x10, 0x10, 0x10, 0x10, 0x10, 0x10, 0x10, 0x10, 0x10,
    0x84, 0x84, 0x84, 0x84, 0x84, 0x84, 0x84, 0x84, 0x84, 0x84, 0x10, 0x10, 0x10, 0x10, 0x10, 0x10,
    0x10, 0x85, 0x85, 0x85, 0x85, 0x85, 0x85, 0x05, 0x05, 0x05, 0x05, 0x05, 0x05, 0x05, 0x05, 0x05,
    0x05, 0x05, 0x05, 0x05, 0x05, 0x05, 0x05, 0x05, 0x05, 0x05, 0x05, 0x10, 0x10, 0x10, 0x10, 0x10,
    0x10, 0x85, 0x85, 0x85, 0x85, 0x85, 0x85, 0x05, 0x05, 0x05, 0x05, 0x05, 0x05, 0x05, 0x05, 0x05,
    0x05, 0x05, 0x05, 0x05, 0x05, 0x05, 0x05, 0x05, 0x05, 0x05, 0x05, 0x10, 0x10, 0x10, 0x10, 0x40]
    @ replicate 128 0"

definition kToLower :: "u8 list" where
  "kToLower = [
    0x00, 0x01, 0x02, 0x03, 0x04, 0x05, 0x06, 0x07, 0x08, 0x09, 0x0A, 0x0B, 0x0C, 0x0D, 0x0E, 0x0F,
    0x10, 0x11, 0x12, 0x13, 0x14, 0x15, 0x16, 0x17, 0x18, 0x19, 0x1A, 0x1B, 0x1C, 0x1D, 0x1E, 0x1F,
    0x20, 0x21, 0x22, 0x23, 0x24, 0x25, 0x26, 0x27, 0x28, 0x29, 0x2A, 0x2B, 0x2C, 0x2D, 0x2E, 0x2F,
    0x30, 0x31, 0x32, 0x33, 0x34, 0x35, 0x36, 0x37, 0x38, 0x39, 0x3A, 0x3B, 0x3C, 0x3D, 0x3E, 0x3F,
    0x40, 0x61, 0x62, 0x63, 0x64, 0x65, 0x66, 0x67, 0x68, 0x69, 0x6A, 0x6B, 0x6C, 0x6D, 0x6E, 0x6F,
    0x70, 0x71, 0x72, 0x73, 0x74, 0x75, 0x76, 0x77, 0x78, 0x79, 0x7A, 0x5B, 0x5C, 0x5D, 0x5E, 0x5F,
    0x60, 0x61, 0x62, 0x63, 0x64, 0x65, 0x66, 0x67, 0x68, 0x69, 0x6A, 0x6B, 0x6C, 0x6D, 0x6E, 0x6F,
    0x70, 0x71, 0x72, 0x73, 0x74, 0x75, 0x76, 0x77, 0x78, 0x79, 0x7A, 0x7B, 0x7C, 0x7D, 0x7E, 0x7F,
    0x80, 0x81, 0x82, 0x83, 0x84, 0x85, 0x86, 0x87, 0x88, 0x89, 0x8A, 0x8B, 0x8C, 0x8D, 0x8E, 0x8F,
    0x90, 0x91, 0x92, 0x93, 0x94, 0x95, 0x96, 0x97, 0x98, 0x99, 0x9A, 0x9B, 0x9C, 0x9D, 0x9E, 0x9F,
    0xA0, 0xA1, 0xA2, 0xA3, 0xA4, 0xA5, 0xA6, 0xA7, 0xA8, 0xA9, 0xAA, 0xAB, 0xAC, 0xAD, 0xAE, 0xAF,
    0xB0, 0xB1, 0xB2, 0xB3, 0xB4, 0xB5, 0xB6, 0xB7, 0xB8, 0xB9, 0xBA, 0xBB, 0xBC, 0xBD, 0xBE, 0xBF,
    0xC0, 0xC1, 0xC2, 0xC3, 0xC4, 0xC5, 0xC6, 0xC7, 0xC8, 0xC9, 0xCA, 0xCB, 0xCC, 0xCD, 0xCE, 0xCF,
    0xD0, 0xD1, 0xD2, 0xD3, 0xD4, 0xD5, 0xD6, 0xD7, 0xD8, 0xD9, 0xDA, 0xDB, 0xDC, 0xDD, 0xDE, 0xDF,
    0xE0, 0xE1, 0xE2, 0xE3, 0xE4, 0xE5, 0xE6, 0xE7, 0xE8, 0xE9, 0xEA, 0xEB, 0xEC, 0xED, 0xEE, 0xEF,
    0xF0, 0xF1, 0xF2, 0xF3, 0xF4, 0xF5, 0xF6, 0xF7, 0xF8, 0xF9, 0xFA, 0xFB, 0xFC, 0xFD, 0xFE, 0xFF]"

definition kToUpper :: "u8 list" where
  "kToUpper = [
    0x00, 0x01, 0x02, 0x03, 0x04, 0x05, 0x06, 0x07, 0x08, 0x09, 0x0A, 0x0B, 0x0C, 0x0D, 0x0E, 0x0F,
    0x10, 0x11, 0x12, 0x13, 0x14, 0x15, 0x16, 0x17, 0x18, 0x19, 0x1A, 0x1B, 0x1C, 0x1D, 0x1E, 0x1F,
    0x20, 0x21, 0x22, 0x23, 0x24, 0x25, 0x26, 0x27, 0x28, 0x29, 0x2A, 0x2B, 0x2C, 0x2D, 0x2E, 0x2F,
    0x30, 0x31, 0x32, 0x33, 0x34, 0x35, 0x36, 0x37, 0x38, 0x39, 0x3A, 0x3B, 0x3C, 0x3D, 0x3E, 0x3F,
    0x40, 0x41, 0x42, 0x43, 0x44, 0x45, 0x46, 0x47, 0x48, 0x49, 0x4A, 0x4B, 0x4C, 0x4D, 0x4E, 0x4F,
    0x50, 0x51, 0x52, 0x53, 0x54, 0x55, 0x56, 0x57, 0x58, 0x59, 0x5A, 0x5B, 0x5C, 0x5D, 0x5E, 0x5F,
    0x60, 0x41, 0x42, 0x43, 0x44, 0x45, 0x46, 0x47, 0x48, 0x49, 0x4A, 0x4B, 0x4C, 0x4D, 0x4E, 0x4F,
    0x50, 0x51, 0x52, 0x53, 0x54, 0x55, 0x56, 0x57, 0x58, 0x59, 0x5A, 0x7B, 0x7C, 0x7D, 0x7E, 0x7F,
    0x80, 0x81, 0x82, 0x83, 0x84, 0x85, 0x86, 0x87, 0x88, 0x89, 0x8A, 0x8B, 0x8C, 0x8D, 0x8E, 0x8F,
    0x90, 0x91, 0x92, 0x93, 0x94, 0x95, 0x96, 0x97, 0x98, 0x99, 0x9A, 0x9B, 0x9C, 0x9D, 0x9E, 0x9F,
    0xA0, 0xA1, 0xA2, 0xA3, 0xA4, 0xA5, 0xA6, 0xA7, 0xA8, 0xA9, 0xAA, 0xAB, 0xAC, 0xAD, 0xAE, 0xAF,
    0xB0, 0xB1, 0xB2, 0xB3, 0xB4, 0xB5, 0xB6, 0xB7, 0xB8, 0xB9, 0xBA, 0xBB, 0xBC, 0xBD, 0xBE, 0xBF,
    0xC0, 0xC1, 0xC2, 0xC3, 0xC4, 0xC5, 0xC6, 0xC7, 0xC8, 0xC9, 0xCA, 0xCB, 0xCC, 0xCD, 0xCE, 0xCF,
    0xD0, 0xD1, 0xD2, 0xD3, 0xD4, 0xD5, 0xD6, 0xD7, 0xD8, 0xD9, 0xDA, 0xDB, 0xDC, 0xDD, 0xDE, 0xDF,
    0xE0, 0xE1, 0xE2, 0xE3, 0xE4, 0xE5, 0xE6, 0xE7, 0xE8, 0xE9, 0xEA, 0xEB, 0xEC, 0xED, 0xEE, 0xEF,
    0xF0, 0xF1, 0xF2, 0xF3, 0xF4, 0xF5, 0xF6, 0xF7, 0xF8, 0xF9, 0xFA, 0xFB, 0xFC, 0xFD, 0xFE, 0xFF]"

section \<open>Character classes\<close>

definition ascii_isalpha :: "u8 \<Rightarrow> bool" where
  "ascii_isalpha c \<longleftrightarrow> kPropertyBits ! unat c AND 0x01 \<noteq> 0"

definition ascii_isalnum :: "u8 \<Rightarrow> bool" where
  "ascii_isalnum c \<longleftrightarrow> kPropertyBits ! unat c AND 0x04 \<noteq> 0"

definition ascii_isspace :: "u8 \<Rightarrow> bool" where
  "ascii_isspace c \<longleftrightarrow> kPropertyBits ! unat c AND 0x08 \<noteq> 0"

definition ascii_ispunct :: "u8 \<Rightarrow> bool" where
  "ascii_ispunct c \<longleftrightarrow> kPropertyBits ! unat c AND 0x10 \<noteq> 0"

definition ascii_isblank :: "u8 \<Rightarrow> bool" where
  "ascii_isblank c \<longleftrightarrow> kPropertyBits ! unat c AND 0x20 \<noteq> 0"

definition ascii_iscntrl :: "u8 \<Rightarrow> bool" where
  "ascii_iscntrl c \<longleftrightarrow> kPropertyBits ! unat c AND 0x40 \<noteq> 0"

definition ascii_isxdigit :: "u8 \<Rightarrow> bool" where
  "ascii_isxdigit c \<longleftrightarrow> kPropertyBits ! unat c AND 0x80 \<noteq> 0"

definition ascii_isdigit :: "u8 \<Rightarrow> bool" where
  "ascii_isdigit c \<longleftrightarrow> c \<ge> 48 \<and> c \<le> 57"

definition ascii_isprint :: "u8 \<Rightarrow> bool" where
  "ascii_isprint c \<longleftrightarrow> c \<ge> 32 \<and> c < 127"

definition ascii_isgraph :: "u8 \<Rightarrow> bool" where
  "ascii_isgraph c \<longleftrightarrow> c > 32 \<and> c < 127"

definition ascii_isupper :: "u8 \<Rightarrow> bool" where
  "ascii_isupper c \<longleftrightarrow> c \<ge> 65 \<and> c \<le> 90"

definition ascii_islower :: "u8 \<Rightarrow> bool" where
  "ascii_islower c \<longleftrightarrow> c \<ge> 97 \<and> c \<le> 122"

definition ascii_isascii :: "u8 \<Rightarrow> bool" where
  "ascii_isascii c \<longleftrightarrow> c < 128"

definition ascii_tolower :: "u8 \<Rightarrow> u8" where
  "ascii_tolower c = kToLower ! unat c"

definition ascii_toupper :: "u8 \<Rightarrow> u8" where
  "ascii_toupper c = kToUpper ! unat c"

section \<open>Case conversion and trimming\<close>

text \<open>The branch-free range test: subtraction modulo 256 and one signed comparison.\<close>

definition AsciiInAZRange :: "bool \<Rightarrow> u8 \<Rightarrow> bool" where
  "AsciiInAZRange to_upper c =
     (let sub = (if to_upper then 97 else 65) - 0x80; u = c - sub in sint u < - 128 + 26)"

definition AsciiStrCaseFoldImpl :: "bool \<Rightarrow> u8 list \<Rightarrow> u8 list" where
  "AsciiStrCaseFoldImpl to_upper p =
     map (\<lambda>v. v XOR (if AsciiInAZRange to_upper v then 97 XOR 65 else 0)) p"

definition kCaseFoldThreshold :: nat where
  "kCaseFoldThreshold = 16"

definition AsciiStrCaseFoldLong :: "bool \<Rightarrow> u8 list \<Rightarrow> u8 list" where
  "AsciiStrCaseFoldLong to_upper p = AsciiStrCaseFoldImpl to_upper p"

definition AsciiStrCaseFold :: "bool \<Rightarrow> u8 list \<Rightarrow> u8 list" where
  "AsciiStrCaseFold to_upper p =
     (if length p < kCaseFoldThreshold then AsciiStrCaseFoldImpl to_upper p else AsciiStrCaseFoldLong to_upper p)"

definition str_to_lower :: "u8 list \<Rightarrow> u8 list" where
  "str_to_lower s = AsciiStrCaseFold False s"

definition str_to_upper :: "u8 list \<Rightarrow> u8 list" where
  "str_to_upper s = AsciiStrCaseFold True s"

definition trim_left :: "u8 list \<Rightarrow> u8 list" where
  "trim_left str = dropWhile ascii_isspace str"

definition trim_right :: "u8 list \<Rightarrow> u8 list" where
  "trim_right str = rev (dropWhile ascii_isspace (rev str))"

definition trim_all :: "u8 list \<Rightarrow> u8 list" where
  "trim_all str = trim_right (trim_left str)"

definition trim_all_in_place :: "u8 list \<Rightarrow> u8 list" where
  "trim_all_in_place str = trim_left (trim_right str)"

text \<open>The loop of \<open>trim_complete\<close> over the output written so far, last byte first.\<close>

fun trim_complete_loop :: "bool \<Rightarrow> u8 list \<Rightarrow> u8 list \<Rightarrow> u8 list" where
  "trim_complete_loop is_ws out [] = rev out"
| "trim_complete_loop is_ws out (c # input) =
     (let ws = ascii_isspace c;
          out = (if is_ws \<and> ws then tl out else out)
      in trim_complete_loop ws (c # out) input)"

definition trim_complete :: "u8 list \<Rightarrow> u8 list" where
  "trim_complete str =
     (let stripped = trim_all str in if stripped = [] then [] else trim_complete_loop False [] stripped)"

section \<open>The tables\<close>

lemma kPropertyBits_table:
  "map (\<lambda>b. (b AND 0x01 \<noteq> 0, b AND 0x04 \<noteq> 0, b AND 0x08 \<noteq> 0, b AND 0x10 \<noteq> 0, b AND 0x20 \<noteq> 0, b AND 0x40 \<noteq> 0, b AND 0x80 \<noteq> 0)) kPropertyBits =
   map (\<lambda>n. (65 \<le> n \<and> n \<le> 90 \<or> 97 \<le> n \<and> n \<le> 122,
     48 \<le> n \<and> n \<le> 57 \<or> 65 \<le> n \<and> n \<le> 90 \<or> 97 \<le> n \<and> n \<le> 122,
     9 \<le> n \<and> n \<le> 13 \<or> n = 32,
     33 \<le> n \<and> n \<le> 47 \<or> 58 \<le> n \<and> n \<le> 64 \<or> 91 \<le> n \<and> n \<le> 96 \<or> 123 \<le> n \<and> n \<le> 126,
     n = 9 \<or> n = 32, n < 32 \<or> n = 127,
     48 \<le> n \<and> n \<le> 57 \<or> 65 \<le> n \<and> n \<le> 70 \<or> 97 \<le> n \<and> n \<le> 102)) [0..<256]"
  by code_simp

lemma kToLower_table: "kToLower = map (\<lambda>n. word_of_nat (if 65 \<le> n \<and> n \<le> 90 then n + 32 else n)) [0..<256]"
  by code_simp

lemma kToUpper_table: "kToUpper = map (\<lambda>n. word_of_nat (if 97 \<le> n \<and> n \<le> 122 then n - 32 else n)) [0..<256]"
  by code_simp

lemma case_fold_table:
  "map (\<lambda>n. (word_of_nat n :: u8) XOR (if AsciiInAZRange False (word_of_nat n) then 97 XOR 65 else 0)) [0..<256] = kToLower"
  "map (\<lambda>n. (word_of_nat n :: u8) XOR (if AsciiInAZRange True (word_of_nat n) then 97 XOR 65 else 0)) [0..<256] = kToUpper"
  by code_simp+

end
