(* ===== verification/Ascii_Laws.thy ===== *)
theory Ascii_Laws
  imports Ascii
begin

text \<open>Character classes, case conversion and trimming against their descriptions.\<close>

section \<open>Classes and case conversion by ranges\<close>

lemma byte_table:
  assumes "map f xs = map g [0..<256]"
  shows "f (xs ! unat (c :: u8)) = g (unat c)"
proof -
  have c: "unat c < 256" using unat_less_2p [of c] by simp
  have "length xs = 256" using assms by (metis diff_zero length_map length_upt)
  then have "map f xs ! unat c = f (xs ! unat c)" using c by simp
  then show ?thesis using c unfolding assms by simp
qed

lemmas ascii_bits = byte_table [OF kPropertyBits_table]

lemma ascii_isspace_range: "ascii_isspace c \<longleftrightarrow> 9 \<le> c \<and> c \<le> 13 \<or> c = 32"
  using ascii_bits [of c] word_unat_eq_iff [of c 32]
  by (simp add: ascii_isspace_def word_le_nat_alt)

lemma ascii_isxdigit_range:
  "ascii_isxdigit c \<longleftrightarrow> 48 \<le> c \<and> c \<le> 57 \<or> 65 \<le> c \<and> c \<le> 70 \<or> 97 \<le> c \<and> c \<le> 102"
  using ascii_bits [of c] by (simp add: ascii_isxdigit_def word_le_nat_alt)

lemma byte_range:
  assumes "xs = map g [0..<256]"
  shows "xs ! unat (c :: u8) = g (unat c)"
  using byte_table [of id xs g c] assms by simp

lemma ascii_tolower_range: "ascii_tolower c = (if ascii_isupper c then c + 32 else c)"
  unfolding ascii_tolower_def byte_range [OF kToLower_table]
  by (auto simp: ascii_isupper_def word_le_nat_alt)

lemma ascii_toupper_range: "ascii_toupper c = (if ascii_islower c then c - 32 else c)"
proof -
  have "word_of_nat (unat c - 32) = c - 32" if "97 \<le> c" 
    using that by (simp add: word_le_nat_alt of_nat_diff)
  then show ?thesis unfolding ascii_toupper_def byte_range [OF kToUpper_table]
    by (auto simp: ascii_islower_def word_le_nat_alt)
qed

lemma case_fold_byte:
  "v XOR (if AsciiInAZRange False v then 97 XOR 65 else 0) = ascii_tolower v"
  "v XOR (if AsciiInAZRange True v then 97 XOR 65 else 0) = ascii_toupper v"
  using byte_range [OF case_fold_table(1) [symmetric], of v] byte_range [OF case_fold_table(2) [symmetric], of v]
  unfolding ascii_tolower_def ascii_toupper_def by simp_all

text \<open>Whitespace collapsed: of every run the last byte stays.\<close>

fun squeeze :: "u8 list \<Rightarrow> u8 list" where
  "squeeze (a # b # s) = (if ascii_isspace a \<and> ascii_isspace b then squeeze (b # s) else a # squeeze (b # s))"
| "squeeze s = s"

lemma squeeze_Cons: "\<not> ascii_isspace c \<Longrightarrow> squeeze (c # s) = c # squeeze s"
  by (cases s) simp_all

lemma trim_complete_loop_squeeze:
  assumes "ws \<Longrightarrow> out \<noteq> [] \<and> ascii_isspace (hd out)"
  shows "trim_complete_loop ws out input =
    (if ws then rev (tl out) @ squeeze (hd out # input) else rev out @ squeeze input)"
  using assms
proof (induction ws out input rule: trim_complete_loop.induct)
  case (1 is_ws out)
  then show ?case by (cases out) auto
next
  case (2 is_ws out c input)
  have out: "is_ws \<Longrightarrow> rev out = rev (tl out) @ [hd out]" using "2.prems" by (cases out) auto
  have "trim_complete_loop is_ws out (c # input) =
      (if ascii_isspace c then rev (if is_ws then tl out else out) @ squeeze (c # input) else rev out @ c # squeeze input)"
    using "2.IH" [of "ascii_isspace c" "if is_ws \<and> ascii_isspace c then tl out else out"] by (auto simp: Let_def)
  then show ?case using "2.prems" out by (auto simp: squeeze_Cons)
qed

lemma squeeze_hd: "s \<noteq> [] \<Longrightarrow> \<not> ascii_isspace (hd s) \<Longrightarrow> hd (squeeze s) = hd s"
  by (induction s rule: squeeze.induct) auto

lemma squeeze_last: "s \<noteq> [] \<Longrightarrow> last (squeeze s) = last s \<and> squeeze s \<noteq> []"
  by (induction s rule: squeeze.induct) auto

lemma squeeze_no_double: "i + 1 < length (squeeze s) \<Longrightarrow> \<not> (ascii_isspace (squeeze s ! i) \<and> ascii_isspace (squeeze s ! (i + 1)))"
proof (induction s arbitrary: i rule: squeeze.induct)
  case (1 a b s)
  have "hd (squeeze (b # s)) = hd (squeeze (b # s))" ..
  moreover have "\<not> ascii_isspace b \<Longrightarrow> hd (squeeze (b # s)) = b" using squeeze_hd [of "b # s"] by simp
  ultimately show ?case using 1 by (cases i) (auto simp: hd_conv_nth split: if_splits)
qed auto

lemma squeeze_filter: "filter (\<lambda>c. \<not> ascii_isspace c) (squeeze s) = filter (\<lambda>c. \<not> ascii_isspace c) s"
  by (induction s rule: squeeze.induct) auto

lemma trim_right_prefix: "t = trim_right t @ rev (takeWhile ascii_isspace (rev t))"
  unfolding trim_right_def by (metis rev_append rev_rev_ident takeWhile_dropWhile_id)

lemma trim_left_hd: "trim_left s \<noteq> [] \<Longrightarrow> \<not> ascii_isspace (hd (trim_left s))"
  unfolding trim_left_def by (rule hd_dropWhile)

lemma trim_right_last: "trim_right s \<noteq> [] \<Longrightarrow> \<not> ascii_isspace (last (trim_right s))"
  unfolding trim_right_def last_rev rev_is_Nil_conv by (rule hd_dropWhile)

lemma trim_all_ends:
  assumes "trim_all s \<noteq> []"
  shows "\<not> ascii_isspace (hd (trim_all s))" "\<not> ascii_isspace (last (trim_all s))"
proof -
  have "hd (trim_all s) = hd (trim_left s)" "trim_left s \<noteq> []"
    using assms trim_right_prefix [of "trim_left s"] unfolding trim_all_def by (metis hd_append2, metis append_is_Nil_conv)
  then show "\<not> ascii_isspace (hd (trim_all s))" using trim_left_hd by metis
  show "\<not> ascii_isspace (last (trim_all s))" using assms unfolding trim_all_def by (rule trim_right_last)
qed

lemma trim_all_filter: "filter (\<lambda>c. \<not> ascii_isspace c) (trim_all s) = filter (\<lambda>c. \<not> ascii_isspace c) s"
proof -
  have l: "filter (\<lambda>c. \<not> ascii_isspace c) (trim_left t) = filter (\<lambda>c. \<not> ascii_isspace c) t" for t
    unfolding trim_left_def by (induction t) auto
  have "filter (\<lambda>c. \<not> ascii_isspace c) (trim_right t) = filter (\<lambda>c. \<not> ascii_isspace c) t" for t
    using l [of "rev t"] unfolding trim_right_def trim_left_def by (simp add: rev_filter [symmetric])
  then show ?thesis by (simp add: trim_all_def l)
qed

lemma trim_all_orders: "trim_all_in_place s = trim_all s"
proof (cases "\<forall>c \<in> set s. ascii_isspace c")
  case True
  then have "dropWhile ascii_isspace s = []" "dropWhile ascii_isspace (rev s) = []" by simp_all
  then show ?thesis
    unfolding trim_all_in_place_def trim_all_def trim_left_def trim_right_def by (simp only: rev.simps dropWhile.simps)
next
  case False
  then obtain x where x: "x \<in> set s" "\<not> ascii_isspace x" by blast
  then have l: "s = takeWhile ascii_isspace s @ trim_left s" "trim_left s \<noteq> []" "\<not> ascii_isspace (hd (trim_left s))"
    using trim_left_hd [of s] by (auto simp: trim_left_def dropWhile_eq_Nil_conv)
  then have "trim_right s = takeWhile ascii_isspace s @ trim_right (trim_left s)"
    using dropWhile_append1 [of "hd (trim_left s)" "rev (trim_left s)" ascii_isspace "rev (takeWhile ascii_isspace s)"]
    unfolding trim_right_def by (metis hd_in_set rev_append rev_rev_ident set_rev)
  moreover have "trim_left (trim_right (trim_left s)) = trim_right (trim_left s)"
    using trim_right_prefix [of "trim_left s"] l(3) unfolding trim_left_def [of "trim_right (trim_left s)"]
    by (metis dropWhile_eq_self_iff hd_append2)
  moreover have "trim_left (takeWhile ascii_isspace s @ t) = trim_left t" for t
    unfolding trim_left_def by (rule dropWhile_append2) (rule set_takeWhileD [THEN conjunct2])
  ultimately show ?thesis by (simp add: trim_all_in_place_def trim_all_def)
qed

section \<open>Properties\<close>

text \<open>
  C37: The table-driven character classes are the ASCII ones, for all 256 bytes: letters, letters and digits,
  white space, punctuation as the graphical characters that are no letters or digits, blanks, control
  characters and hexadecimal digits.
\<close>

theorem ascii_classes:
  "(ascii_isalpha c \<longleftrightarrow> ascii_isupper c \<or> ascii_islower c) \<and>
   (ascii_isalnum c \<longleftrightarrow> ascii_isalpha c \<or> ascii_isdigit c) \<and>
   (ascii_isspace c \<longleftrightarrow> c \<in> {9, 10, 11, 12, 13, 32}) \<and>
   (ascii_ispunct c \<longleftrightarrow> ascii_isgraph c \<and> \<not> ascii_isalnum c) \<and>
   (ascii_isblank c \<longleftrightarrow> c \<in> {9, 32}) \<and>
   (ascii_iscntrl c \<longleftrightarrow> ascii_isascii c \<and> \<not> ascii_isprint c) \<and>
   (ascii_isxdigit c \<longleftrightarrow> ascii_isdigit c \<or> ascii_tolower c \<in> {97, 98, 99, 100, 101, 102})"
proof -
  define n where "n = unat c"
  have num: "c = numeral k \<longleftrightarrow> n = unat (numeral k :: u8)" for k by (simp add: n_def word_unat_eq_iff)
  have up: "unat (c + 32) = n + 32" if "n \<le> 90" using that by (simp add: n_def unat_word_ariths)
  have r: "ascii_isdigit c \<longleftrightarrow> 48 \<le> n \<and> n \<le> 57" "ascii_isprint c \<longleftrightarrow> 32 \<le> n \<and> n < 127"
    "ascii_isgraph c \<longleftrightarrow> 32 < n \<and> n < 127" "ascii_isupper c \<longleftrightarrow> 65 \<le> n \<and> n \<le> 90"
    "ascii_islower c \<longleftrightarrow> 97 \<le> n \<and> n \<le> 122" "ascii_isascii c \<longleftrightarrow> n < 128"
    by (simp_all add: n_def ascii_isdigit_def ascii_isprint_def ascii_isgraph_def ascii_isupper_def ascii_islower_def
        ascii_isascii_def word_le_nat_alt word_less_nat_alt)
  note bits = ascii_bits [of c, folded n_def ascii_isalpha_def ascii_isalnum_def ascii_isspace_def ascii_ispunct_def
    ascii_isblank_def ascii_iscntrl_def ascii_isxdigit_def, unfolded prod.inject]
  have low: "ascii_tolower c \<in> {97, 98, 99, 100, 101, 102} \<longleftrightarrow> 65 \<le> n \<and> n \<le> 70 \<or> 97 \<le> n \<and> n \<le> 102"
    using up unfolding ascii_tolower_range r by (auto simp: num word_unat_eq_iff n_def [symmetric])
  have sets: "c \<in> {9, 10, 11, 12, 13, 32} \<longleftrightarrow> 9 \<le> n \<and> n \<le> 13 \<or> n = 32" "c \<in> {9, 32} \<longleftrightarrow> n = 9 \<or> n = 32"
    by (auto simp: num)
  show ?thesis unfolding low sets r using bits by (intro conjI; presburger)
qed

text \<open>
  C32: The branch-free conversion of strings to lower and upper case, in its short and its long variant,
  converts byte by byte as the tables say: exactly the letters of the other case change, by 32.
\<close>

theorem case_fold_correct:
  "str_to_lower s = map ascii_tolower s \<and> str_to_upper s = map ascii_toupper s \<and>
   ascii_tolower c = (if ascii_isupper c then c + 32 else c) \<and> ascii_toupper c = (if ascii_islower c then c - 32 else c)"
  unfolding str_to_lower_def str_to_upper_def AsciiStrCaseFold_def AsciiStrCaseFoldLong_def AsciiStrCaseFoldImpl_def
    case_fold_byte if_cancel ascii_tolower_range [symmetric] ascii_toupper_range [symmetric] by simp

text \<open>
  C33: \<open>trim_complete\<close> removes leading and trailing white space and collapses every inner run of white
  space to its last byte (trimming both ends gives the same in either order): the result starts and ends with other bytes, has no two adjacent white space
  bytes, and keeps all other bytes in order.
\<close>

theorem trim_complete_correct:
  "trim_complete s = squeeze (trim_all s) \<and> trim_all_in_place s = trim_all s \<and>
   (trim_complete s \<noteq> [] \<longrightarrow> \<not> ascii_isspace (hd (trim_complete s)) \<and> \<not> ascii_isspace (last (trim_complete s))) \<and>
   (\<forall>i. i + 1 < length (trim_complete s) \<longrightarrow>
      \<not> (ascii_isspace (trim_complete s ! i) \<and> ascii_isspace (trim_complete s ! (i + 1)))) \<and>
   filter (\<lambda>c. \<not> ascii_isspace c) (trim_complete s) = filter (\<lambda>c. \<not> ascii_isspace c) s"
proof -
  have e: "trim_complete s = squeeze (trim_all s)"
    using trim_complete_loop_squeeze [of False "[]" "trim_all s"] by (simp add: trim_complete_def Let_def)
  have "squeeze (trim_all s) \<noteq> [] \<longrightarrow> \<not> ascii_isspace (hd (squeeze (trim_all s))) \<and> \<not> ascii_isspace (last (squeeze (trim_all s)))"
    using trim_all_ends [of s] squeeze_hd [of "trim_all s"] squeeze_last [of "trim_all s"] by (cases "trim_all s = []") auto
  then show ?thesis unfolding e using squeeze_no_double [of _ "trim_all s"] squeeze_filter [of "trim_all s"] trim_all_filter [of s]
    trim_all_orders [of s] by auto
qed

theorem trim_complete_correct_witness:
  "trim_complete [32, 97, 32, 9, 98, 10] \<noteq> [] \<and> \<not> ascii_isspace (hd (trim_complete [32, 97, 32, 9, 98, 10]))"
proof -
  have "filter (\<lambda>c. \<not> ascii_isspace c) [32, 97, 32, 9, 98, 10] = [97, 98]" by (simp add: ascii_isspace_range word_le_nat_alt)
  then show ?thesis using trim_complete_correct [of "[32, 97, 32, 9, 98, 10]"] by fastforce
qed

end
