(* ===== verification/C_Escape.thy ===== *)
theory C_Escape
  imports Ascii_Laws
begin

text \<open>
  C style escaping and unescaping of strings (turbo/strings/escaping.cc) with the UTF-8 encoder it uses
  (turbo/strings/internal/utf8.cc). A string is a list of bytes; \<open>unsigned int\<close> and \<open>char32_t\<close> are 32-bit
  words, so the accumulation of digits wraps around as in the source. A pointer into the source string is
  the list of the bytes that remain.
\<close>

section \<open>Digits and code points\<close>

definition kHexChar :: "u8 list" where
  "kHexChar = [48, 49, 50, 51, 52, 53, 54, 55, 56, 57, 97, 98, 99, 100, 101, 102]"

definition is_octal_digit :: "u8 \<Rightarrow> bool" where
  "is_octal_digit c \<longleftrightarrow> 48 \<le> c \<and> c \<le> 55"

definition hex_digit_to_int :: "u8 \<Rightarrow> u32" where
  "hex_digit_to_int c = (let x = ucast c; x = (if x > 57 then x + 9 else x) in x AND 0xF)"

definition IsSurrogate :: "u32 \<Rightarrow> bool" where
  "IsSurrogate c \<longleftrightarrow> c \<ge> 0xD800 \<and> c \<le> 0xDFFF"

definition EncodeUTF8Char :: "u32 \<Rightarrow> u8 list" where
  "EncodeUTF8Char utf8_char =
     (if utf8_char \<le> 0x7F then [ucast utf8_char]
      else if utf8_char \<le> 0x7FF then
        [ucast (0xC0 OR drop_bit 6 utf8_char), ucast (0x80 OR (utf8_char AND 0x3F))]
      else if utf8_char \<le> 0xFFFF then
        [ucast (0xE0 OR drop_bit 6 (drop_bit 6 utf8_char)), ucast (0x80 OR (drop_bit 6 utf8_char AND 0x3F)),
         ucast (0x80 OR (utf8_char AND 0x3F))]
      else
        [ucast (0xF0 OR drop_bit 6 (drop_bit 6 (drop_bit 6 utf8_char))),
         ucast (0x80 OR (drop_bit 6 (drop_bit 6 utf8_char) AND 0x3F)),
         ucast (0x80 OR (drop_bit 6 utf8_char AND 0x3F)), ucast (0x80 OR (utf8_char AND 0x3F))])"

section \<open>Unescaping\<close>

text \<open>The error messages of the source, with the part of the source string that they quote.\<close>

datatype unescape_error =
    Ends_with_backslash
  | Octal_exceeds "u8 list"
  | Ends_with_x
  | X_without_hex_digit
  | Hex_exceeds "u8 list"
  | Needs_4_digits "u8 list"
  | Needs_8_digits "u8 list"
  | Exceeds_unicode "u8 list"
  | Surrogate "u8 list"
  | Unknown_escape u8

definition unescape_letter :: "u8 \<Rightarrow> u8 option" where
  "unescape_letter c =
     (if c = 97 then Some 7 else if c = 98 then Some 8 else if c = 102 then Some 12 else if c = 110 then Some 10
      else if c = 114 then Some 13 else if c = 116 then Some 9 else if c = 118 then Some 11 else if c = 92 then Some 92
      else if c = 63 then Some 63 else if c = 39 then Some 39 else if c = 34 then Some 34 else None)"

fun octal_more :: "u32 \<times> u8 list \<times> u8 list \<Rightarrow> u32 \<times> u8 list \<times> u8 list" where
  "octal_more (ch, seen, []) = (ch, seen, [])"
| "octal_more (ch, seen, c # rest) =
     (if is_octal_digit c then (ch * 8 + ucast (c - 48), seen @ [c], rest) else (ch, seen, c # rest))"

definition unescape_octal :: "bool \<Rightarrow> u8 \<Rightarrow> u8 list \<Rightarrow> unescape_error + (u8 list \<times> u8 list)" where
  "unescape_octal leave_nulls_escaped p rest =
     (let (ch, seen, rest) = octal_more (octal_more (ucast (p - 48), [p], rest)) in
      if ch > 0xFF then Inl (Octal_exceeds seen)
      else if ch = 0 \<and> leave_nulls_escaped then Inr (92 # seen, rest)
      else Inr ([ucast ch], rest))"

fun hex_digits :: "u32 \<Rightarrow> u8 list \<Rightarrow> u8 list \<Rightarrow> u32 \<times> u8 list \<times> u8 list" where
  "hex_digits ch seen [] = (ch, seen, [])"
| "hex_digits ch seen (c # rest) =
     (if ascii_isxdigit c then hex_digits (push_bit 4 ch + hex_digit_to_int c) (seen @ [c]) rest
      else (ch, seen, c # rest))"

definition unescape_hex :: "bool \<Rightarrow> u8 \<Rightarrow> u8 list \<Rightarrow> unescape_error + (u8 list \<times> u8 list)" where
  "unescape_hex leave_nulls_escaped p rest =
     (case rest of [] \<Rightarrow> Inl Ends_with_x
      | c # _ \<Rightarrow>
        if \<not> ascii_isxdigit c then Inl X_without_hex_digit
        else let (ch, seen, rest) = hex_digits 0 [p] rest in
          if ch > 0xFF then Inl (Hex_exceeds seen)
          else if ch = 0 \<and> leave_nulls_escaped then Inr (92 # seen, rest)
          else Inr ([ucast ch], rest))"

text \<open>Four hexadecimal digits, and eight digits of a value within the Unicode limit.\<close>

fun rune_4 :: "nat \<Rightarrow> u32 \<Rightarrow> u8 list \<Rightarrow> u8 list \<Rightarrow> unescape_error + (u32 \<times> u8 list \<times> u8 list)" where
  "rune_4 0 rune seen rest = Inr (rune, seen, rest)"
| "rune_4 (Suc i) rune seen rest =
     (case rest of [] \<Rightarrow> Inl (Needs_4_digits seen)
      | c # rest' \<Rightarrow>
        if ascii_isxdigit c then rune_4 i (push_bit 4 rune + hex_digit_to_int c) (seen @ [c]) rest'
        else Inl (Needs_4_digits seen))"

fun rune_8 :: "nat \<Rightarrow> u32 \<Rightarrow> u8 list \<Rightarrow> u8 list \<Rightarrow> unescape_error + (u32 \<times> u8 list \<times> u8 list)" where
  "rune_8 0 rune seen rest = Inr (rune, seen, rest)"
| "rune_8 (Suc i) rune seen rest =
     (case rest of [] \<Rightarrow> Inl (Needs_8_digits seen)
      | c # rest' \<Rightarrow>
        if ascii_isxdigit c
        then let newrune = push_bit 4 rune + hex_digit_to_int c in
          if newrune > 0x10FFFF then Inl (Exceeds_unicode (seen @ [c]))
          else rune_8 i newrune (seen @ [c]) rest'
        else Inl (Needs_8_digits seen))"

definition unescape_rune ::
  "bool \<Rightarrow> unescape_error + (u32 \<times> u8 list \<times> u8 list) \<Rightarrow> unescape_error + (u8 list \<times> u8 list)" where
  "unescape_rune leave_nulls_escaped r =
     bindE r (\<lambda>(rune, seen, rest).
       if rune = 0 \<and> leave_nulls_escaped then Inr (92 # seen, rest)
       else if IsSurrogate rune then Inl (Surrogate seen)
       else Inr (EncodeUTF8Char rune, rest))"

definition unescape_u :: "bool \<Rightarrow> u8 \<Rightarrow> u8 list \<Rightarrow> unescape_error + (u8 list \<times> u8 list)" where
  "unescape_u leave_nulls_escaped p rest =
     (if length rest < 4 then Inl (Needs_4_digits [p])
      else unescape_rune leave_nulls_escaped (rune_4 4 0 [p] rest))"

definition unescape_U :: "bool \<Rightarrow> u8 \<Rightarrow> u8 list \<Rightarrow> unescape_error + (u8 list \<times> u8 list)" where
  "unescape_U leave_nulls_escaped p rest =
     (if length rest < 8 then Inl (Needs_8_digits [p])
      else unescape_rune leave_nulls_escaped (rune_8 8 0 [p] rest))"

text \<open>One escape sequence: the byte after the backslash and the bytes behind it.\<close>

definition unescape_one :: "bool \<Rightarrow> u8 \<Rightarrow> u8 list \<Rightarrow> unescape_error + (u8 list \<times> u8 list)" where
  "unescape_one leave_nulls_escaped p rest =
     (case unescape_letter p of Some c \<Rightarrow> Inr ([c], rest)
      | None \<Rightarrow>
        if is_octal_digit p then unescape_octal leave_nulls_escaped p rest
        else if p = 120 \<or> p = 88 then unescape_hex leave_nulls_escaped p rest
        else if p = 117 then unescape_u leave_nulls_escaped p rest
        else if p = 85 then unescape_U leave_nulls_escaped p rest
        else Inl (Unknown_escape p))"

text \<open>What an escape sequence consumes, and that its output is not longer than what it consumed.\<close>

lemma EncodeUTF8Char_length:
  "length (EncodeUTF8Char r) \<le> 4" "r \<le> 0xFFFF \<Longrightarrow> length (EncodeUTF8Char r) \<le> 3"
  by (auto simp: EncodeUTF8Char_def)

lemma octal_more_lengths:
  "octal_more (ch, seen, rest) = (ch', seen', rest') \<Longrightarrow>
     length seen' + length rest' = length seen + length rest \<and> length rest' \<le> length rest"
  by (cases rest) (auto split: if_splits)

lemma hex_digits_lengths:
  "hex_digits ch seen rest = (ch', seen', rest') \<Longrightarrow>
     length seen' + length rest' = length seen + length rest \<and> length rest' \<le> length rest"
  by (induction ch seen rest rule: hex_digits.induct) (auto split: if_splits)

lemma rune_4_lengths:
  "rune_4 i r seen rest = Inr (r', seen', rest') \<Longrightarrow>
     length seen' = length seen + i \<and> length rest = length rest' + i"
  by (induction i r seen rest rule: rune_4.induct) (auto split: list.splits if_splits)

lemma rune_8_lengths:
  "rune_8 i r seen rest = Inr (r', seen', rest') \<Longrightarrow>
     length seen' = length seen + i \<and> length rest = length rest' + i"
  by (induction i r seen rest rule: rune_8.induct) (auto simp: Let_def split: list.splits if_splits)

lemma unescape_rune_lengths:
  assumes "unescape_rune lv r = Inr (out, rest')" "r = Inr (rune, seen, rest'')"
  shows "rest' = rest'' \<and> (length out \<le> length seen + 1 \<or> length out \<le> 4)"
  using assms EncodeUTF8Char_length(1) [of rune] by (auto simp: unescape_rune_def split: if_splits)

lemma unescape_one_lengths:
  assumes "unescape_one lv p rest = Inr (out, rest')"
  shows "length rest' \<le> length rest \<and> length out + length rest' \<le> length rest + 2"
proof -
  consider c where "unescape_letter p = Some c" | "unescape_octal lv p rest = Inr (out, rest')"
    | "unescape_hex lv p rest = Inr (out, rest')" | "unescape_u lv p rest = Inr (out, rest')"
    | "unescape_U lv p rest = Inr (out, rest')"
    using assms by (auto simp: unescape_one_def split: option.splits if_splits)
  then show ?thesis
  proof cases
    case 2
    obtain a b c where o1: "octal_more (ucast (p - 48), [p], rest) = (a, b, c)" by (metis prod_cases3)
    obtain ch seen r where o2: "octal_more (a, b, c) = (ch, seen, r)" by (metis prod_cases3)
    show ?thesis using 2 octal_more_lengths [OF o1] octal_more_lengths [OF o2]
      by (auto simp: unescape_octal_def o1 o2 split: if_splits)
  next
    case 3
    obtain ch seen r where h: "hex_digits 0 [p] rest = (ch, seen, r)" by (metis prod_cases3)
    show ?thesis using 3 hex_digits_lengths [OF h] h
      by (cases rest) (auto simp: unescape_hex_def simp del: hex_digits.simps split: if_splits)
  next
    case 4
    then obtain rune seen r where r: "rune_4 4 0 [p] rest = Inr (rune, seen, r)"
      by (auto simp: unescape_u_def unescape_rune_def bindE_eq_Inr split: if_splits)
    show ?thesis using 4 rune_4_lengths [OF r] unescape_rune_lengths [OF _ r, of lv out rest']
      by (auto simp: unescape_u_def split: if_splits)
  next
    case 5
    then obtain rune seen r where r: "rune_8 8 0 [p] rest = Inr (rune, seen, r)"
      by (auto simp: unescape_U_def unescape_rune_def bindE_eq_Inr split: if_splits)
    show ?thesis using 5 rune_8_lengths [OF r] unescape_rune_lengths [OF _ r, of lv out rest']
      by (auto simp: unescape_U_def split: if_splits)
  qed (use assms in \<open>auto simp: unescape_one_def\<close>)
qed

function CUnescapeInternal :: "bool \<Rightarrow> u8 list \<Rightarrow> unescape_error + u8 list" where
  "CUnescapeInternal lv [] = Inr []"
| "CUnescapeInternal lv (c # source) =
     (if c \<noteq> 92 then bindE (CUnescapeInternal lv source) (\<lambda>d. Inr (c # d))
      else case source of [] \<Rightarrow> Inl Ends_with_backslash
        | p # rest \<Rightarrow> bindE (unescape_one lv p rest) (\<lambda>(out, rest).
            bindE (CUnescapeInternal lv rest) (\<lambda>d. Inr (out @ d))))"
  by pat_completeness auto
termination
  by (relation "measure (\<lambda>(lv, s). length s)") (auto dest: unescape_one_lengths)

definition c_decode :: "u8 list \<Rightarrow> unescape_error + u8 list" where
  "c_decode source = CUnescapeInternal False source"

section \<open>Escaping\<close>

fun CEscapeLoop :: "bool \<Rightarrow> bool \<Rightarrow> bool \<Rightarrow> u8 list \<Rightarrow> u8 list" where
  "CEscapeLoop use_hex utf8_safe last_hex_escape [] = []"
| "CEscapeLoop use_hex utf8_safe last_hex_escape (c # src) =
     (if c = 10 then [92, 110] @ CEscapeLoop use_hex utf8_safe False src
      else if c = 13 then [92, 114] @ CEscapeLoop use_hex utf8_safe False src
      else if c = 9 then [92, 116] @ CEscapeLoop use_hex utf8_safe False src
      else if c = 34 then [92, 34] @ CEscapeLoop use_hex utf8_safe False src
      else if c = 39 then [92, 39] @ CEscapeLoop use_hex utf8_safe False src
      else if c = 92 then [92, 92] @ CEscapeLoop use_hex utf8_safe False src
      else if (\<not> utf8_safe \<or> c < 0x80) \<and> (\<not> ascii_isprint c \<or> last_hex_escape \<and> ascii_isxdigit c)
      then if use_hex
           then [92, 120, kHexChar ! (unat c div 16), kHexChar ! (unat c mod 16)] @ CEscapeLoop use_hex utf8_safe True src
           else [92, kHexChar ! (unat c div 64), kHexChar ! (unat c mod 64 div 8), kHexChar ! (unat c mod 8)]
             @ CEscapeLoop use_hex utf8_safe False src
      else c # CEscapeLoop use_hex utf8_safe False src)"

definition CEscapeInternal :: "u8 list \<Rightarrow> bool \<Rightarrow> bool \<Rightarrow> u8 list" where
  "CEscapeInternal src use_hex utf8_safe = CEscapeLoop use_hex utf8_safe False src"

definition kCEscapedLen :: "nat list" where
  "kCEscapedLen = [
    4, 4, 4, 4, 4, 4, 4, 4, 4, 2, 2, 4, 4, 2, 4, 4,
    4, 4, 4, 4, 4, 4, 4, 4, 4, 4, 4, 4, 4, 4, 4, 4,
    1, 1, 2, 1, 1, 1, 1, 2, 1, 1, 1, 1, 1, 1, 1, 1,
    1, 1, 1, 1, 1, 1, 1, 1, 1, 1, 1, 1, 1, 1, 1, 1,
    1, 1, 1, 1, 1, 1, 1, 1, 1, 1, 1, 1, 1, 1, 1, 1,
    1, 1, 1, 1, 1, 1, 1, 1, 1, 1, 1, 1, 2, 1, 1, 1,
    1, 1, 1, 1, 1, 1, 1, 1, 1, 1, 1, 1, 1, 1, 1, 1,
    1, 1, 1, 1, 1, 1, 1, 1, 1, 1, 1, 1, 1, 1, 1, 4,
    4, 4, 4, 4, 4, 4, 4, 4, 4, 4, 4, 4, 4, 4, 4, 4,
    4, 4, 4, 4, 4, 4, 4, 4, 4, 4, 4, 4, 4, 4, 4, 4,
    4, 4, 4, 4, 4, 4, 4, 4, 4, 4, 4, 4, 4, 4, 4, 4,
    4, 4, 4, 4, 4, 4, 4, 4, 4, 4, 4, 4, 4, 4, 4, 4,
    4, 4, 4, 4, 4, 4, 4, 4, 4, 4, 4, 4, 4, 4, 4, 4,
    4, 4, 4, 4, 4, 4, 4, 4, 4, 4, 4, 4, 4, 4, 4, 4,
    4, 4, 4, 4, 4, 4, 4, 4, 4, 4, 4, 4, 4, 4, 4, 4,
    4, 4, 4, 4, 4, 4, 4, 4, 4, 4, 4, 4, 4, 4, 4, 4]"
definition size_max :: nat where
  "size_max = 2 ^ 64 - 1"

fun escaped_len_unchecked :: "nat \<Rightarrow> u8 list \<Rightarrow> nat" where
  "escaped_len_unchecked n [] = n"
| "escaped_len_unchecked n (c # src) = escaped_len_unchecked ((n + kCEscapedLen ! unat c) mod (size_max + 1)) src"

fun escaped_len_checked :: "nat \<Rightarrow> u8 list \<Rightarrow> fault + nat" where
  "escaped_len_checked n [] = Inr n"
| "escaped_len_checked n (c # src) =
     (let char_len = kCEscapedLen ! unat c in
      if n \<le> size_max - char_len then escaped_len_checked (n + char_len) src else Inl Fatal_check)"

definition CEscapedLength :: "u8 list \<Rightarrow> fault + nat" where
  "CEscapedLength src =
     (let unchecked_limit = min (length src) (size_max div 4)
      in escaped_len_checked (escaped_len_unchecked 0 (take unchecked_limit src)) (drop unchecked_limit src))"

definition c_escape_byte :: "u8 \<Rightarrow> u8 list" where
  "c_escape_byte c =
     (let char_len = kCEscapedLen ! unat c in
      if char_len = 1 then [c]
      else if char_len = 2 then
        (if c = 10 then [92, 110] else if c = 13 then [92, 114] else if c = 9 then [92, 116]
         else if c = 34 then [92, 34] else if c = 39 then [92, 39] else if c = 92 then [92, 92] else [])
      else [92, 48 + c div 64, 48 + c mod 64 div 8, 48 + c mod 8])"

text \<open>
  The bytes are written behind the old content of \<open>dest\<close>, which has been enlarged by the computed length;
  a write behind that is a fault, and bytes that are not written keep an unspecified value (zero here).
\<close>

definition CEscapeAndAppendInternal :: "u8 list \<Rightarrow> u8 list \<Rightarrow> fault + u8 list" where
  "CEscapeAndAppendInternal src dest =
     bindE (CEscapedLength src) (\<lambda>escaped_len.
       if escaped_len = length src then Inr (dest @ src)
       else if length dest > size_max - escaped_len then Inl Fatal_check
       else let out = concat (map c_escape_byte src) in
         if length out > escaped_len then Inl Out_of_range
         else Inr (dest @ out @ replicate (escaped_len - length out) 0))"

definition c_encode :: "u8 list \<Rightarrow> fault + u8 list" where
  "c_encode src = CEscapeAndAppendInternal src []"

definition c_hex_encode :: "u8 list \<Rightarrow> u8 list" where
  "c_hex_encode src = CEscapeInternal src True False"

definition utf8_safe_encode :: "u8 list \<Rightarrow> u8 list" where
  "utf8_safe_encode src = CEscapeInternal src False True"

definition utf8_safe_hex_encode :: "u8 list \<Rightarrow> u8 list" where
  "utf8_safe_hex_encode src = CEscapeInternal src True True"

end
