(* ===== verification/Word_Bits.thy ===== *)
theory Word_Bits
  imports Prelude
begin

text \<open>Bit operations on words read as arithmetic on natural numbers.\<close>

lemma byte_lt: "unat (a :: u8) < 256"
  using unat_less_2p [of a] by simp

lemma nat_or_disjoint:
  fixes q k :: nat
  assumes "k < 2 ^ n"
  shows "q * 2 ^ n OR k = q * 2 ^ n + k"
proof -
  have "int (q * 2 ^ n OR k) = push_bit n (int q) OR take_bit n (int k)"
    using assms by (simp add: of_nat_or_eq push_bit_eq_mult take_bit_int_eq_self)
  also have "\<dots> = int (q * 2 ^ n + k)"
    using assms concat_bit_eq [of n "int k" "int q"]
    by (simp add: concat_bit_def or.commute push_bit_eq_mult take_bit_int_eq_self)
  finally show ?thesis by (simp only: of_nat_eq_iff)
qed

lemma unat_or_disjoint:
  assumes "unat (b :: 'n::len word) < 2 ^ n" "2 ^ n dvd unat a"
  shows "unat (a OR b) = unat a + unat b"
  using assms nat_or_disjoint [OF assms(1), of "unat a div 2 ^ n"] by (simp add: unsigned_or_eq)

lemma unat_and_mask:
  "unat (a AND 0x3F) = unat (a :: u32) mod 64" "unat (a AND 0xFFF) = unat a mod 4096"
  "unat (a AND 0x3FFFF) = unat a mod 262144" "unat (a AND 0xF) = unat a mod 16" "unat (a AND 0x3) = unat a mod 4"
  "unat (a AND 0x3FF) = unat a mod 1024" 
proof -
  have m: "unat (a AND mask n) = unat a mod 2 ^ n" for n
    by (simp only: take_bit_eq_mask [symmetric] unsigned_take_bit_eq) (simp add: take_bit_eq_mod)
  show "unat (a AND 0x3F) = unat (a :: u32) mod 64" using m [of 6] by (simp add: mask_eq_exp_minus_1)
  show "unat (a AND 0xFFF) = unat a mod 4096" using m [of 12] by (simp add: mask_eq_exp_minus_1)
  show "unat (a AND 0x3FFFF) = unat a mod 262144" using m [of 18] by (simp add: mask_eq_exp_minus_1)
  show "unat (a AND 0xF) = unat a mod 16" using m [of 4] by (simp add: mask_eq_exp_minus_1)
  show "unat (a AND 0x3) = unat a mod 4" using m [of 2] by (simp add: mask_eq_exp_minus_1)
  show "unat (a AND 0x3FF) = unat a mod 1024" using m [of 10] by (simp add: mask_eq_exp_minus_1)
qed

lemma unat_drop_bit: "unat (drop_bit n a) = unat (a :: 'n::len word) div 2 ^ n"
  by (simp only: unsigned_drop_bit_eq) (simp add: drop_bit_eq_div take_bit_nat_eq_self)

end
