(* ===== verification/C_Escape_Laws.thy ===== *)
theory C_Escape_Laws
  imports C_Escape Word_Bits
begin

text \<open>Round trips, lengths and errors of C style escaping.\<close>

section \<open>Digits\<close>

lemma kHexChar_digits:
  assumes "n < 16"
  shows "ascii_isxdigit (kHexChar ! n)" "hex_digit_to_int (kHexChar ! n) = word_of_nat n"
    "n < 8 \<Longrightarrow> kHexChar ! n = 48 + word_of_nat n"
proof -
  have "\<forall>n \<in> set [0..<16]. ascii_isxdigit (kHexChar ! n) \<and> hex_digit_to_int (kHexChar ! n) = word_of_nat n \<and>
      (n < 8 \<longrightarrow> kHexChar ! n = 48 + word_of_nat n)" by code_simp
  then show "ascii_isxdigit (kHexChar ! n)" "hex_digit_to_int (kHexChar ! n) = word_of_nat n"
    "n < 8 \<Longrightarrow> kHexChar ! n = 48 + word_of_nat n" using assms by auto
qed

lemma byte_less: "unat (c :: u8) < 256"
  using unat_less_2p [of c] by simp

lemma octal_digit:
  assumes "n < 8"
  shows "is_octal_digit (48 + word_of_nat n)" "unescape_letter (48 + word_of_nat n) = None"
    "(ucast ((48 + word_of_nat n) - 48 :: u8) :: u32) = word_of_nat n"
proof -
  have "\<forall>n \<in> set [0..<8]. is_octal_digit (48 + word_of_nat n) \<and> unescape_letter (48 + word_of_nat n) = None \<and>
    (ucast ((48 + word_of_nat n) - 48 :: u8) :: u32) = word_of_nat n" by code_simp
  then show "is_octal_digit (48 + word_of_nat n)" "unescape_letter (48 + word_of_nat n) = None"
    "(ucast ((48 + word_of_nat n) - 48 :: u8) :: u32) = word_of_nat n" using assms by auto
qed

lemma u32_of_byte:
  assumes "m = unat (c :: u8)"
  shows "\<not> (word_of_nat m :: u32) > 0xFF" "ucast (word_of_nat m :: u32) = c" "(word_of_nat m :: u32) = 0 \<longleftrightarrow> c = 0"
proof -
  have "m < 256" using byte_less [of c] assms by simp
  then have u: "unat (word_of_nat m :: u32) = m" by (simp add: unat_of_nat)
  show "\<not> (word_of_nat m :: u32) > 0xFF" using u byte_less [of c] assms by (simp add: word_less_nat_alt)
  show "ucast (word_of_nat m :: u32) = c" using \<open>m < 256\<close> assms u by (simp only: word_unat_eq_iff unat_ucast_mod) simp
  show "(word_of_nat m :: u32) = 0 \<longleftrightarrow> c = 0" using u assms by (metis unat_eq_zero)
qed

lemma octal_value: "(n div 64 * 8 + n mod 64 div 8) * 8 + n mod 8 = (n :: nat)"
proof -
  have "n div 64 = n div 8 div 8" by (simp add: div_mult2_eq [symmetric])
  moreover have "n mod 64 div 8 = n div 8 mod 8" using mod_mult2_eq [of n 8 8] by simp
  ultimately show ?thesis by simp
qed

lemma unescape_octal_escape:
  "unescape_one False (kHexChar ! (unat c div 64)) (kHexChar ! (unat c mod 64 div 8) # kHexChar ! (unat c mod 8) # t)
    = Inr ([c], t)"
proof -
  define i j k where "i = unat c div 64" and "j = unat c mod 64 div 8" and "k = unat c mod 8"
  have lt: "i < 8" "j < 8" "k < 8" using byte_less [of c] by (auto simp: i_def j_def k_def)
  have d: "kHexChar ! i = 48 + word_of_nat i" "kHexChar ! j = 48 + word_of_nat j" "kHexChar ! k = 48 + word_of_nat k"
    using lt kHexChar_digits(3) by simp_all
  have v: "(i * 8 + j) * 8 + k = unat c" unfolding i_def j_def k_def by (rule octal_value)
  have w: "(word_of_nat i * 8 + word_of_nat j) * 8 + word_of_nat k = (word_of_nat (unat c) :: u32)"
    unfolding v [symmetric] by simp
  note o = octal_digit [OF lt(1)] octal_digit [OF lt(2)] octal_digit [OF lt(3)]
  show ?thesis unfolding i_def [symmetric] j_def [symmetric] k_def [symmetric] d
    using o u32_of_byte [OF refl, of c]
    by (simp only: unescape_one_def unescape_octal_def option.case if_True octal_more.simps w Let_def prod.case simp_thms if_False)
qed

lemma unescape_hex_escape:
  assumes "t = [] \<or> \<not> ascii_isxdigit (hd t)"
  shows "unescape_one False 120 (kHexChar ! (unat c div 16) # kHexChar ! (unat c mod 16) # t) = Inr ([c], t)"
proof -
  define i j where "i = unat c div 16" and "j = unat c mod 16"
  have lt: "i < 16" "j < 16" using byte_less [of c] by (auto simp: i_def j_def)
  have v: "i * 16 + j = unat c" unfolding i_def j_def by simp
  have "push_bit 4 (word_of_nat i) + word_of_nat j = (word_of_nat (unat c) :: u32)"
    unfolding v [symmetric] by (simp add: push_bit_eq_mult)
  moreover have "hex_digits ch seen t = (ch, seen, t)" for ch seen
    using assms by (cases t) auto
  ultimately have "hex_digits 0 [120] (kHexChar ! i # kHexChar ! j # t) = (word_of_nat (unat c), [120, kHexChar ! i, kHexChar ! j], t)"
    using kHexChar_digits(1,2) [OF lt(1)] kHexChar_digits(1,2) [OF lt(2)] by simp
  then have "unescape_hex False 120 (kHexChar ! i # kHexChar ! j # t) = Inr ([c], t)"
    using kHexChar_digits(1) [OF lt(1)] u32_of_byte [OF refl, of c]
    by (simp add: unescape_hex_def del: hex_digits.simps)
  moreover have "unescape_letter 120 = None" "\<not> is_octal_digit 120" by code_simp+
  ultimately show ?thesis unfolding i_def [symmetric] j_def [symmetric] by (simp add: unescape_one_def)
qed

lemma unescape_letters:
  "unescape_one lv 110 t = Inr ([10], t)" "unescape_one lv 114 t = Inr ([13], t)" "unescape_one lv 116 t = Inr ([9], t)"
  "unescape_one lv 34 t = Inr ([34], t)" "unescape_one lv 39 t = Inr ([39], t)" "unescape_one lv 92 t = Inr ([92], t)"
  by (simp_all add: unescape_one_def unescape_letter_def)

lemma CEscapeLoop_after_hex:
  "CEscapeLoop use_hex utf8_safe True src = [] \<or> \<not> ascii_isxdigit (hd (CEscapeLoop use_hex utf8_safe True src))"
proof (cases src)
  case (Cons c s)
  have "\<not> ascii_isxdigit 92" by (simp add: ascii_isxdigit_range)
  moreover have "\<not> ascii_isxdigit c" if "\<not> c < 0x80"
    using that by (auto simp: ascii_isxdigit_range word_le_nat_alt word_less_nat_alt)
  ultimately show ?thesis using Cons by auto
qed simp

lemma unescape_CEscapeLoop: "CUnescapeInternal False (CEscapeLoop use_hex utf8_safe last_hex src) = Inr src"
proof (induction src arbitrary: last_hex)
  case (Cons c src)
  note escapes = unescape_letters unescape_octal_escape unescape_hex_escape [OF CEscapeLoop_after_hex]
  show ?case using Cons.IH by (cases use_hex) (simp_all add: escapes)
qed simp

section \<open>The optimised escaper\<close>

lemma kCEscapedLen_table:
  "kCEscapedLen = map (\<lambda>n. if n \<in> set [9, 10, 13, 34, 39, 92] then 2 else if 32 \<le> n \<and> n < 127 then 1 else 4) [0..<256]"
  by code_simp

lemma kCEscapedLen_byte:
  "kCEscapedLen ! unat c = (if c \<in> {9, 10, 13, 34, 39, 92} then 2 else if ascii_isprint c then 1 else 4)"
  unfolding byte_range [OF kCEscapedLen_table]
  by (simp add: ascii_isprint_def word_le_nat_alt word_less_nat_alt word_unat_eq_iff)

lemma octal_byte:
  "48 + c div 64 = kHexChar ! (unat c div 64)" "48 + c mod 64 div 8 = kHexChar ! (unat c mod 64 div 8)"
  "48 + c mod 8 = kHexChar ! (unat c mod 8)"
proof -
  have lt: "unat c div 64 < 8" "unat c mod 64 div 8 < 8" "unat c mod 8 < 8" using byte_less [of c] by auto
  have small: "unat (word_of_nat n :: u8) = n" if "n < 8" for n using that by (simp add: unat_of_nat)
  show "48 + c div 64 = kHexChar ! (unat c div 64)" "48 + c mod 64 div 8 = kHexChar ! (unat c mod 64 div 8)"
    "48 + c mod 8 = kHexChar ! (unat c mod 8)"
    using lt kHexChar_digits(3) by (simp_all add: word_unat_eq_iff unat_word_ariths unat_div unat_mod small)
qed

lemma c_escape_byte_loop: "c_escape_byte c @ CEscapeLoop False False False src = CEscapeLoop False False False (c # src)"
  unfolding c_escape_byte_def Let_def kCEscapedLen_byte octal_byte by auto

lemma c_escape_concat: "concat (map c_escape_byte src) = CEscapeInternal src False False"
  unfolding CEscapeInternal_def
proof (induction src)
  case (Cons c src) then show ?case using c_escape_byte_loop [of c src] by simp
qed simp

lemma c_escape_byte_length: "length (c_escape_byte c) = kCEscapedLen ! unat c"
  unfolding c_escape_byte_def Let_def kCEscapedLen_byte by auto

lemma escaped_len_bounds: "1 \<le> kCEscapedLen ! unat (c :: u8) \<and> kCEscapedLen ! unat c \<le> 4"
  unfolding kCEscapedLen_byte by simp

lemma c_escape_plain:
  assumes "length (concat (map c_escape_byte src)) = length src"
  shows "concat (map c_escape_byte src) = src"
proof -
  have ge: "length xs \<le> length (concat (map c_escape_byte xs))" for xs
  proof (induction xs)
    case (Cons a xs) then show ?case using escaped_len_bounds [of a] by (simp add: c_escape_byte_length)
  qed simp
  show ?thesis using assms
  proof (induction src)
    case (Cons c src)
    have "length (c_escape_byte c) = 1" "length (concat (map c_escape_byte src)) = length src"
      using Cons.prems ge [of src] escaped_len_bounds [of c] by (auto simp: c_escape_byte_length)
    moreover have "c_escape_byte c = [c]" if "length (c_escape_byte c) = 1"
      using that unfolding c_escape_byte_length unfolding c_escape_byte_def by simp
    ultimately show ?case using Cons.IH by simp
  qed simp
qed

lemma escaped_len_unchecked_eq:
  "n + 4 * length src \<le> size_max \<Longrightarrow> escaped_len_unchecked n src = n + length (concat (map c_escape_byte src))"
proof (induction src arbitrary: n)
  case (Cons c src)
  have "n + kCEscapedLen ! unat c + 4 * length src \<le> size_max" using Cons.prems escaped_len_bounds [of c] by simp
  then show ?case using Cons.IH by (simp add: c_escape_byte_length)
qed simp

lemma escaped_len_checked_eq:
  "n \<le> size_max \<Longrightarrow> escaped_len_checked n src =
    (if n + length (concat (map c_escape_byte src)) \<le> size_max then Inr (n + length (concat (map c_escape_byte src)))
     else Inl Fatal_check)"
proof (induction src arbitrary: n)
  case (Cons c src)
  have "kCEscapedLen ! unat c \<le> size_max" using escaped_len_bounds [of c] by (simp add: size_max_def)
  then show ?case using Cons.IH [of "n + kCEscapedLen ! unat c"] by (auto simp: c_escape_byte_length Let_def)
qed simp

lemma CEscapedLength_eq:
  "CEscapedLength src = (if length (CEscapeInternal src False False) \<le> size_max
     then Inr (length (CEscapeInternal src False False)) else Inl Fatal_check)"
proof -
  let ?u = "min (length src) (size_max div 4)"
  have "4 * length (take ?u src) \<le> size_max" by (simp add: min_def) linarith
  then have u: "escaped_len_unchecked 0 (take ?u src) = length (concat (map c_escape_byte (take ?u src)))"
    using escaped_len_unchecked_eq [of 0 "take ?u src"] by simp
  have four: "length (concat (map c_escape_byte xs)) \<le> 4 * length xs" for xs
    by (induction xs) (use escaped_len_bounds in \<open>auto simp: c_escape_byte_length add_le_mono\<close>)
  have le: "length (concat (map c_escape_byte (take ?u src))) \<le> size_max"
    using four [of "take ?u src"] \<open>4 * length (take ?u src) \<le> size_max\<close> by linarith
  have "length (concat (map c_escape_byte (take ?u src))) + length (concat (map c_escape_byte (drop ?u src)))
      = length (concat (map c_escape_byte src))"
    by (metis append_take_drop_id concat_append length_append map_append)
  then show ?thesis unfolding CEscapedLength_def Let_def u escaped_len_checked_eq [OF le] c_escape_concat [symmetric] by simp
qed

section \<open>UTF-8\<close>

text \<open>The reading of a UTF-8 sequence as a Unicode scalar value, with the checks of RFC 3629.\<close>

definition utf8_tail :: "nat \<Rightarrow> bool" where
  "utf8_tail b \<longleftrightarrow> 0x80 \<le> b \<and> b \<le> 0xBF"

fun utf8_scalar :: "nat list \<Rightarrow> nat option" where
  "utf8_scalar [a] = (if a < 0x80 then Some a else None)"
| "utf8_scalar [a, b] =
     (let v = (a - 0xC0) * 64 + (b - 0x80) in
      if 0xC0 \<le> a \<and> a \<le> 0xDF \<and> utf8_tail b \<and> 0x80 \<le> v then Some v else None)"
| "utf8_scalar [a, b, c] =
     (let v = ((a - 0xE0) * 64 + (b - 0x80)) * 64 + (c - 0x80) in
      if 0xE0 \<le> a \<and> a \<le> 0xEF \<and> utf8_tail b \<and> utf8_tail c \<and> 0x800 \<le> v \<and> \<not> (0xD800 \<le> v \<and> v \<le> 0xDFFF)
      then Some v else None)"
| "utf8_scalar [a, b, c, d] =
     (let v = (((a - 0xF0) * 64 + (b - 0x80)) * 64 + (c - 0x80)) * 64 + (d - 0x80) in
      if 0xF0 \<le> a \<and> a \<le> 0xF7 \<and> utf8_tail b \<and> utf8_tail c \<and> utf8_tail d \<and> 0x10000 \<le> v \<and> v \<le> 0x10FFFF
      then Some v else None)"
| "utf8_scalar _ = None"

lemma utf8_byte:
  assumes "unat (x :: u32) < 2 ^ n" "2 ^ n dvd m" "m + unat x < 256" "unat (k :: u32) = m"
  shows "unat (ucast (k OR x) :: u8) = m + unat x"
  using unat_or_disjoint [of x n k] assms by (simp add: unat_ucast_mod)

lemma EncodeUTF8Char_bytes:
  assumes "unat r \<le> 0x10FFFF"
  shows "map unat (EncodeUTF8Char r) =
    (let n = unat r in
     if n \<le> 0x7F then [n] else if n \<le> 0x7FF then [0xC0 + n div 64, 0x80 + n mod 64]
     else if n \<le> 0xFFFF then [0xE0 + n div 64 div 64, 0x80 + n div 64 mod 64, 0x80 + n mod 64]
     else [0xF0 + n div 64 div 64 div 64, 0x80 + n div 64 div 64 mod 64, 0x80 + n div 64 mod 64, 0x80 + n mod 64])"
proof -
  define n where "n = unat r"
  have d: "unat (drop_bit 6 x) = unat x div 64" for x :: u32 using unat_drop_bit [of 6 x] by simp
  have tail: "unat (ucast (0x80 OR (x AND 0x3F) :: u32) :: u8) = 0x80 + unat x mod 64" for x :: u32
    using utf8_byte [of "x AND 0x3F" 6 128 128] pos_mod_bound by (simp add: unat_and_mask)
  have lead: "n div 64 < 32 \<Longrightarrow> unat (ucast (0xC0 OR drop_bit 6 r :: u32) :: u8) = 0xC0 + n div 64"
    "n div 64 div 64 < 16 \<Longrightarrow> unat (ucast (0xE0 OR drop_bit 6 (drop_bit 6 r) :: u32) :: u8) = 0xE0 + n div 64 div 64"
    "n div 64 div 64 div 64 < 8 \<Longrightarrow>
      unat (ucast (0xF0 OR drop_bit 6 (drop_bit 6 (drop_bit 6 r)) :: u32) :: u8) = 0xF0 + n div 64 div 64 div 64"
    using utf8_byte [of "drop_bit 6 r" 5 192 192] utf8_byte [of "drop_bit 6 (drop_bit 6 r)" 4 224 224]
      utf8_byte [of "drop_bit 6 (drop_bit 6 (drop_bit 6 r))" 3 240 240]
    by (simp_all add: d n_def del: drop_bit_drop_bit)
  have small: "n \<le> 0x7F \<Longrightarrow> unat (ucast r :: u8) = n" by (simp add: unat_ucast_mod n_def)
  have le: "r \<le> 0x7F \<longleftrightarrow> n \<le> 0x7F" "r \<le> 0x7FF \<longleftrightarrow> n \<le> 0x7FF" "r \<le> 0xFFFF \<longleftrightarrow> n \<le> 0xFFFF"
    by (simp_all add: n_def word_le_nat_alt)
  have "n \<le> 0x7FF \<Longrightarrow> n div 64 < 32" "n \<le> 0xFFFF \<Longrightarrow> n div 64 div 64 < 16" "n div 64 div 64 div 64 < 8"
    using assms unfolding n_def [symmetric] by linarith+
  then show ?thesis unfolding EncodeUTF8Char_def le Let_def n_def [symmetric]
    using lead small by (simp add: tail d n_def [symmetric] del: drop_bit_drop_bit)
qed

section \<open>The public functions\<close>

lemma CEscapeInternal_plain:
  assumes "length (CEscapeInternal s False False) = length s"
  shows "CEscapeInternal s False False = s"
proof -
  have "length (concat (map c_escape_byte s)) = length s" using assms by (simp only: c_escape_concat)
  then show ?thesis using c_escape_plain [of s] by (simp only: c_escape_concat)
qed

lemma CEscapeAndAppend_eq:
  "CEscapeAndAppendInternal s dest =
    (let e = CEscapeInternal s False False in
     if length e > size_max then Inl Fatal_check
     else if length e \<noteq> length s \<and> length dest > size_max - length e then Inl Fatal_check
     else Inr (dest @ e))"
  using CEscapeInternal_plain [of s]
  by (auto simp: CEscapeAndAppendInternal_def CEscapedLength_eq c_escape_concat Let_def)

lemma c_encode_eq:
  "c_encode s = (if length (CEscapeInternal s False False) > size_max then Inl Fatal_check
     else Inr (CEscapeInternal s False False))"
  by (simp add: c_encode_def CEscapeAndAppend_eq Let_def)

lemma c_decode_encode: "c_decode (CEscapeInternal s use_hex utf8_safe) = Inr s"
  by (simp add: c_decode_def CEscapeInternal_def unescape_CEscapeLoop)

lemma CUnescape_length: "CUnescapeInternal lv s = Inr d \<Longrightarrow> length d \<le> length s"
proof (induction lv s arbitrary: d rule: CUnescapeInternal.induct)
  case (2 lv c source)
  show ?case
  proof (cases "c = 92")
    case False
    then show ?thesis using 2 by (fastforce simp: bindE_eq_Inr)
  next
    case True
    then obtain p rest out rest' d' where s: "source = p # rest" "unescape_one lv p rest = Inr (out, rest')"
      "CUnescapeInternal lv rest' = Inr d'" "d = out @ d'"
      using "2.prems" by (auto simp: bindE_eq_Inr split: list.splits)
    have "length d' \<le> length rest'" using "2.IH"(2) [of p rest "(out, rest')" out rest' d'] True s by simp
    then show ?thesis using unescape_one_lengths [OF s(2)] s by simp
  qed
qed simp

section \<open>Properties\<close>

text \<open>
  C12: Unescaping undoes every one of the four escapers, for all strings: the octal and the hexadecimal form,
  with and without protection of UTF-8 bytes. In particular a hexadecimal digit that follows a hexadecimal
  escape is never read as part of it. The octal escaper returns a result exactly when its length fits \<open>size_t\<close>.
\<close>

theorem c_escape_round_trip:
  "c_decode (c_hex_encode s) = Inr s \<and> c_decode (utf8_safe_encode s) = Inr s \<and> c_decode (utf8_safe_hex_encode s) = Inr s \<and>
   bindE (c_encode s) (\<lambda>e. Inr (c_decode e)) =
     (if length (CEscapeInternal s False False) > size_max then Inl Fatal_check else Inr (Inr s))"
  by (simp add: c_decode_encode c_hex_encode_def utf8_safe_encode_def utf8_safe_hex_encode_def c_encode_eq)

text \<open>
  C34: The two-pass escaper, which computes the length with a table, enlarges the string and writes the bytes
  through a pointer, appends exactly the output of the simple escaper: the computed length is the number of
  bytes written, so nothing is written out of bounds and nothing is left unwritten. It fails only when a
  length would exceed \<open>size_t\<close>.
\<close>

theorem c_escape_append_equiv:
  "CEscapeAndAppendInternal s dest =
    (let e = CEscapeInternal s False False in
     if length e > size_max then Inl Fatal_check
     else if length e \<noteq> length s \<and> length dest > size_max - length e then Inl Fatal_check
     else Inr (dest @ e))"
  by (rule CEscapeAndAppend_eq)

text \<open>
  C35: The output of unescaping is never longer than its input, and neither is the output of a single escape
  sequence: the buffer of the size of the source suffices, also when source and destination are the same.
\<close>

theorem c_unescape_fits:
  assumes "CUnescapeInternal leave_nulls source = Inr d" "unescape_one leave_nulls p rest = Inr (out, rest')"
  shows "length d \<le> length source \<and> length out + length rest' \<le> length (92 # p # rest)"
  using CUnescape_length [OF assms(1)] unescape_one_lengths [OF assms(2)] by simp

theorem c_unescape_fits_witness:
  "CUnescapeInternal False [92, 110, 65] = Inr [10, 65] \<and> length [10, 65 :: u8] \<le> length [92, 110, 65 :: u8]"
proof -
  have "CUnescapeInternal False [92, 110, 65] = Inr [10, 65]" "unescape_one False 110 [65] = Inr ([10], [65])"
    by (simp_all add: unescape_letters)
  with c_unescape_fits [OF this] show ?thesis by blast
qed


text \<open>
  C36: For every Unicode scalar value the UTF-8 encoder produces the sequence that a checking reader accepts
  and reads as that value: the right length, lead byte and continuation bytes.
\<close>

theorem utf8_encode_correct:
  assumes "r \<le> 0x10FFFF" "\<not> IsSurrogate r"
  shows "utf8_scalar (map unat (EncodeUTF8Char r)) = Some (unat r)"
proof -
  define n where "n = unat r"
  have n: "n \<le> 0x10FFFF" and s: "\<not> (0xD800 \<le> n \<and> n \<le> 0xDFFF)"
    using assms by (simp_all add: n_def word_le_nat_alt IsSurrogate_def)
  have digits: "n div 64 * 64 + n mod 64 = n" "n div 64 div 64 * 64 + n div 64 mod 64 = n div 64"
    "n div 64 div 64 div 64 * 64 + n div 64 div 64 mod 64 = n div 64 div 64" by simp_all
  have tail: "utf8_tail (0x80 + m mod 64)" for m :: nat by (simp add: utf8_tail_def)
  have lead: "n \<le> 0x7FF \<Longrightarrow> n div 64 < 32" "n \<le> 0xFFFF \<Longrightarrow> n div 64 div 64 < 16" "n div 64 div 64 div 64 < 8"
    using n by linarith+
  show ?thesis using n s digits tail lead unfolding EncodeUTF8Char_bytes [OF n [unfolded n_def]] n_def [symmetric] Let_def
    by (simp add: Let_def) auto
qed

theorem utf8_encode_correct_witness: "utf8_scalar (map unat (EncodeUTF8Char 0x20AC)) = Some 0x20AC"
  using utf8_encode_correct [of "0x20AC"] by (simp add: IsSurrogate_def word_le_nat_alt)

end
