(* ===== verification/Endian.thy ===== *)
theory Endian
  imports Word_Bits
begin

text \<open>
  Byte order (turbo/base/endian.h) on a little-endian machine: a 32-bit word in memory is its four bytes,
  the least significant one first, and the big-endian loads swap them.
\<close>

definition gbswap_16 :: "u16 \<Rightarrow> u16" where
  "gbswap_16 x = push_bit 8 (x AND 0xFF) OR drop_bit 8 (x AND 0xFF00)"

definition gbswap_32 :: "u32 \<Rightarrow> u32" where
  "gbswap_32 x = push_bit 24 (x AND 0xFF) OR push_bit 8 (x AND 0xFF00) OR drop_bit 8 (x AND 0xFF0000) OR drop_bit 24 (x AND 0xFF000000)"

definition little_endian_load16 :: "u8 \<Rightarrow> u8 \<Rightarrow> u16" where
  "little_endian_load16 a b = ucast a OR push_bit 8 (ucast b)"

definition little_endian_load32 :: "u8 \<Rightarrow> u8 \<Rightarrow> u8 \<Rightarrow> u8 \<Rightarrow> u32" where
  "little_endian_load32 a b c d = ucast a OR push_bit 8 (ucast b) OR push_bit 16 (ucast c) OR push_bit 24 (ucast d)"

definition little_endian_store32 :: "u32 \<Rightarrow> u8 list" where
  "little_endian_store32 v = [ucast v, ucast (drop_bit 8 v), ucast (drop_bit 16 v), ucast (drop_bit 24 v)]"

definition big_endian_load16 :: "u8 \<Rightarrow> u8 \<Rightarrow> u16" where
  "big_endian_load16 a b = gbswap_16 (little_endian_load16 a b)"

definition big_endian_load32 :: "u8 \<Rightarrow> u8 \<Rightarrow> u8 \<Rightarrow> u8 \<Rightarrow> u32" where
  "big_endian_load32 a b c d = gbswap_32 (little_endian_load32 a b c d)"

lemma byte_masks:
  "bit (0xFF :: u16) n \<longleftrightarrow> n < 8" "bit (0xFF00 :: u16) n \<longleftrightarrow> 8 \<le> n \<and> n < 16"
  "bit (0xFF :: u32) n \<longleftrightarrow> n < 8" "bit (0xFF00 :: u32) n \<longleftrightarrow> 8 \<le> n \<and> n < 16"
  "bit (0xFF0000 :: u32) n \<longleftrightarrow> 16 \<le> n \<and> n < 24" "bit (0xFF000000 :: u32) n \<longleftrightarrow> 24 \<le> n \<and> n < 32"
proof -
  have m: "(0xFF :: u16) = mask 8" "(0xFF00 :: u16) = push_bit 8 (mask 8)" "(0xFF :: u32) = mask 8" "(0xFF00 :: u32) = push_bit 8 (mask 8)"
    "(0xFF0000 :: u32) = push_bit 16 (mask 8)" "(0xFF000000 :: u32) = push_bit 24 (mask 8)"
    by (simp_all add: mask_eq_exp_minus_1)
  show "bit (0xFF :: u16) n \<longleftrightarrow> n < 8" "bit (0xFF00 :: u16) n \<longleftrightarrow> 8 \<le> n \<and> n < 16"
    "bit (0xFF :: u32) n \<longleftrightarrow> n < 8" "bit (0xFF00 :: u32) n \<longleftrightarrow> 8 \<le> n \<and> n < 16"
    "bit (0xFF0000 :: u32) n \<longleftrightarrow> 16 \<le> n \<and> n < 24" "bit (0xFF000000 :: u32) n \<longleftrightarrow> 24 \<le> n \<and> n < 32"
    unfolding m by (auto simp only: bit_push_bit_iff bit_mask_iff) simp_all
qed

lemma bit_byte_high: "8 \<le> n \<Longrightarrow> \<not> bit (a :: u8) n"
  using bit_imp_le_length [of a n] by auto

lemma big_endian_load16_eq: "big_endian_load16 a b = little_endian_load16 b a"
proof (rule bit_word_eqI)
  fix n assume "n < LENGTH(16)"
  then consider "n < 8" | m where "n = 8 + m" "m < 8" by (cases "n < 8") (auto simp: not_less le_iff_add)
  then show "bit (big_endian_load16 a b) n = bit (little_endian_load16 b a) n"
    unfolding big_endian_load16_def gbswap_16_def little_endian_load16_def
    unfolding bit_or_iff bit_push_bit_iff bit_drop_bit_eq comp_def bit_and_iff bit_unsigned_iff byte_masks
    by cases (simp_all add: bit_byte_high)
qed

lemma big_endian_load32_eq: "big_endian_load32 a b c d = little_endian_load32 d c b a"
proof (rule bit_word_eqI)
  fix n assume "n < LENGTH(32)"
  then consider "n < 8" | m where "n = 8 + m" "m < 8" | m where "n = 16 + m" "m < 8" | m where "n = 24 + m" "m < 8"
    by (cases "n < 8"; cases "n < 16"; cases "n < 24") (auto simp: not_less le_iff_add)
  then show "bit (big_endian_load32 a b c d) n = bit (little_endian_load32 d c b a) n"
    unfolding big_endian_load32_def gbswap_32_def little_endian_load32_def
    unfolding bit_or_iff bit_push_bit_iff bit_drop_bit_eq comp_def bit_and_iff bit_unsigned_iff byte_masks
    by cases (simp_all add: bit_byte_high)
qed

lemma unat_little_endian_load16: "unat (little_endian_load16 a b) = unat a + unat b * 256"
proof -
  have "unat (push_bit 8 (ucast b) :: u16) = unat b * 256"
    using byte_lt [of b] by (simp add: push_bit_eq_mult unat_word_ariths unat_ucast_up)
  then show ?thesis unfolding little_endian_load16_def
    using unat_or_disjoint [of "ucast a :: u16" 8 "push_bit 8 (ucast b)"] byte_lt [of a]
    by (simp add: unat_ucast_up or.commute)
qed

lemma unat_little_endian_load32:
  "unat (little_endian_load32 a b c d) = unat a + unat b * 256 + unat c * 65536 + unat d * 16777216"
proof -
  have p: "unat (push_bit 8 (ucast b) :: u32) = unat b * 256" "unat (push_bit 16 (ucast c) :: u32) = unat c * 65536"
    "unat (push_bit 24 (ucast d) :: u32) = unat d * 16777216"
    using byte_lt [of b] byte_lt [of c] byte_lt [of d]
    by (simp_all add: push_bit_eq_mult unat_word_ariths unat_ucast_up)
  let ?cd = "push_bit 16 (ucast c) OR push_bit 24 (ucast d) :: u32"
  let ?bcd = "push_bit 8 (ucast b) OR ?cd :: u32"
  have 1: "unat ?cd = unat c * 65536 + unat d * 16777216"
    using unat_or_disjoint [of "push_bit 16 (ucast c) :: u32" 24 "push_bit 24 (ucast d)"] byte_lt [of c]
    by (simp add: p or.commute)
  have 2: "unat ?bcd = unat b * 256 + (unat c * 65536 + unat d * 16777216)"
    using unat_or_disjoint [of "push_bit 8 (ucast b) :: u32" 16 ?cd] byte_lt [of b]
    by (simp add: p 1 or.commute)
  have "unat (ucast a OR ?bcd) = unat a + (unat b * 256 + (unat c * 65536 + unat d * 16777216))"
    using unat_or_disjoint [of "ucast a :: u32" 8 ?bcd] byte_lt [of a]
    by (simp add: 2 unat_ucast_up or.commute)
  then show ?thesis by (simp add: little_endian_load32_def)
qed

lemma little_endian_store_load: "little_endian_store32 (little_endian_load32 a b c d) = [a, b, c, d]"
proof -
  let ?v = "unat (little_endian_load32 a b c d)"
  have v: "?v = unat a + 256 * (unat b + 256 * (unat c + 256 * unat d))" by (simp add: unat_little_endian_load32)
  have p: "(y + 256 * x) div 256 = x" "(y + 256 * x) mod 256 = y" if "y < 256" for x y :: nat using that by simp_all
  have "?v mod 256 = unat a" "?v div 256 mod 256 = unat b" "?v div 256 div 256 mod 256 = unat c"
      "?v div 256 div 256 div 256 mod 256 = unat d"
    by (simp_all only: v p byte_lt mod_less)
  then show ?thesis
    by (simp add: little_endian_store32_def word_unat_eq_iff unat_ucast_mod unat_drop_bit div_mult2_eq [symmetric])
qed

lemma bytes_join:
  "w = q1 * 256 + r0 \<Longrightarrow> q1 = q2 * 256 + r1 \<Longrightarrow> q2 = q3 * 256 + r2 \<Longrightarrow>
     r0 + r1 * 256 + r2 * 65536 + q3 * 16777216 = (w :: nat)"
  by simp

lemma little_endian_load_store:
  "little_endian_load32 (ucast w) (ucast (drop_bit 8 w)) (ucast (drop_bit 16 w)) (ucast (drop_bit 24 w)) = w"
proof -
  have "w' mod 256 + w' div 256 mod 256 * 256 + w' div 65536 mod 256 * 65536 + w' div 16777216 * 16777216 = w'" for w' :: nat
  proof -
    have "w' div 65536 = w' div 256 div 256" "w' div 16777216 = w' div 256 div 256 div 256" by (simp_all add: div_mult2_eq [symmetric])
    then show ?thesis
      using bytes_join [OF div_mult_mod_eq [of w' 256, symmetric] div_mult_mod_eq [of "w' div 256" 256, symmetric]
          div_mult_mod_eq [of "w' div 256 div 256" 256, symmetric]] by simp
  qed
  moreover have "unat w div 16777216 < 256" using unat_u32_bound [of w] by simp
  ultimately show ?thesis
    by (simp add: word_unat_eq_iff unat_little_endian_load32 unat_ucast_mod unat_drop_bit)
qed

lemma store_gbswap: "little_endian_store32 (gbswap_32 w) = rev (little_endian_store32 w)"
proof -
  let ?b = "\<lambda>n. ucast (drop_bit n w) :: u8"
  have "gbswap_32 (little_endian_load32 (ucast w) (?b 8) (?b 16) (?b 24)) = little_endian_load32 (?b 24) (?b 16) (?b 8) (ucast w)"
    using big_endian_load32_eq by (simp only: big_endian_load32_def)
  then show ?thesis by (simp only: little_endian_load_store little_endian_store_load) (simp only: little_endian_store32_def rev.simps append.simps)
qed

lemma length_little_endian_store32 [simp]: "length (little_endian_store32 w) = 4"
  by (simp add: little_endian_store32_def)

end
