(* ===== verification/Base64.thy ===== *)
theory Base64
  imports C_Escape Endian
begin

text \<open>
  Base64 encoding and decoding (turbo/strings/internal/escaping.cc and turbo/strings/escaping.cc), in the
  standard and the web-safe alphabet. The pair of the source pointer and the number of bytes left is the list
  of those bytes; a read when none is left is a fault. The bytes written to the destination are the list
  \<open>b_out\<close>, and the index checks of the source against the size of the destination are part of the model.
\<close>

section \<open>Encoding\<close>

definition kBase64Chars :: "u8 list" where
  "kBase64Chars = map word_of_nat ([65..<91] @ [97..<123] @ [48..<58] @ [43, 47])"

definition kWebSafeBase64Chars :: "u8 list" where
  "kWebSafeBase64Chars = map word_of_nat ([65..<91] @ [97..<123] @ [48..<58] @ [45, 95])"

definition CalculateBase64EscapedLenInternal :: "nat \<Rightarrow> bool \<Rightarrow> fault + nat" where
  "CalculateBase64EscapedLenInternal input_len do_padding =
     (let kMaxSize = (size_max - 1) div 4 * 3 in
      if input_len > kMaxSize then Inl Fatal_check
      else let len = input_len div 3 * 4 in
        Inr (if input_len mod 3 = 0 then len
             else if input_len mod 3 = 1 then (if do_padding then len + 2 + 2 else len + 2)
             else (if do_padding then len + 3 + 1 else len + 3)))"

text \<open>Four characters for 24 bits.\<close>

definition base64_quad :: "u8 list \<Rightarrow> u32 \<Rightarrow> u8 list" where
  "base64_quad base64 i =
     (let c0 = base64 ! unat (drop_bit 18 i); i = i AND 0x3FFFF;
          c1 = base64 ! unat (drop_bit 12 i); i = i AND 0xFFF;
          c2 = base64 ! unat (drop_bit 6 i); i = i AND 0x3F;
          c3 = base64 ! unat i
      in [c0, c1, c2, c3])"

text \<open>The loop runs while more than three bytes remain, and reads four.\<close>

fun base64_escape_loop :: "u8 list \<Rightarrow> u8 list \<Rightarrow> u8 list \<times> u8 list" where
  "base64_escape_loop base64 (a # b # c # d # src) =
     (let i = drop_bit 8 (big_endian_load32 a b c d);
          (out, rest) = base64_escape_loop base64 (d # src)
      in (base64_quad base64 i @ out, rest))"
| "base64_escape_loop base64 src = ([], src)"

text \<open>The tail; \<open>None\<close> when the destination is too small.\<close>

definition base64_escape_tail :: "u8 list \<Rightarrow> bool \<Rightarrow> nat \<Rightarrow> u8 list \<Rightarrow> u8 list option" where
  "base64_escape_tail base64 do_padding szdest rest =
     (case rest of
        [] \<Rightarrow> Some []
      | [a] \<Rightarrow>
          if szdest < 2 then None
          else let i = (ucast a :: u32);
                   out = [base64 ! unat (drop_bit 2 i), base64 ! unat (push_bit 4 (i AND 0x3))]
               in if do_padding then if szdest - 2 < 2 then None else Some (out @ [61, 61]) else Some out
      | [a, b] \<Rightarrow>
          if szdest < 3 then None
          else let i = (ucast (big_endian_load16 a b) :: u32);
                   out = [base64 ! unat (drop_bit 10 i), base64 ! unat (drop_bit 4 (i AND 0x3FF)),
                          base64 ! unat (push_bit 2 ((i AND 0x3FF) AND 0x00F))]
               in if do_padding then if szdest - 3 < 1 then None else Some (out @ [61]) else Some out
      | a # b # c # _ \<Rightarrow>
          if szdest < 4 then None
          else Some (base64_quad base64 (push_bit 16 (ucast a) + ucast (big_endian_load16 b c))))"

text \<open>The characters written before the returned length; a returned length of zero is the empty list.\<close>

definition Base64EscapeInternal :: "u8 list \<Rightarrow> nat \<Rightarrow> u8 list \<Rightarrow> bool \<Rightarrow> u8 list" where
  "Base64EscapeInternal src szdest base64 do_padding =
     (if length src * 4 mod (size_max + 1) > szdest * 3 mod (size_max + 1) then []
      else let (out, rest) = base64_escape_loop base64 src in
        case base64_escape_tail base64 do_padding (szdest - length out) rest of
          None \<Rightarrow> []
        | Some t \<Rightarrow> out @ t)"

definition base64_escape_string :: "u8 list \<Rightarrow> bool \<Rightarrow> u8 list \<Rightarrow> fault + u8 list" where
  "base64_escape_string src do_padding base64_chars =
     bindE (CalculateBase64EscapedLenInternal (length src) do_padding) (\<lambda>calc_escaped_size.
       Inr (Base64EscapeInternal src calc_escaped_size base64_chars do_padding))"

definition base64_encode :: "u8 list \<Rightarrow> fault + u8 list" where
  "base64_encode src = base64_escape_string src True kBase64Chars"

definition web_safe_base64_encode :: "u8 list \<Rightarrow> fault + u8 list" where
  "web_safe_base64_encode src = base64_escape_string src False kWebSafeBase64Chars"

section \<open>Decoding\<close>

definition kUnBase64 :: "int list" where
  "kUnBase64 = [
    - 1, - 1, - 1, - 1, - 1, - 1, - 1, - 1, - 1, - 1, - 1, - 1, - 1, - 1, - 1, - 1,
    - 1, - 1, - 1, - 1, - 1, - 1, - 1, - 1, - 1, - 1, - 1, - 1, - 1, - 1, - 1, - 1,
    - 1, - 1, - 1, - 1, - 1, - 1, - 1, - 1, - 1, - 1, - 1, 62, - 1, - 1, - 1, 63,
    52, 53, 54, 55, 56, 57, 58, 59, 60, 61, - 1, - 1, - 1, - 1, - 1, - 1,
    - 1, 0, 1, 2, 3, 4, 5, 6, 7, 8, 9, 10, 11, 12, 13, 14,
    15, 16, 17, 18, 19, 20, 21, 22, 23, 24, 25, - 1, - 1, - 1, - 1, - 1,
    - 1, 26, 27, 28, 29, 30, 31, 32, 33, 34, 35, 36, 37, 38, 39, 40,
    41, 42, 43, 44, 45, 46, 47, 48, 49, 50, 51, - 1, - 1, - 1, - 1, - 1,
    - 1, - 1, - 1, - 1, - 1, - 1, - 1, - 1, - 1, - 1, - 1, - 1, - 1, - 1, - 1, - 1,
    - 1, - 1, - 1, - 1, - 1, - 1, - 1, - 1, - 1, - 1, - 1, - 1, - 1, - 1, - 1, - 1,
    - 1, - 1, - 1, - 1, - 1, - 1, - 1, - 1, - 1, - 1, - 1, - 1, - 1, - 1, - 1, - 1,
    - 1, - 1, - 1, - 1, - 1, - 1, - 1, - 1, - 1, - 1, - 1, - 1, - 1, - 1, - 1, - 1,
    - 1, - 1, - 1, - 1, - 1, - 1, - 1, - 1, - 1, - 1, - 1, - 1, - 1, - 1, - 1, - 1,
    - 1, - 1, - 1, - 1, - 1, - 1, - 1, - 1, - 1, - 1, - 1, - 1, - 1, - 1, - 1, - 1,
    - 1, - 1, - 1, - 1, - 1, - 1, - 1, - 1, - 1, - 1, - 1, - 1, - 1, - 1, - 1, - 1,
    - 1, - 1, - 1, - 1, - 1, - 1, - 1, - 1, - 1, - 1, - 1, - 1, - 1, - 1, - 1, - 1]"
definition kUnWebSafeBase64 :: "int list" where
  "kUnWebSafeBase64 = [
    - 1, - 1, - 1, - 1, - 1, - 1, - 1, - 1, - 1, - 1, - 1, - 1, - 1, - 1, - 1, - 1,
    - 1, - 1, - 1, - 1, - 1, - 1, - 1, - 1, - 1, - 1, - 1, - 1, - 1, - 1, - 1, - 1,
    - 1, - 1, - 1, - 1, - 1, - 1, - 1, - 1, - 1, - 1, - 1, - 1, - 1, 62, - 1, - 1,
    52, 53, 54, 55, 56, 57, 58, 59, 60, 61, - 1, - 1, - 1, - 1, - 1, - 1,
    - 1, 0, 1, 2, 3, 4, 5, 6, 7, 8, 9, 10, 11, 12, 13, 14,
    15, 16, 17, 18, 19, 20, 21, 22, 23, 24, 25, - 1, - 1, - 1, - 1, 63,
    - 1, 26, 27, 28, 29, 30, 31, 32, 33, 34, 35, 36, 37, 38, 39, 40,
    41, 42, 43, 44, 45, 46, 47, 48, 49, 50, 51, - 1, - 1, - 1, - 1, - 1,
    - 1, - 1, - 1, - 1, - 1, - 1, - 1, - 1, - 1, - 1, - 1, - 1, - 1, - 1, - 1, - 1,
    - 1, - 1, - 1, - 1, - 1, - 1, - 1, - 1, - 1, - 1, - 1, - 1, - 1, - 1, - 1, - 1,
    - 1, - 1, - 1, - 1, - 1, - 1, - 1, - 1, - 1, - 1, - 1, - 1, - 1, - 1, - 1, - 1,
    - 1, - 1, - 1, - 1, - 1, - 1, - 1, - 1, - 1, - 1, - 1, - 1, - 1, - 1, - 1, - 1,
    - 1, - 1, - 1, - 1, - 1, - 1, - 1, - 1, - 1, - 1, - 1, - 1, - 1, - 1, - 1, - 1,
    - 1, - 1, - 1, - 1, - 1, - 1, - 1, - 1, - 1, - 1, - 1, - 1, - 1, - 1, - 1, - 1,
    - 1, - 1, - 1, - 1, - 1, - 1, - 1, - 1, - 1, - 1, - 1, - 1, - 1, - 1, - 1, - 1,
    - 1, - 1, - 1, - 1, - 1, - 1, - 1, - 1, - 1, - 1, - 1, - 1, - 1, - 1, - 1, - 1]"
record b64_state =
  b_out :: "u8 list"
  b_idx :: nat
  b_temp :: u32
  b_state :: nat
  b_ch :: u8
  b_decode :: int
  b_src :: "u8 list"

text \<open>
  The macro \<open>GET_INPUT\<close>: the next character, its code, the characters left, and whether it is a data
  character. White space is skipped while at least \<open>remain\<close> characters are left.
\<close>

fun get_input :: "int list \<Rightarrow> nat \<Rightarrow> u8 list \<Rightarrow> (u8 \<times> int \<times> u8 list \<times> bool) option" where
  "get_input unbase64 remain [] = None"
| "get_input unbase64 remain (ch # src) =
     (let decode = unbase64 ! unat ch in
      if decode < 0
      then if ascii_isspace ch \<and> length src \<ge> remain then get_input unbase64 remain src
           else Some (ch, decode, src, False)
      else Some (ch, decode, src, True))"

definition b64_code :: "int \<Rightarrow> u32" where
  "b64_code decode = ucast (word_of_int decode :: u8)"

text \<open>
  The slow path over \<open>r\<close> more characters of a group: the number of characters read (4 when the group is
  complete), the accumulator, the last character and its code, and the characters left. Without a
  destination the accumulator is left alone.
\<close>

fun b64_slow :: "int list \<Rightarrow> bool \<Rightarrow> nat \<Rightarrow> u32 \<Rightarrow> u8 \<Rightarrow> int \<Rightarrow> u8 list \<Rightarrow> fault + (nat \<times> u32 \<times> u8 \<times> int \<times> u8 list)" where
  "b64_slow unbase64 dest 0 temp ch decode src = Inr (4, temp, ch, decode, src)"
| "b64_slow unbase64 dest (Suc r) temp ch decode src =
     (case get_input unbase64 (Suc r) src of
        None \<Rightarrow> Inl Out_of_range
      | Some (ch, decode, src, ok) \<Rightarrow>
          if ok
          then b64_slow unbase64 dest r
                 (if \<not> dest then temp else if r = 3 then b64_code decode else push_bit 6 temp OR b64_code decode)
                 ch decode src
          else Inr (3 - r, temp, ch, decode, src))"

lemma get_input_shorter: "get_input unb n s = Some (ch, dec, s', ok) \<Longrightarrow> length s' < length s"
  by (induction unb n s rule: get_input.induct) (auto simp: Let_def split: if_splits)

lemma b64_slow_shorter:
  "b64_slow unb dest r temp ch dec s = Inr (n, temp', ch', dec', s') \<Longrightarrow> 0 < r \<Longrightarrow> length s' < length s"
proof (induction unb dest r temp ch dec s rule: b64_slow.induct)
  case (2 unb dest r temp ch dec s)
  obtain c d t ok where g: "get_input unb (Suc r) s = Some (c, d, t, ok)"
    using "2.prems" by (cases "get_input unb (Suc r) s") auto
  note l = get_input_shorter [OF g]
  show ?case
  proof (cases "ok \<and> 0 < r")
    case True
    then show ?thesis using "2.IH" [OF g refl refl refl] "2.prems" g l by fastforce
  next
    case False
    then show ?thesis using "2.prems" g l by (cases r) (auto split: if_splits)
  qed
qed simp

text \<open>Three bytes from the low 24 bits of the accumulator, which is left shifted.\<close>

definition b64_write3 :: "bool \<Rightarrow> nat \<Rightarrow> b64_state \<Rightarrow> b64_state option" where
  "b64_write3 dest szdest st =
     (if \<not> dest then Some (st\<lparr>b_idx := b_idx st + 3\<rparr>)
      else if b_idx st + 3 > szdest then None
      else let t = b_temp st in
        Some (st\<lparr>b_out := b_out st @ [ucast (drop_bit 8 (drop_bit 8 t)), ucast (drop_bit 8 t), ucast t],
                 b_temp := drop_bit 8 (drop_bit 8 t), b_idx := b_idx st + 3\<rparr>))"

definition b64_fast :: "int list \<Rightarrow> u8 list \<Rightarrow> u32" where
  "b64_fast unbase64 src =
     (push_bit 18 (word_of_int (unbase64 ! unat (src ! 0))) OR push_bit 12 (word_of_int (unbase64 ! unat (src ! 1)))
      OR push_bit 6 (word_of_int (unbase64 ! unat (src ! 2))) OR word_of_int (unbase64 ! unat (src ! 3)))"

function b64_loop :: "int list \<Rightarrow> bool \<Rightarrow> nat \<Rightarrow> b64_state \<Rightarrow> fault + b64_state option" where
  "b64_loop unbase64 dest szdest st =
     (let src = b_src st in
      if length src < 4 then Inr (Some st)
      else
        let nul = src ! 0 = 0 \<or> src ! 1 = 0 \<or> src ! 2 = 0;
            temp = (if nul then b_temp st else b64_fast unbase64 src)
        in if nul \<or> temp AND 0x80000000 \<noteq> 0
           then (case b64_slow unbase64 dest 4 temp (b_ch st) (b_decode st) src of
                   Inl e \<Rightarrow> Inl e
                 | Inr (n, temp, ch, decode, src) \<Rightarrow>
                     let st = st\<lparr>b_temp := temp, b_ch := ch, b_decode := decode, b_src := src\<rparr> in
                     if n \<noteq> 4 then Inr (Some (st\<lparr>b_state := n\<rparr>))
                     else (case b64_write3 dest szdest st of None \<Rightarrow> Inr None
                           | Some st \<Rightarrow> b64_loop unbase64 dest szdest st))
           else (case b64_write3 dest szdest (st\<lparr>b_temp := temp, b_src := drop 4 src\<rparr>) of None \<Rightarrow> Inr None
                 | Some st \<Rightarrow> b64_loop unbase64 dest szdest st))"
  by pat_completeness auto
termination
proof (relation "measure (\<lambda>(unb, dest, n, st). length (b_src st))", goal_cases)
  case (2 unb dest szdest st src nul temp x2 n y temp' y' ch y'' decode src' st' st'')
  then have "length src' < length src" using b64_slow_shorter by (metis zero_less_numeral)
  then show ?case using 2 by (auto simp: b64_write3_def Let_def split: if_splits)
next
  case (3 unb dest szdest st src nul temp st')
  then show ?case by (auto simp: b64_write3_def Let_def split: if_splits)
qed simp

declare b64_loop.simps [simp del]

definition is_pad64 :: "u8 \<Rightarrow> bool" where
  "is_pad64 ch \<longleftrightarrow> ch = 61 \<or> ch = 46"

text \<open>The loop over the characters left, one at a time.\<close>

fun b64_tail :: "int list \<Rightarrow> bool \<Rightarrow> nat \<Rightarrow> b64_state \<Rightarrow> u8 list \<Rightarrow> b64_state option" where
  "b64_tail unbase64 dest szdest st [] = Some (st\<lparr>b_src := []\<rparr>)"
| "b64_tail unbase64 dest szdest st (ch # src) =
     (let decode = unbase64 ! unat ch in
      if decode < 0
      then if ascii_isspace ch then b64_tail unbase64 dest szdest st src
           else if is_pad64 ch then Some (st\<lparr>b_src := ch # src\<rparr>)
           else None
      else
        let st = st\<lparr>b_temp := push_bit 6 (b_temp st) OR b64_code decode, b_state := b_state st + 1\<rparr> in
        if b_state st = 4
        then (case b64_write3 dest szdest st of None \<Rightarrow> None
              | Some st \<Rightarrow> b64_tail unbase64 dest szdest (st\<lparr>b_state := 0, b_temp := 0\<rparr>) src)
        else b64_tail unbase64 dest szdest st src)"

text \<open>The bytes left in the accumulator, with the number of padding characters expected.\<close>

definition b64_finish :: "bool \<Rightarrow> nat \<Rightarrow> b64_state \<Rightarrow> fault + (b64_state \<times> nat) option" where
  "b64_finish dest szdest st =
     (if b_state st = 0 then Inr (Some (st, 0))
      else if b_state st = 1 then Inr None
      else if b_state st = 2 then
        (if dest \<and> b_idx st + 1 > szdest then Inr None
         else let t = drop_bit 4 (b_temp st) in
           Inr (Some (st\<lparr>b_out := (if dest then b_out st @ [ucast t] else b_out st), b_idx := b_idx st + 1\<rparr>, 2)))
      else if b_state st = 3 then
        (if dest \<and> b_idx st + 2 > szdest then Inr None
         else let t = drop_bit 2 (b_temp st) in
           Inr (Some (st\<lparr>b_out := (if dest then b_out st @ [ucast (drop_bit 8 t), ucast t] else b_out st),
                         b_idx := b_idx st + 2\<rparr>, 1)))
      else Inl Fatal_check)"

fun b64_equals :: "nat \<Rightarrow> u8 list \<Rightarrow> nat option" where
  "b64_equals n [] = Some n"
| "b64_equals n (ch # src) =
     (if is_pad64 ch then b64_equals (n + 1) src else if ascii_isspace ch then b64_equals n src else None)"

definition b64_init :: "u8 list \<Rightarrow> b64_state" where
  "b64_init src = \<lparr>b_out = [], b_idx = 0, b_temp = 0, b_state = 0, b_ch = 0, b_decode = 0, b_src = src\<rparr>"

text \<open>What follows the fast loop: the state before the last group is written.\<close>

definition b64_after_loop :: "int list \<Rightarrow> bool \<Rightarrow> nat \<Rightarrow> b64_state \<Rightarrow> b64_state option" where
  "b64_after_loop unbase64 dest szdest st =
     (if b_decode st < 0 \<and> \<not> is_pad64 (b_ch st) \<and> \<not> ascii_isspace (b_ch st) then None
      else if is_pad64 (b_ch st) then Some (st\<lparr>b_src := b_ch st # b_src st\<rparr>)
      else b64_tail unbase64 dest szdest st (b_src st))"

text \<open>From the end of the fast loop to the return: the written bytes and their number, or \<open>None\<close>.\<close>

definition b64_last :: "int list \<Rightarrow> bool \<Rightarrow> nat \<Rightarrow> b64_state option \<Rightarrow> fault + (u8 list \<times> nat) option" where
  "b64_last unbase64 dest szdest r =
     (case Option.bind r (b64_after_loop unbase64 dest szdest) of None \<Rightarrow> Inr None
      | Some st \<Rightarrow>
        bindE (b64_finish dest szdest st) (\<lambda>r.
          case r of None \<Rightarrow> Inr None
          | Some (st, expected_equals) \<Rightarrow>
            (case b64_equals 0 (b_src st) of None \<Rightarrow> Inr None
             | Some equals \<Rightarrow>
               if equals = 0 \<or> equals = expected_equals then Inr (Some (b_out st, b_idx st)) else Inr None)))"

definition Base64UnescapeInternal :: "u8 list \<Rightarrow> bool \<Rightarrow> nat \<Rightarrow> int list \<Rightarrow> fault + (u8 list \<times> nat) option" where
  "Base64UnescapeInternal src dest szdest unbase64 =
     bindE (b64_loop unbase64 dest szdest (b64_init src)) (b64_last unbase64 dest szdest)"

definition base64_unescape_string :: "u8 list \<Rightarrow> int list \<Rightarrow> fault + u8 list option" where
  "base64_unescape_string src unbase64 =
     (let dest_len = 3 * (length src div 4) + length src mod 4 in
      bindE (Base64UnescapeInternal src True dest_len unbase64) (\<lambda>r.
        case r of None \<Rightarrow> Inr None | Some (out, len) \<Rightarrow> Inr (Some (take len out))))"

definition base64_decode :: "u8 list \<Rightarrow> fault + u8 list option" where
  "base64_decode src = base64_unescape_string src kUnBase64"

definition web_safe_base64_decode :: "u8 list \<Rightarrow> fault + u8 list option" where
  "web_safe_base64_decode src = base64_unescape_string src kUnWebSafeBase64"

end
