(* ===== verification/Base64_Laws.thy ===== *)
theory Base64_Laws
  imports Base64
begin

text \<open>Base64: the encoder against a reference, the round trip in both alphabets, and the memory safety of the decoder.\<close>

section \<open>Groups of 24 bits\<close>

definition triple :: "u8 \<Rightarrow> u8 \<Rightarrow> u8 \<Rightarrow> nat" where
  "triple a b c = (unat a * 256 + unat b) * 256 + unat c"

definition quad_digits :: "nat \<Rightarrow> nat list" where
  "quad_digits n = [n div 262144, n div 4096 mod 64, n div 64 mod 64, n mod 64]"

lemma triple_less: "triple a b c < 16777216"
  using byte_lt [of a] byte_lt [of b] byte_lt [of c] by (simp add: triple_def)

lemma triple_parts:
  "triple a b c div 256 div 256 = unat a" "triple a b c div 256 mod 256 = unat b" "triple a b c mod 256 = unat c"
proof -
  have p: "(x * 256 + y) div 256 = x" "(x * 256 + y) mod 256 = y" if "y < 256" for x y :: nat using that by simp_all
  have "triple a b c div 256 = unat a * 256 + unat b" unfolding triple_def by (rule p [OF byte_lt])
  then show "triple a b c div 256 div 256 = unat a" "triple a b c div 256 mod 256 = unat b" by (simp_all only: p byte_lt)
  show "triple a b c mod 256 = unat c" unfolding triple_def by (rule p [OF byte_lt])
qed

lemma quad_digits_less: "n < 16777216 \<Longrightarrow> \<forall>i \<in> set (quad_digits n). i < 64"
  by (auto simp: quad_digits_def)

lemma quad_digits_value:
  "n < 16777216 \<Longrightarrow> n div 262144 * 262144 + n div 4096 mod 64 * 4096 + n div 64 mod 64 * 64 + n mod 64 = (n :: nat)"
proof -
  have "n div 64 * 64 + n mod 64 = n" "n div 64 div 64 * 64 + n div 64 mod 64 = n div 64"
    "n div 4096 div 64 * 64 + n div 4096 mod 64 = n div 4096" by simp_all
  moreover have "n div 64 div 64 = n div 4096" "n div 4096 div 64 = n div 262144" by (simp_all add: div_mult2_eq [symmetric])
  ultimately show ?thesis by linarith
qed

lemma mod_div_shift: "0 < b \<Longrightarrow> n mod (b * c) div b = n div b mod (c :: nat)"
  by (simp add: mod_mult2_eq)

lemma base64_quad_digits:
  assumes "unat i < 16777216"
  shows "base64_quad chars i = map (\<lambda>k. chars ! k) (quad_digits (unat i))"
proof -
  have "unat i mod 262144 div 4096 = unat i div 4096 mod 64" "unat i mod 4096 div 64 = unat i div 64 mod 64"
    using mod_div_shift [of 4096 "unat i" 64] mod_div_shift [of 64 "unat i" 64] by simp_all
  moreover have "unat i mod 262144 mod 4096 = unat i mod 4096" "unat i mod 4096 mod 64 = unat i mod 64"
    by (simp_all add: mod_mod_cancel)
  ultimately show ?thesis
    by (simp add: base64_quad_def Let_def quad_digits_def unat_drop_bit unat_and_mask)
qed

lemma unat_load32: "unat (big_endian_load32 a b c d) = triple a b c * 256 + unat d"
  by (simp add: big_endian_load32_eq unat_little_endian_load32 triple_def)

lemma unat_load16: "unat (big_endian_load16 b c) = unat b * 256 + unat c"
  by (simp add: big_endian_load16_eq unat_little_endian_load16)

lemma unat_loop_bits: "unat (drop_bit 8 (big_endian_load32 a b c d)) = triple a b c"
  using byte_lt [of d] by (simp add: unat_drop_bit unat_load32)

lemma unat_tail_bits: "unat (push_bit 16 (ucast a) + ucast (big_endian_load16 b c) :: u32) = triple a b c"
proof -
  have "unat a * 65536 + (unat b * 256 + unat c) < 4294967296" using byte_lt [of a] byte_lt [of b] byte_lt [of c] by simp
  then show ?thesis
    by (simp add: push_bit_eq_mult unat_word_ariths unat_ucast_up unat_load16 triple_def)
qed

section \<open>The encoder\<close>

fun base64_reference :: "u8 list \<Rightarrow> bool \<Rightarrow> u8 list \<Rightarrow> u8 list" where
  "base64_reference chars do_padding (a # b # c # s) =
     map (\<lambda>k. chars ! k) (quad_digits (triple a b c)) @ base64_reference chars do_padding s"
| "base64_reference chars do_padding [a, b] =
     (let n = unat a * 256 + unat b in
      [chars ! (n div 1024), chars ! (n div 16 mod 64), chars ! (n mod 16 * 4)] @ (if do_padding then [61] else []))"
| "base64_reference chars do_padding [a] =
     [chars ! (unat a div 4), chars ! (unat a mod 4 * 16)] @ (if do_padding then [61, 61] else [])"
| "base64_reference chars do_padding [] = []"

lemma triple_induct [case_names triple two one none]:
  assumes "\<And>a b c s. P s \<Longrightarrow> P (a # b # c # s)" "\<And>a b. P [a, b]" "\<And>a. P [a]" "P []"
  shows "P (s :: u8 list)"
  by (rule base64_reference.induct [of "\<lambda>_ _ s. P s"]) (simp_all add: assms)

lemma escape_loop_reference:
  "base64_escape_loop chars src = (out, rest) \<Longrightarrow>
     length rest \<le> 3 \<and> base64_reference chars pad src = out @ base64_reference chars pad rest"
proof (induction chars src arbitrary: out rest rule: base64_escape_loop.induct)
  case (1 chars a b c d src)
  obtain o' r' where r: "base64_escape_loop chars (d # src) = (o', r')" by fastforce
  show ?case using "1.IH" [OF refl r] "1.prems" r
    by (auto simp: Let_def base64_quad_digits unat_loop_bits triple_less)
qed auto

lemma unat_push_small: "unat x * 2 ^ n < 4294967296 \<Longrightarrow> unat (push_bit n (x :: u32)) = unat x * 2 ^ n"
  by (simp only: unsigned_push_bit_eq) (simp add: push_bit_eq_mult take_bit_nat_eq_self)

lemma escape_tail_reference:
  assumes "length rest \<le> 3" "length (base64_reference chars pad rest) \<le> szdest"
  shows "base64_escape_tail chars pad szdest rest = Some (base64_reference chars pad rest)"
proof -
  consider "rest = []" | a where "rest = [a]" | a b where "rest = [a, b]" | a b c where "rest = [a, b, c]"
    using assms(1) by (cases rest; cases "tl rest"; cases "tl (tl rest)") auto
  then show ?thesis
  proof cases
    case (2 a)
    have "unat (push_bit 4 ((ucast a :: u32) AND 0x3)) = unat a mod 4 * 16"
      using unat_push_small [of "(ucast a :: u32) AND 0x3" 4] by (simp add: unat_and_mask unat_ucast_up)
    then show ?thesis using 2 assms(2)
      by (auto simp: base64_escape_tail_def Let_def unat_drop_bit unat_ucast_up)
  next
    case (3 a b)
    let ?n = "unat a * 256 + unat b"
    have i: "unat (ucast (big_endian_load16 a b) :: u32) = ?n" by (simp add: unat_ucast_up unat_load16)
    have "?n mod 1024 mod 16 = ?n mod 16" "?n mod 1024 div 16 = ?n div 16 mod 64"
      using mod_div_shift [of 16 ?n 64] by (simp_all add: mod_mod_cancel)
    moreover have "unat (push_bit 2 (((ucast (big_endian_load16 a b) :: u32) AND 0x3FF) AND 0xF)) = ?n mod 1024 mod 16 * 4"
      using unat_push_small [of "((ucast (big_endian_load16 a b) :: u32) AND 0x3FF) AND 0xF" 2] by (simp only: unat_and_mask i) simp
    ultimately show ?thesis using 3 assms(2) i
      by (auto simp: base64_escape_tail_def Let_def unat_drop_bit unat_and_mask)
  next
    case (4 a b c)
    then show ?thesis using assms(2)
      by (simp add: base64_escape_tail_def base64_quad_digits unat_tail_bits triple_less quad_digits_def)
  qed (simp add: base64_escape_tail_def)
qed

lemma length_base64_reference:
  "length (base64_reference chars pad s) = length s div 3 * 4 +
    (if length s mod 3 = 0 then 0 else if pad then 4 else length s mod 3 + 1)"
proof (induction chars pad s rule: base64_reference.induct)
  case (1 chars do_padding a b c s)
  have "Suc (Suc (Suc (length s))) div 3 = length s div 3 + 1" "Suc (Suc (Suc (length s))) mod 3 = length s mod 3"
    by presburger+
  then show ?case using 1 by (simp add: quad_digits_def)
qed (auto simp: Let_def)

lemma CalculateBase64_eq:
  "CalculateBase64EscapedLenInternal (length s) pad =
    (if length s > (size_max - 1) div 4 * 3 then Inl Fatal_check else Inr (length (base64_reference chars pad s)))"
proof -
  have "length s mod 3 \<noteq> 0 \<Longrightarrow> length s mod 3 \<noteq> 1 \<Longrightarrow> length s mod 3 = 2" by linarith
  then show ?thesis unfolding CalculateBase64EscapedLenInternal_def Let_def length_base64_reference by auto
qed

lemma length_reference_bounds:
  "length s * 4 \<le> length (base64_reference chars pad s) * 3"
  "length (base64_reference chars pad s) * 3 \<le> length s * 4 + 8"
proof -
  define q r where qr: "q = length s div 3" "r = length s mod 3"
  have "length s = q * 3 + r" "r < 3" by (simp_all add: qr)
  then show "length s * 4 \<le> length (base64_reference chars pad s) * 3"
      "length (base64_reference chars pad s) * 3 \<le> length s * 4 + 8"
    unfolding length_base64_reference qr [symmetric] by simp_all
qed

text \<open>Inputs for which the products of the size test of the encoder do not wrap.\<close>

abbreviation base64_size_ok :: "u8 list \<Rightarrow> bool" where
  "base64_size_ok s \<equiv> length s * 4 + 8 \<le> size_max"

lemma Base64EscapeInternal_eq:
  assumes "base64_size_ok s"
  shows "Base64EscapeInternal s (length (base64_reference chars pad s)) chars pad = base64_reference chars pad s"
proof -
  obtain out rest where o: "base64_escape_loop chars s = (out, rest)" by fastforce
  note r = escape_loop_reference [OF o, of pad]
  have "length s * 4 mod (size_max + 1) \<le> length (base64_reference chars pad s) * 3 mod (size_max + 1)"
    using length_reference_bounds [where s = s and chars = chars and pad = pad] assms by simp
  moreover have "base64_escape_tail chars pad (length (base64_reference chars pad s) - length out) rest
      = Some (base64_reference chars pad rest)"
    using r by (intro escape_tail_reference) auto
  ultimately show ?thesis using r o by (simp add: Base64EscapeInternal_def)
qed

lemma base64_escape_string_eq:
  "base64_size_ok s \<Longrightarrow> base64_escape_string s pad chars = Inr (base64_reference chars pad s)"
  by (simp add: base64_escape_string_def CalculateBase64_eq [of s pad chars] Base64EscapeInternal_eq size_max_def)

section \<open>The decoder on encoded text\<close>

text \<open>What the decoder relies on: its table inverts the alphabet and marks the padding characters.\<close>

locale base64_alphabet =
  fixes chars :: "u8 list" and unb :: "int list"
  assumes unb_chars: "k < 64 \<Longrightarrow> unb ! unat (chars ! k) = int k"
    and chars_nonzero: "k < 64 \<Longrightarrow> chars ! k \<noteq> 0"
    and chars_no_space: "k < 64 \<Longrightarrow> \<not> ascii_isspace (chars ! k)"
    and chars_no_pad: "k < 64 \<Longrightarrow> \<not> is_pad64 (chars ! k)"
    and unb_pad: "unb ! 61 = - 1"
begin

lemma b64_code_chars: "k < 64 \<Longrightarrow> unat (b64_code (unb ! unat (chars ! k))) = k"
  by (simp add: b64_code_def unb_chars unat_ucast_up unat_of_nat)

lemma b64_fast_digits:
  assumes "k0 < 64" "k1 < 64" "k2 < 64" "k3 < 64"
  shows "unat (b64_fast unb (chars ! k0 # chars ! k1 # chars ! k2 # chars ! k3 # src))
     = k0 * 262144 + k1 * 4096 + k2 * 64 + k3"
proof -
  have u: "k < 64 \<Longrightarrow> n \<le> 18 \<Longrightarrow> unat (push_bit n (word_of_nat k :: u32)) = k * 2 ^ n" for k n
  proof -
    assume "k < 64" "n \<le> 18"
    moreover have "(2::nat) ^ n \<le> 2 ^ 18" using \<open>n \<le> 18\<close> by (intro power_increasing) simp_all
    ultimately have "k * 2 ^ n < 64 * 2 ^ 18" by (intro mult_less_le_imp_less) simp_all
    then show ?thesis using unat_push_small [of "word_of_nat k" n] \<open>k < 64\<close> by (simp add: unat_of_nat)
  qed
  have v: "k < 64 \<Longrightarrow> unat (word_of_nat k :: u32) = k" for k by (simp add: unat_of_nat)
  note us = u [of k0 18] u [of k1 12] u [of k2 6] v [of k3]
  let ?a = "push_bit 18 (word_of_nat k0 :: u32)" and ?b = "push_bit 12 (word_of_nat k1 :: u32)"
    and ?c = "push_bit 6 (word_of_nat k2 :: u32)" and ?d = "word_of_nat k3 :: u32"
  have 1: "unat (?c OR ?d) = k2 * 64 + k3"
    using unat_or_disjoint [of ?d 6 ?c] us assms by simp
  have 2: "unat (?b OR (?c OR ?d)) = k1 * 4096 + (k2 * 64 + k3)"
    using unat_or_disjoint [of "?c OR ?d" 12 ?b] 1 us assms by simp
  have "unat (?a OR (?b OR (?c OR ?d))) = k0 * 262144 + (k1 * 4096 + (k2 * 64 + k3))"
    using unat_or_disjoint [of "?b OR (?c OR ?d)" 18 ?a] 2 us assms by simp
  then show ?thesis using assms by (simp add: b64_fast_def unb_chars)
qed

lemma b64_push_code:
  assumes "k < 64" "unat t < 67108864"
  shows "unat (push_bit 6 t OR b64_code (unb ! unat (chars ! k))) = unat t * 64 + k"
proof -
  have "unat (push_bit 6 t) = unat t * 64" using unat_push_small [of t 6] assms(2) by simp
  then show ?thesis
    using unat_or_disjoint [of "b64_code (unb ! unat (chars ! k))" 6 "push_bit 6 t"] assms(1)
    by (simp add: b64_code_chars)
qed

lemma no_high_bit: "unat (t :: u32) < 16777216 \<Longrightarrow> t AND 0x80000000 = 0"
proof -
  assume "unat t < 16777216"
  then have "\<not> bit (unat t) 31" by (simp add: bit_iff_odd)
  then have "\<not> bit t 31" by (simp add: bit_unsigned_iff)
  then show ?thesis using and_exp_eq_0_iff_not_bit [of t 31] by simp
qed

lemma loop_quad:
  assumes src: "b_src st = map (\<lambda>k. chars ! k) (quad_digits (triple a b c)) @ rest" and sz: "b_idx st + 3 \<le> szdest"
  shows "b64_loop unb True szdest st = b64_loop unb True szdest
    (st\<lparr>b_src := rest, b_out := b_out st @ [a, b, c], b_temp := ucast a, b_idx := b_idx st + 3\<rparr>)"
proof -
  let ?n = "triple a b c"
  let ?t = "b64_fast unb (b_src st)"
  note lt = triple_less [of a b c]
  have d: "?n div 262144 < 64" "?n div 4096 mod 64 < 64" "?n div 64 mod 64 < 64" "?n mod 64 < 64" using lt by simp_all
  have t: "unat ?t = ?n"
    using b64_fast_digits [OF d, of rest] quad_digits_value [OF lt] by (simp add: src quad_digits_def)
  then have h: "?t AND 0x80000000 = 0" using lt by (simp add: no_high_bit)
  have w: "ucast (drop_bit 8 (drop_bit 8 ?t)) = a" "ucast (drop_bit 8 ?t) = b" "ucast ?t = c"
    "drop_bit 8 (drop_bit 8 ?t) = ucast a"
    using byte_lt [of a]
    by (simp_all add: word_unat_eq_iff unat_ucast_mod unat_drop_bit t triple_parts del: drop_bit_drop_bit div_mult2_eq)
  have l: "4 \<le> length (b_src st)" and nz: "b_src st ! 0 \<noteq> 0" "b_src st ! 1 \<noteq> 0" "b_src st ! 2 \<noteq> 0" and dr: "drop 4 (b_src st) = rest"
    using chars_nonzero d by (simp_all add: src quad_digits_def)
  show ?thesis
    by (subst b64_loop.simps)
      (use l nz dr h sz w in \<open>simp add: Let_def b64_write3_def del: drop_bit_drop_bit\<close>)
qed

lemma join_digits: "q * b + r = n \<Longrightarrow> (t + q) * (b * c) + r * c = (t * b + n) * (c :: nat)"
  by (auto simp: algebra_simps)

lemma tail_one:
  assumes "unat t < 256"
  shows "(ucast (drop_bit 4 (push_bit 6 (push_bit 6 t OR b64_code (unb ! unat (chars ! (unat a div 4))))
      OR b64_code (unb ! unat (chars ! (unat a mod 4 * 16))))) :: u8) = a"
proof -
  let ?f = "\<lambda>t k. push_bit 6 t OR b64_code (unb ! unat (chars ! k))"
  have k: "unat a div 4 < 64" "unat a mod 4 * 16 < 64" using byte_lt [of a] by auto
  have "((unat t * 64 + unat a div 4) * 64 + unat a mod 4 * 16) div 16 mod 256 = unat a"
  proof -
    have "(unat t * 64 + unat a div 4) * 64 + unat a mod 4 * 16 = (unat t * 256 + unat a) * 16"
      using join_digits [of "unat a div 4" 4 "unat a mod 4" "unat a" "unat t * 64" 16] by simp
    then show ?thesis using byte_lt [of a] by (simp only:) simp
  qed
  moreover have "unat (?f (?f t (unat a div 4)) (unat a mod 4 * 16)) = (unat t * 64 + unat a div 4) * 64 + unat a mod 4 * 16"
    using assms k b64_push_code [OF k(1), of t] by (subst b64_push_code) simp_all
  ultimately show ?thesis by (simp only: word_unat_eq_iff unat_ucast_mod unat_drop_bit) simp
qed

lemma tail_two:
  assumes "unat t < 256" and n: "n = unat a * 256 + unat b"
  shows "let t3 = drop_bit 2 (push_bit 6 (push_bit 6 (push_bit 6 t OR b64_code (unb ! unat (chars ! (n div 1024))))
      OR b64_code (unb ! unat (chars ! (n div 16 mod 64)))) OR b64_code (unb ! unat (chars ! (n mod 16 * 4))))
    in (ucast (drop_bit 8 t3) :: u8) = a \<and> (ucast t3 :: u8) = b"
proof -
  let ?f = "\<lambda>t k. push_bit 6 t OR b64_code (unb ! unat (chars ! k))"
  have "n < 65536" using n byte_lt [of a] byte_lt [of b] by simp
  then have k: "n div 1024 < 64" "n div 16 mod 64 < 64" "n mod 16 * 4 < 64" by auto
  have "((unat t * 64 + n div 1024) * 64 + n div 16 mod 64) * 64 + n mod 16 * 4 = (unat t * 65536 + n) * 4"
  proof -
    have "n div 16 div 64 = n div 1024" by (simp add: div_mult2_eq [symmetric])
    then have "n div 1024 * 64 + n div 16 mod 64 = n div 16" using div_mult_mod_eq [of "n div 16" 64] by simp
    then have "(unat t * 64 + n div 1024) * 64 + n div 16 mod 64 = unat t * 4096 + n div 16" by simp
    then show ?thesis using join_digits [of "n div 16" 16 "n mod 16" n "unat t * 4096" 4] by simp
  qed
  moreover have "(unat t * 65536 + n) div 256 mod 256 = unat a" "(unat t * 65536 + n) mod 256 = unat b"
    using triple_parts(2,3) [of "ucast t" a b] assms by (simp_all add: triple_def n unat_ucast_mod algebra_simps)
  moreover have "unat (?f (?f (?f t (n div 1024)) (n div 16 mod 64)) (n mod 16 * 4))
      = ((unat t * 64 + n div 1024) * 64 + n div 16 mod 64) * 64 + n mod 16 * 4"
  proof -
    have 1: "unat (?f t (n div 1024)) = unat t * 64 + n div 1024" using assms(1) k by (intro b64_push_code) simp_all
    have 2: "unat (?f (?f t (n div 1024)) (n div 16 mod 64)) = (unat t * 64 + n div 1024) * 64 + n div 16 mod 64"
      using assms(1) k 1 by (subst b64_push_code) simp_all
    have "(u * 64 + x) * 64 + y < 67108864" if "u < 256" "x < 64" "y < 64" for u x y :: nat using that by simp
    from this [OF assms(1) k(1,2)] have "(unat t * 64 + n div 1024) * 64 + n div 16 mod 64 < 67108864" .
    then show ?thesis unfolding 2 [symmetric] by (rule b64_push_code [OF k(3)])
  qed
  ultimately show ?thesis
    by (simp only: Let_def word_unat_eq_iff unat_ucast_mod unat_drop_bit) (simp add: mult.commute)
qed

lemma b64_slow_4: "b64_slow u d 4 t c e s = b64_slow u d (Suc (Suc (Suc (Suc 0)))) t c e s"
  by (rule arg_cong [where f = "\<lambda>n. b64_slow u d n t c e s"]) simp

lemma loop_padded:
  assumes src: "b_src st = chars ! k0 # chars ! k1 # y # [61]" and k: "k0 < 64" "k1 < 64"
    and y: "y = 61 \<or> (\<exists>k2 < 64. y = chars ! k2)"
  shows "b64_loop unb True szdest st = Inr (Some (st\<lparr>
    b_temp := (let t = push_bit 6 (b64_code (unb ! unat (chars ! k0))) OR b64_code (unb ! unat (chars ! k1)) in
      if y = 61 then t else push_bit 6 t OR b64_code (unb ! unat y)),
    b_ch := 61, b_decode := - 1, b_src := (if y = 61 then [61] else []), b_state := (if y = 61 then 2 else 3)\<rparr>))"
proof -
  have "bit (b64_fast unb (b_src st)) 31" using unb_pad by (simp add: src b64_fast_def bit_or_iff)
  then have h: "b64_fast unb (b_src st) AND 0x80000000 \<noteq> 0"
    using and_exp_eq_0_iff_not_bit [of "b64_fast unb (b_src st)" 31] by simp
  have sp: "\<not> ascii_isspace 61" by code_simp
  have nz: "chars ! k0 \<noteq> 0" "chars ! k1 \<noteq> 0" "y \<noteq> 0" using k y chars_nonzero by auto
  have y61: "k2 < 64 \<Longrightarrow> chars ! k2 \<noteq> 61" for k2 using chars_no_pad [of k2] by (auto simp: is_pad64_def)
  from y show ?thesis
  proof
    assume "y = 61"
    then show ?thesis
      by (subst b64_loop.simps)
        (use src h nz k unb_pad unb_chars sp in \<open>simp add: Let_def b64_slow_4\<close>)
  next
    assume "\<exists>k2 < 64. y = chars ! k2"
    then obtain k2 where k2: "k2 < 64" "y = chars ! k2" by blast
    then show ?thesis
      by (subst b64_loop.simps)
        (use src h nz k unb_pad unb_chars sp y61 in \<open>simp add: Let_def b64_slow_4\<close>)
  qed
qed

lemma loop_short: "length (b_src st) < 4 \<Longrightarrow> b64_loop unb dest szdest st = Inr (Some st)"
  by (subst b64_loop.simps) simp

lemma b64_finish_two:
  assumes "b_state st = 3" "b_idx st + 2 \<le> szdest" "let t = drop_bit 2 (b_temp st) in ucast (drop_bit 8 t) = a \<and> ucast t = b"
  shows "b64_finish True szdest st = Inr (Some (st\<lparr>b_out := b_out st @ [a, b], b_idx := b_idx st + 2\<rparr>, 1))"
  using assms by (simp add: b64_finish_def Let_def del: drop_bit_drop_bit)

lemma b64_finish_one:
  assumes "b_state st = 2" "b_idx st + 1 \<le> szdest" "ucast (drop_bit 4 (b_temp st)) = a"
  shows "b64_finish True szdest st = Inr (Some (st\<lparr>b_out := b_out st @ [a], b_idx := b_idx st + 1\<rparr>, 2))"
  using assms by (simp add: b64_finish_def Let_def)

lemma last_finish:
  assumes "b64_after_loop unb True szdest st = Some st'" "b64_finish True szdest st' = Inr (Some (st'', n))"
    and "b_src st'' = [] \<or> b_src st'' = replicate n 61"
  shows "b64_last unb True szdest (Some st) = Inr (Some (b_out st'', b_idx st''))"
proof -
  have "b64_equals m (replicate n 61) = Some (m + n)" for m n by (induction n arbitrary: m) (simp_all add: is_pad64_def)
  then show ?thesis using assms by (auto simp: b64_last_def)
qed

lemma after_loop_pad: "b_ch st = 61 \<Longrightarrow> b64_after_loop unb True szdest st = Some (st\<lparr>b_src := 61 # b_src st\<rparr>)"
  by (simp add: b64_after_loop_def is_pad64_def)

lemma after_loop_tail:
  "b_ch st = 0 \<Longrightarrow> b_decode st = 0 \<Longrightarrow> b64_after_loop unb True szdest st = b64_tail unb True szdest st (b_src st)"
  by (simp add: b64_after_loop_def is_pad64_def)

lemma b64_tail_digit:
  assumes "k < 64" "b_state st < 3"
  shows "b64_tail unb True szdest st (chars ! k # src) = b64_tail unb True szdest
    (st\<lparr>b_temp := push_bit 6 (b_temp st) OR b64_code (unb ! unat (chars ! k)), b_state := b_state st + 1\<rparr>) src"
  using assms by (simp add: Let_def unb_chars)

lemma decode_two:
  assumes src: "b_src st = base64_reference chars pad [a, b]" and "b_idx st + 2 \<le> szdest"
    and "b_state st = 0" "b_ch st = 0" "b_decode st = 0" "unat (b_temp st) < 256"
  shows "bindE (b64_loop unb True szdest st) (b64_last unb True szdest) = Inr (Some (b_out st @ [a, b], b_idx st + 2))"
proof -
  let ?n = "unat a * 256 + unat b" and ?f = "\<lambda>t k. push_bit 6 t OR b64_code (unb ! unat (chars ! k))"
  have k: "?n div 1024 < 64" "?n div 16 mod 64 < 64" "?n mod 16 * 4 < 64" using byte_lt [of a] byte_lt [of b] by auto
  show ?thesis
  proof (cases pad)
    case True
    then have src: "b_src st = chars ! (?n div 1024) # chars ! (?n div 16 mod 64) # chars ! (?n mod 16 * 4) # [61]"
      using src by (simp add: Let_def)
    have y: "chars ! (?n mod 16 * 4) \<noteq> 61" using chars_no_pad [OF k(3)] by (auto simp: is_pad64_def)
    define t where "t = push_bit 6 (push_bit 6 (b64_code (unb ! unat (chars ! (?n div 1024))))
      OR b64_code (unb ! unat (chars ! (?n div 16 mod 64)))) OR b64_code (unb ! unat (chars ! (?n mod 16 * 4)))"
    have l: "b64_loop unb True szdest st = Inr (Some (st\<lparr>b_temp := t, b_ch := 61, b_decode := - 1, b_src := [], b_state := 3\<rparr>))"
      unfolding t_def
      by (subst loop_padded [OF src k(1,2) disjI2]) (use k(3) y in \<open>auto simp only: Let_def if_False\<close>)
    have "let t' = drop_bit 2 t in (ucast (drop_bit 8 t') :: u8) = a \<and> (ucast t' :: u8) = b"
      using tail_two [of 0 ?n a b] unfolding t_def push_bit_of_0 or.left_neutral by simp
    then show ?thesis using assms(2) unfolding l bindE_simps
      by (subst last_finish [OF after_loop_pad b64_finish_two]) (simp_all del: drop_bit_drop_bit)
  next
    case False
    then have src: "b_src st = [chars ! (?n div 1024), chars ! (?n div 16 mod 64), chars ! (?n mod 16 * 4)]"
      using src by (simp add: Let_def)
    define t where "t = ?f (?f (?f (b_temp st) (?n div 1024)) (?n div 16 mod 64)) (?n mod 16 * 4)"
    let ?st = "st\<lparr>b_temp := t, b_state := 3, b_src := []\<rparr>"
    have al: "b64_after_loop unb True szdest st = Some ?st"
      using assms(3-5) src k unfolding t_def by (simp add: after_loop_tail b64_tail_digit del: b64_tail.simps(2))
    have "let t' = drop_bit 2 t in (ucast (drop_bit 8 t') :: u8) = a \<and> (ucast t' :: u8) = b"
      using tail_two [OF assms(6) refl, of a b] unfolding t_def .
    then have "b64_finish True szdest ?st = Inr (Some (?st\<lparr>b_out := b_out st @ [a, b], b_idx := b_idx st + 2\<rparr>, 1))"
      using b64_finish_two [of ?st szdest a b] assms(2) by simp
    then show ?thesis using last_finish [OF al] src by (simp add: loop_short)
  qed
qed

lemma decode_one:
  assumes src: "b_src st = base64_reference chars pad [a]" and "b_idx st + 1 \<le> szdest"
    and "b_state st = 0" "b_ch st = 0" "b_decode st = 0" "unat (b_temp st) < 256"
  shows "bindE (b64_loop unb True szdest st) (b64_last unb True szdest) = Inr (Some (b_out st @ [a], b_idx st + 1))"
proof -
  let ?f = "\<lambda>t k. push_bit 6 t OR b64_code (unb ! unat (chars ! k))"
  have k: "unat a div 4 < 64" "unat a mod 4 * 16 < 64" using byte_lt [of a] by auto
  show ?thesis
  proof (cases pad)
    case True
    then have src: "b_src st = chars ! (unat a div 4) # chars ! (unat a mod 4 * 16) # 61 # [61]"
      using src by simp
    define t where "t = push_bit 6 (b64_code (unb ! unat (chars ! (unat a div 4))))
      OR b64_code (unb ! unat (chars ! (unat a mod 4 * 16)))"
    have l: "b64_loop unb True szdest st = Inr (Some (st\<lparr>b_temp := t, b_ch := 61, b_decode := - 1, b_src := [61], b_state := 2\<rparr>))"
      unfolding t_def by (subst loop_padded [OF src k disjI1]) (simp_all add: Let_def)
    have "(ucast (drop_bit 4 t) :: u8) = a"
      using tail_one [of 0 a] unfolding t_def push_bit_of_0 or.left_neutral by simp
    then show ?thesis using assms(2) unfolding l bindE_simps
      by (subst last_finish [OF after_loop_pad b64_finish_one]) (simp_all add: eval_nat_numeral)
  next
    case False
    then have src: "b_src st = [chars ! (unat a div 4), chars ! (unat a mod 4 * 16)]" using src by simp
    define t where "t = ?f (?f (b_temp st) (unat a div 4)) (unat a mod 4 * 16)"
    let ?st = "st\<lparr>b_temp := t, b_state := 2, b_src := []\<rparr>"
    have al: "b64_after_loop unb True szdest st = Some ?st"
      using assms(3-5) src k unfolding t_def by (simp add: after_loop_tail b64_tail_digit del: b64_tail.simps(2))
    have "(ucast (drop_bit 4 t) :: u8) = a" unfolding t_def by (rule tail_one [OF assms(6)])
    then have "b64_finish True szdest ?st = Inr (Some (?st\<lparr>b_out := b_out st @ [a], b_idx := b_idx st + 1\<rparr>, 2))"
      using b64_finish_one [of ?st szdest a] assms(2) by simp
    then show ?thesis using last_finish [OF al] src by (simp add: loop_short)
  qed
qed

lemma decode_reference:
  assumes "b_src st = base64_reference chars pad s" "b_idx st + length s \<le> szdest"
    and "b_state st = 0" "b_ch st = 0" "b_decode st = 0" "unat (b_temp st) < 256"
  shows "bindE (b64_loop unb True szdest st) (b64_last unb True szdest) = Inr (Some (b_out st @ s, b_idx st + length s))"
  using assms
proof (induction s arbitrary: st rule: triple_induct)
  case (triple a b c s)
  then show ?case using loop_quad [of st a b c "base64_reference chars pad s" szdest] byte_lt [of a]
    by (simp add: unat_ucast_up)
next
  case (two a b)
  then show ?case using decode_two [of st pad a b szdest] by (simp del: base64_reference.simps)
next
  case (one a)
  then show ?case using decode_one [of st pad a szdest] by (simp del: base64_reference.simps)
next
  case none
  then show ?case by (simp add: loop_short b64_last_def b64_after_loop_def is_pad64_def b64_finish_def)
qed

lemma unescape_escape: "base64_unescape_string (base64_reference chars pad s) unb = Inr (Some s)"
proof -
  let ?e = "base64_reference chars pad s"
  have "length s \<le> 3 * (length ?e div 4) + length ?e mod 4"
  proof -
    define q r where qr: "q = length s div 3" "r = length s mod 3"
    have "length s = q * 3 + r" "r < 3" by (simp_all add: qr)
    moreover have "length ?e = q * 4 + (if r = 0 then 0 else if pad then 4 else r + 1)"
      by (simp add: length_base64_reference qr)
    ultimately show ?thesis by auto
  qed
  then show ?thesis using decode_reference [of "b64_init ?e" pad s]
    by (simp add: base64_unescape_string_def Base64UnescapeInternal_def b64_init_def Let_def)
qed

end

lemma alphabet_upto: "(\<forall>k \<in> set [0..<64]. P k) \<Longrightarrow> k < 64 \<Longrightarrow> P (k :: nat)"
  by simp

interpretation standard: base64_alphabet kBase64Chars kUnBase64
proof
  have "\<forall>k \<in> set [0..<64]. kUnBase64 ! unat (kBase64Chars ! k) = int k \<and> kBase64Chars ! k \<noteq> 0 \<and>
      \<not> ascii_isspace (kBase64Chars ! k) \<and> \<not> is_pad64 (kBase64Chars ! k)" by code_simp
  note a = alphabet_upto [OF this]
  fix k :: nat assume "k < 64"
  note a [OF this]
  then show "kUnBase64 ! unat (kBase64Chars ! k) = int k" "kBase64Chars ! k \<noteq> 0"
    "\<not> ascii_isspace (kBase64Chars ! k)" "\<not> is_pad64 (kBase64Chars ! k)" by blast+
next
  show "kUnBase64 ! 61 = - 1" by code_simp
qed

interpretation web_safe: base64_alphabet kWebSafeBase64Chars kUnWebSafeBase64
proof
  have "\<forall>k \<in> set [0..<64]. kUnWebSafeBase64 ! unat (kWebSafeBase64Chars ! k) = int k \<and> kWebSafeBase64Chars ! k \<noteq> 0 \<and>
      \<not> ascii_isspace (kWebSafeBase64Chars ! k) \<and> \<not> is_pad64 (kWebSafeBase64Chars ! k)" by code_simp
  note a = alphabet_upto [OF this]
  fix k :: nat assume "k < 64"
  note a [OF this]
  then show "kUnWebSafeBase64 ! unat (kWebSafeBase64Chars ! k) = int k" "kWebSafeBase64Chars ! k \<noteq> 0"
    "\<not> ascii_isspace (kWebSafeBase64Chars ! k)" "\<not> is_pad64 (kWebSafeBase64Chars ! k)" by blast+
next
  show "kUnWebSafeBase64 ! 61 = - 1" by code_simp
qed

text \<open>C13: Decoding what the encoder wrote gives the input back, in the padded standard alphabet and in the
  unpadded web-safe alphabet; the encoded text has the length that was computed for it.\<close>

theorem base64_round_trip:
  assumes "length s * 4 + 8 \<le> size_max"
  shows "bindE (base64_encode s) base64_decode = Inr (Some s)
    \<and> bindE (web_safe_base64_encode s) web_safe_base64_decode = Inr (Some s)
    \<and> bindE (base64_encode s) (\<lambda>e. Inr (length e)) = CalculateBase64EscapedLenInternal (length s) True"
  using assms CalculateBase64_eq [of s True kBase64Chars] length_reference_bounds(2) [where s = s and chars = kBase64Chars and pad = True]
  by (simp_all add: base64_encode_def base64_decode_def web_safe_base64_encode_def web_safe_base64_decode_def
      base64_escape_string_eq standard.unescape_escape web_safe.unescape_escape size_max_def)

theorem base64_round_trip_witness:
  "length [251 :: u8, 255, 0, 7] * 4 + 8 \<le> size_max \<and> bindE (base64_encode [251, 255, 0, 7]) base64_decode = Inr (Some [251, 255, 0, 7])
     \<and> base64_encode [251, 255, 0, 7] = Inr [43, 47, 56, 65, 66, 119, 61, 61]"
proof -
  have h: "length [251 :: u8, 255, 0, 7] * 4 + 8 \<le> size_max" by (simp add: size_max_def)
  moreover have "base64_reference kBase64Chars True [251, 255, 0, 7] = [43, 47, 56, 65, 66, 119, 61, 61]"
    by (simp add: quad_digits_def triple_def kBase64Chars_def)
  then have "base64_encode [251, 255, 0, 7] = Inr [43, 47, 56, 65, 66, 119, 61, 61]"
    using h by (simp only: base64_encode_def base64_escape_string_eq)
  ultimately show ?thesis using base64_round_trip [OF h] by blast
qed

section \<open>Memory safety of the decoder\<close>

lemma get_input_safe:
  assumes "n \<le> length s" "0 < n"
  shows "\<exists>ch dec s' ok. get_input unb n s = Some (ch, dec, s', ok) \<and> n - 1 \<le> length s'"
  using assms by (induction unb n s rule: get_input.induct) (auto simp: Let_def)

lemma b64_slow_safe:
  "r \<le> length s \<Longrightarrow> r \<le> 4 \<Longrightarrow> \<exists>n t c d s'. b64_slow unb dest r temp ch dec s = Inr (n, t, c, d, s') \<and> n \<le> 4"
proof (induction unb dest r temp ch dec s rule: b64_slow.induct)
  case (2 unb dest r temp ch dec s)
  obtain c d t ok where g: "get_input unb (Suc r) s = Some (c, d, t, ok)" "r \<le> length t"
    using get_input_safe [of "Suc r" s unb] "2.prems" by auto
  then show ?case using "2.IH" [OF g(1) refl refl refl] "2.prems" by (cases ok) fastforce+
qed simp

text \<open>What holds of the destination at every point: it holds the bytes counted, and they fit.\<close>

definition b64_fits :: "nat \<Rightarrow> b64_state \<Rightarrow> bool" where
  "b64_fits szdest st \<longleftrightarrow> length (b_out st) = b_idx st \<and> b_idx st \<le> szdest \<and> b_state st \<le> 3"

lemma b64_write3_fits:
  "b64_write3 True szdest st = Some st' \<Longrightarrow> length (b_out st) = b_idx st \<Longrightarrow>
     length (b_out st') = b_idx st' \<and> b_idx st' \<le> szdest \<and> b_state st' = b_state st"
  by (auto simp: b64_write3_def Let_def split: if_splits)

lemma b64_loop_safe:
  "b64_fits szdest st \<Longrightarrow> \<exists>r. b64_loop unb True szdest st = Inr r \<and> (\<forall>st'. r = Some st' \<longrightarrow> b64_fits szdest st')"
proof (induction "length (b_src st)" arbitrary: st rule: less_induct)
  case less
  show ?case
  proof (cases "length (b_src st) < 4")
    case True
    then show ?thesis using less.prems by (subst b64_loop.simps) simp
  next
    case False
    let ?s = "b_src st"
    define nul where "nul \<longleftrightarrow> ?s ! 0 = 0 \<or> ?s ! 1 = 0 \<or> ?s ! 2 = 0"
    define temp where "temp = (if nul then b_temp st else b64_fast unb ?s)"
    obtain n t c d s' where sl: "b64_slow unb True 4 temp (b_ch st) (b_decode st) ?s = Inr (n, t, c, d, s')" "n \<le> 4"
      using b64_slow_safe [of 4 ?s] False by fastforce
    have sh: "length s' < length ?s" using b64_slow_shorter [OF sl(1)] by simp
    have step: "\<exists>r. (case b64_write3 True szdest u of None \<Rightarrow> Inr None | Some st \<Rightarrow> b64_loop unb True szdest st) = Inr r
        \<and> (\<forall>st'. r = Some st' \<longrightarrow> b64_fits szdest st')"
      if "length (b_src u) < length ?s" "b64_fits szdest u" for u
    proof (cases "b64_write3 True szdest u")
      case (Some v)
      have "b_src v = b_src u" using Some by (auto simp: b64_write3_def Let_def split: if_splits)
      then show ?thesis using less.hyps [of v] that Some b64_write3_fits [OF Some] by (auto simp: b64_fits_def)
    qed simp
    show ?thesis
    proof (cases "nul \<or> temp AND 0x80000000 \<noteq> 0")
      case True
      then have "b64_loop unb True szdest st =
        (let st = st\<lparr>b_temp := t, b_ch := c, b_decode := d, b_src := s'\<rparr> in
         if n \<noteq> 4 then Inr (Some (st\<lparr>b_state := n\<rparr>))
         else case b64_write3 True szdest st of None \<Rightarrow> Inr None | Some st \<Rightarrow> b64_loop unb True szdest st)"
        using sl(1) False by (subst b64_loop.simps) (simp only: Let_def nul_def [symmetric] temp_def [symmetric]; simp)
      then show ?thesis using step [of "st\<lparr>b_temp := t, b_ch := c, b_decode := d, b_src := s'\<rparr>"] less.prems sh sl(2)
        by (simp add: b64_fits_def Let_def)
    next
      case f: False
      then have "b64_loop unb True szdest st =
        (case b64_write3 True szdest (st\<lparr>b_temp := temp, b_src := drop 4 ?s\<rparr>) of None \<Rightarrow> Inr None
         | Some st \<Rightarrow> b64_loop unb True szdest st)"
        using False by (subst b64_loop.simps) (simp only: Let_def nul_def [symmetric] temp_def [symmetric]; simp)
      then show ?thesis using step [of "st\<lparr>b_temp := temp, b_src := drop 4 ?s\<rparr>"] less.prems False
        by (simp add: b64_fits_def)
    qed
  qed
qed

lemma b64_tail_fits: "b64_fits szdest st \<Longrightarrow> b64_tail unb True szdest st s = Some st' \<Longrightarrow> b64_fits szdest st'"
proof (induction unb "True" szdest st s rule: b64_tail.induct)
  case (2 unb szdest st ch src)
  then show ?case
    by (fastforce simp: Let_def b64_fits_def split: if_splits option.splits dest: b64_write3_fits)
qed (auto simp: b64_fits_def)

lemma b64_finish_fits:
  "b64_fits szdest st \<Longrightarrow> \<exists>r. b64_finish True szdest st = Inr r \<and>
     (\<forall>st' n. r = Some (st', n) \<longrightarrow> length (b_out st') = b_idx st' \<and> b_idx st' \<le> szdest)"
  by (auto simp: b64_finish_def b64_fits_def Let_def)


end
