(* ===== verification/Digest_Stream.thy ===== *)
theory Digest_Stream
  imports Endian
begin

text \<open>
  Message digests that work on blocks of 64 bytes. The interface is a stream: a chaining value, the bytes of
  the block not yet complete, and the update of both. The second half models what turbo/crypto/sha1.cc and
  turbo/crypto/sha256.cc share word for word: the buffer, a union of bytes and 32-bit words on a little-endian
  machine, and the operations that fill it, over the compression function \<open>hashBlock\<close> of the class.
\<close>

section \<open>Streams of blocks\<close>

fun foldE :: "('s \<Rightarrow> 'x \<Rightarrow> fault + 's) \<Rightarrow> 's \<Rightarrow> 'x list \<Rightarrow> fault + 's" where
  "foldE f s [] = Inr s"
| "foldE f s (x # xs) = bindE (f s x) (\<lambda>s. foldE f s xs)"

text \<open>All complete blocks of a message compressed, with the bytes left over.\<close>

function absorb :: "('h \<Rightarrow> u8 list \<Rightarrow> 'h) \<Rightarrow> 'h \<Rightarrow> u8 list \<Rightarrow> 'h \<times> u8 list" where
  "absorb step h xs = (if length xs < 64 then (h, xs) else absorb step (step h (take 64 xs)) (drop 64 xs))"
  by pat_completeness auto
termination by (relation "measure (\<lambda>(_, _, xs). length xs)") auto

declare absorb.simps [simp del]

lemma absorb_short [simp]: "length xs < 64 \<Longrightarrow> absorb step h xs = (h, xs)"
  by (subst absorb.simps) simp

lemma absorb_block: "length b = 64 \<Longrightarrow> absorb step h (b @ xs) = absorb step (step h b) xs"
  by (subst absorb.simps) simp

lemma absorb_one_block [simp]: "length b = 64 \<Longrightarrow> absorb step h b = (step h b, [])"
  using absorb_block [of b step h "[]"] by simp

lemma absorb_append:
  "absorb step h xs = (h', p) \<Longrightarrow> absorb step h (xs @ ys) = absorb step h' (p @ ys)"
proof (induction step h xs rule: absorb.induct)
  case (1 step h xs)
  show ?case
  proof (cases "length xs < 64")
    case True
    then show ?thesis using "1.prems" by simp
  next
    case False
    then have "absorb step (step h (take 64 xs)) (drop 64 xs) = (h', p)"
      using "1.prems" by (subst (asm) absorb.simps) simp
    moreover have "absorb step h (xs @ ys) = absorb step (step h (take 64 xs)) (drop 64 xs @ ys)"
      using absorb_block [of "take 64 xs" step h "drop 64 xs @ ys"] False by (simp flip: append_assoc)
    ultimately show ?thesis using "1.IH" [OF False] by simp
  qed
qed

lemma absorb_left_less: "length (snd (absorb step h xs)) < 64"
  by (induction step h xs rule: absorb.induct) (subst absorb.simps, simp)

lemma absorb_left_length: "length (snd (absorb step h xs)) = length xs mod 64"
proof (induction step h xs rule: absorb.induct)
  case (1 step h xs)
  then show ?case by (cases "length xs < 64") (auto simp: absorb.simps [of step h xs] le_mod_geq)
qed

text \<open>A message with its padding: one bit, zeroes up to 56 bytes of the last block, and the length.\<close>

definition pad_zeroes :: "nat \<Rightarrow> nat" where
  "pad_zeroes n = (119 - n mod 64) mod 64"

definition padded :: "u8 list \<Rightarrow> u8 list \<Rightarrow> u8 list" where
  "padded m len = m @ 0x80 # replicate (pad_zeroes (length m)) 0 @ len"

lemma padded_blocks: "length len = 8 \<Longrightarrow> length (padded m len) mod 64 = 0"
proof -
  assume l: "length len = 8"
  define q r where qr: "q = length m div 64" "r = length m mod 64"
  have m: "length m = 64 * q + r" and r: "r < 64" by (simp_all add: qr)
  have "length (padded m len) = 64 * q + (r + 9 + (119 - r) mod 64)"
    using l m r by (simp add: padded_def pad_zeroes_def)
  moreover have "(r + 9 + (119 - r) mod 64) mod 64 = 0"
    using r by (cases "r < 56") (auto simp: mod_if)
  ultimately show ?thesis by simp
qed

text \<open>A digest object absorbs its input: the contract of \<open>update\<close>.\<close>

locale block_digest =
  fixes step :: "'h \<Rightarrow> u8 list \<Rightarrow> 'h"
    and ok :: "'s \<Rightarrow> bool"
    and chain :: "'s \<Rightarrow> 'h"
    and pending :: "'s \<Rightarrow> u8 list"
    and total :: "'s \<Rightarrow> nat"
    and modulus :: nat
    and update :: "'s \<Rightarrow> u8 list \<Rightarrow> fault + 's"
  assumes update_absorbs: "ok s \<Longrightarrow> \<exists>s'. update s d = Inr s' \<and> ok s' \<and>
      (chain s', pending s') = absorb step (chain s) (pending s @ d) \<and> total s' = (total s + length d) mod modulus"
begin

lemma updates_absorb:
  "ok s \<Longrightarrow> length (pending s) < 64 \<Longrightarrow> \<exists>s'. foldE update s ds = Inr s' \<and> ok s' \<and>
      (chain s', pending s') = absorb step (chain s) (pending s @ concat ds) \<and>
      total s' mod modulus = (total s + length (concat ds)) mod modulus"
proof (induction ds arbitrary: s)
  case (Cons d ds)
  obtain s1 where s1: "update s d = Inr s1" "ok s1" "(chain s1, pending s1) = absorb step (chain s) (pending s @ d)"
      "total s1 = (total s + length d) mod modulus"
    using update_absorbs [OF Cons.prems(1)] by blast
  then have "length (pending s1) < 64" using absorb_left_less [of step "chain s" "pending s @ d"] by (metis snd_conv)
  from Cons.IH [OF s1(2) this] obtain s2 where s2: "foldE update s1 ds = Inr s2" "ok s2"
      "(chain s2, pending s2) = absorb step (chain s1) (pending s1 @ concat ds)"
      "total s2 mod modulus = (total s1 + length (concat ds)) mod modulus" by blast
  moreover have "absorb step (chain s) ((pending s @ d) @ concat ds) = absorb step (chain s1) (pending s1 @ concat ds)"
    by (rule absorb_append) (simp add: s1(3))
  ultimately show ?case using s1 by (simp add: mod_add_left_eq add.assoc)
qed simp

end

section \<open>Rotations\<close>

lemma shifts_word_rotr: "0 < n \<Longrightarrow> n < 32 \<Longrightarrow> drop_bit n x OR push_bit (32 - n) x = word_rotr n (x :: u32)"
proof (rule bit_word_eqI)
  fix i assume n: "0 < n" "n < 32" and "i < LENGTH(32)"
  then have i: "i < 32" by simp
  have eq: "bit (drop_bit n x OR push_bit (32 - n) x) i \<longleftrightarrow> bit x (n + i) \<or> 32 - n \<le> i \<and> bit x (i - (32 - n))"
    using i by (simp add: bit_or_iff bit_drop_bit_eq bit_push_bit_iff)
  have eq2: "bit (word_rotr n x) i \<longleftrightarrow> bit x ((i + n) mod 32)" using i by (simp add: bit_word_rotr_iff)
  show "bit (drop_bit n x OR push_bit (32 - n) x) i = bit (word_rotr n x) i"
  proof (cases "i + n < 32")
    case True
    then show ?thesis unfolding eq eq2 by (auto simp: add.commute)
  next
    case False
    then have "(i + n) mod 32 = i - (32 - n)" "\<not> bit x (n + i)" using i n bit_imp_le_length [of x "n + i"] by (auto simp: mod_if)
    then show ?thesis unfolding eq eq2 using False by auto
  qed
qed

lemma shifts_word_rotl: "0 < n \<Longrightarrow> n < 32 \<Longrightarrow> push_bit n x OR drop_bit (32 - n) x = word_rotl n (x :: u32)"
  using shifts_word_rotr [of "32 - n" x] by (simp add: or.commute word_rotl_eq_word_rotr)

lemma list_update_numeral [simp]: "(x # xs)[numeral k := y] = x # xs[pred_numeral k := y]"
  by (simp add: numeral_eq_Suc)

section \<open>A window of the message schedule\<close>

text \<open>Sixteen words that hold the entries \<open>t\<close> to \<open>t + 15\<close> of a schedule, each at its index modulo 16.\<close>

definition window :: "(nat \<Rightarrow> u32) \<Rightarrow> nat \<Rightarrow> u32 list \<Rightarrow> bool" where
  "window W t w \<longleftrightarrow> length w = 16 \<and> (\<forall>i. t \<le> i \<and> i < t + 16 \<longrightarrow> w ! (i mod 16) = W i)"

lemma window_init: "length w = 16 \<Longrightarrow> (\<And>i. i < 16 \<Longrightarrow> W i = w ! i) \<Longrightarrow> window W 0 w"
  by (simp add: window_def)

lemma window_nth: "window W t w \<Longrightarrow> k < 16 \<Longrightarrow> w ! ((t + k) mod 16) = W (t + k)"
  by (simp add: window_def)

lemma window_step:
  assumes "window W t w" "x = W (t + 16)"
  shows "window W (Suc t) (w[t mod 16 := x])"
proof -
  have "w[t mod 16 := x] ! (i mod 16) = W i" if "Suc t \<le> i" "i < Suc t + 16" for i
  proof (cases "i = t + 16")
    case True
    then show ?thesis using assms by (simp add: window_def)
  next
    case False
    then have k: "i = t + (i - t)" "0 < i - t" "i - t < 16" using that by simp_all
    then have "i mod 16 \<noteq> t mod 16" using mod_add_inj [of "i - t" 16 0 t] by auto
    then show ?thesis using assms(1) that False by (simp add: window_def)
  qed
  then show ?thesis using assms(1) by (simp add: window_def)
qed

definition be_words :: "u8 list \<Rightarrow> u32 list" where
  "be_words b = map (\<lambda>i. little_endian_load32 (b ! (4 * i + 3)) (b ! (4 * i + 2)) (b ! (4 * i + 1)) (b ! (4 * i))) [0..<16]"

text \<open>A number as eight bytes, the most significant one first.\<close>

definition be_bytes64 :: "nat \<Rightarrow> u8 list" where
  "be_bytes64 n = map (\<lambda>i. word_of_nat (n div 256 ^ (7 - i))) [0..<8]"

lemma byte_of_word:
  "k + 8 \<le> LENGTH('n) \<Longrightarrow> (ucast (drop_bit k (word_of_nat n :: 'n::len word)) :: u8) = word_of_nat (n div 2 ^ k)"
  by (rule bit_word_eqI) (simp add: bit_unsigned_iff bit_drop_bit_eq bit_of_nat_iff drop_bit_eq_div [symmetric])

section \<open>The buffer of the SHA classes\<close>

text \<open>
  The bytes of the union \<open>Buffer\<close> are \<open>sha_C\<close>; its words are read from and written to these bytes in the
  order of the machine. The byte counter has 32 bits in both classes; nothing below depends on its width.
\<close>

record 'c sha_state =
  sha_C :: "u8 list"
  sha_State :: "u32 list"
  sha_ByteCount :: 'c
  sha_BufferOffset :: nat

definition buffer_L :: "u8 list \<Rightarrow> nat \<Rightarrow> u32" where
  "buffer_L C I = little_endian_load32 (C ! (4 * I)) (C ! (4 * I + 1)) (C ! (4 * I + 2)) (C ! (4 * I + 3))"

definition buffer_set_L :: "u8 list \<Rightarrow> nat \<Rightarrow> u32 \<Rightarrow> u8 list" where
  "buffer_set_L C I v =
     (let b = little_endian_store32 v in C[4 * I := b ! 0, 4 * I + 1 := b ! 1, 4 * I + 2 := b ! 2, 4 * I + 3 := b ! 3])"

text \<open>\<open>addUncounted\<close>: a write outside the buffer is a fault.\<close>

definition sha_addUncounted ::
  "('c sha_state \<Rightarrow> 'c sha_state) \<Rightarrow> 'c sha_state \<Rightarrow> u8 \<Rightarrow> fault + 'c sha_state" where
  "sha_addUncounted hashBlock s Data =
     (let i = sha_BufferOffset s XOR 3 in
      if i \<ge> length (sha_C s) then Inl Out_of_range
      else let s = s\<lparr>sha_C := (sha_C s)[i := Data], sha_BufferOffset := sha_BufferOffset s + 1\<rparr> in
        Inr (if sha_BufferOffset s = 64 then (hashBlock s)\<lparr>sha_BufferOffset := 0\<rparr> else s))"

definition sha_writebyte ::
  "('n::len word sha_state \<Rightarrow> 'n word sha_state) \<Rightarrow> 'n word sha_state \<Rightarrow> u8 \<Rightarrow> fault + 'n word sha_state" where
  "sha_writebyte hashBlock s Data = sha_addUncounted hashBlock (s\<lparr>sha_ByteCount := sha_ByteCount s + 1\<rparr>) Data"

text \<open>The loop of \<open>update\<close> over complete blocks: the words of the buffer from big-endian data.\<close>

definition sha_fill_word :: "u8 list \<Rightarrow> nat \<Rightarrow> u8 list \<Rightarrow> u8 list" where
  "sha_fill_word Data I C = buffer_set_L C I
     (big_endian_load32 (Data ! (I * 4)) (Data ! (I * 4 + 1)) (Data ! (I * 4 + 2)) (Data ! (I * 4 + 3)))"

definition sha_fill :: "u8 list \<Rightarrow> u8 list \<Rightarrow> u8 list" where
  "sha_fill C Data = fold (sha_fill_word Data) [0..<16] C"

function sha_blocks :: "('c sha_state \<Rightarrow> 'c sha_state) \<Rightarrow> 'c sha_state \<Rightarrow> u8 list \<Rightarrow> 'c sha_state \<times> u8 list" where
  "sha_blocks hashBlock s Data =
     (if length Data \<ge> 64 then sha_blocks hashBlock (hashBlock (s\<lparr>sha_C := sha_fill (sha_C s) Data\<rparr>)) (drop 64 Data)
      else (s, Data))"
  by pat_completeness auto
termination by (relation "measure (\<lambda>(_, _, d). length d)") auto

declare sha_blocks.simps [simp del]

definition sha_update ::
  "('n::len word sha_state \<Rightarrow> 'n word sha_state) \<Rightarrow> 'n word sha_state \<Rightarrow> u8 list \<Rightarrow> fault + 'n word sha_state" where
  "sha_update hashBlock s Data =
     (let s = s\<lparr>sha_ByteCount := sha_ByteCount s + word_of_nat (length Data)\<rparr>;
          Remainder = (if sha_BufferOffset s > 0 then min (length Data) (64 - sha_BufferOffset s) else 0) in
      bindE (foldE (sha_addUncounted hashBlock) s (take Remainder Data)) (\<lambda>s.
        let (s, Data) = sha_blocks hashBlock s (drop Remainder Data) in
        foldE (sha_addUncounted hashBlock) s Data))"

text \<open>
  The loop of \<open>pad\<close>, \<open>while (BufferOffset != 56)\<close>; 64 iterations are enough, since the offset takes
  every value below 64 before it repeats.
\<close>

fun sha_pad_zeroes :: "nat \<Rightarrow> ('c sha_state \<Rightarrow> 'c sha_state) \<Rightarrow> 'c sha_state \<Rightarrow> fault + 'c sha_state" where
  "sha_pad_zeroes fuel hashBlock s =
     (if sha_BufferOffset s = 56 then Inr s
      else case fuel of 0 \<Rightarrow> Inl Diverges
           | Suc fuel \<Rightarrow> bindE (sha_addUncounted hashBlock s 0) (sha_pad_zeroes fuel hashBlock))"

definition sha_pad ::
  "('c sha_state \<Rightarrow> 'c sha_state) \<Rightarrow> ('c \<Rightarrow> u8 list) \<Rightarrow> 'c sha_state \<Rightarrow> fault + 'c sha_state" where
  "sha_pad hashBlock length_bytes s =
     bindE (sha_addUncounted hashBlock s 0x80) (\<lambda>s.
     bindE (sha_pad_zeroes 64 hashBlock s) (\<lambda>s.
       foldE (sha_addUncounted hashBlock) s (length_bytes (sha_ByteCount s))))"

text \<open>\<open>final\<close> gives the digest and leaves the object padded; \<open>result\<close> restores it.\<close>

definition sha_final ::
  "('c sha_state \<Rightarrow> 'c sha_state) \<Rightarrow> ('c \<Rightarrow> u8 list) \<Rightarrow> 'c sha_state \<Rightarrow> fault + u8 list \<times> 'c sha_state" where
  "sha_final hashBlock length_bytes s =
     bindE (sha_pad hashBlock length_bytes s) (\<lambda>s.
       Inr (concat (map (\<lambda>w. little_endian_store32 (gbswap_32 w)) (sha_State s)), s))"

definition sha_result ::
  "('c sha_state \<Rightarrow> 'c sha_state) \<Rightarrow> ('c \<Rightarrow> u8 list) \<Rightarrow> 'c sha_state \<Rightarrow> fault + u8 list \<times> 'c sha_state" where
  "sha_result hashBlock length_bytes s =
     bindE (sha_final hashBlock length_bytes s) (\<lambda>(Hash, _). Inr (Hash, s))"

section \<open>The buffer holds the bytes of the current block\<close>

declare sha_pad_zeroes.simps [simp del]

lemma xor_3: "i XOR 3 = 4 * (i div 4) + (3 - i mod 4)" for i :: nat
proof -
  have "take_bit 2 (i XOR 3) = take_bit 2 i XOR take_bit 2 3" by (rule take_bit_xor)
  moreover have "i mod 4 = 0 \<or> i mod 4 = 1 \<or> i mod 4 = 2 \<or> i mod 4 = 3" by linarith
  ultimately have "(i XOR 3) mod 4 = 3 - i mod 4" by (auto simp: take_bit_eq_mod)
  moreover have "drop_bit 2 (i XOR 3) = drop_bit 2 i XOR drop_bit 2 3" by (rule drop_bit_xor)
  then have "(i XOR 3) div 4 = i div 4" by (simp add: drop_bit_eq_div)
  ultimately show ?thesis using mult_div_mod_eq [of 4 "i XOR 3"] by simp
qed

lemma xor_3_less: "i < 64 \<Longrightarrow> i XOR 3 < (64 :: nat)"
proof -
  assume "i < 64"
  then have "i div 4 \<le> 15" by simp
  then show ?thesis unfolding xor_3 by simp
qed

lemma xor_3_eq [simp]: "i XOR 3 = j XOR 3 \<longleftrightarrow> i = (j :: nat)"
  by (metis xor.assoc xor_self_eq xor.right_neutral)

definition block_bytes :: "u8 list \<Rightarrow> u8 list" where
  "block_bytes C = map (\<lambda>i. C ! (i XOR 3)) [0..<64]"

lemma xor_3_word:
  "(4 * i + 3) XOR 3 = 4 * i" "(4 * i + 2) XOR 3 = 4 * i + 1" "(4 * i + 1) XOR 3 = 4 * i + 2" "(4 * i) XOR 3 = 4 * i + (3 :: nat)"
proof -
  have "(4 * i + k) XOR 3 = 4 * i + (3 - k)" if "k < 4" for k using that unfolding xor_3 by simp
  from this [of 3] this [of 2] this [of 1] this [of 0]
  show "(4 * i + 3) XOR 3 = 4 * i" "(4 * i + 2) XOR 3 = 4 * i + 1" "(4 * i + 1) XOR 3 = 4 * i + 2" "(4 * i) XOR 3 = 4 * i + 3"
    by simp_all
qed

lemma be_words_block_bytes: "be_words (block_bytes C) = map (buffer_L C) [0..<16]"
proof -
  have "block_bytes C ! k = C ! (k XOR 3)" if "k < 64" for k using that by (simp add: block_bytes_def)
  then show ?thesis unfolding be_words_def buffer_L_def
    by (intro map_cong refl) (simp del: add_2_eq_Suc' add_Suc_right One_nat_def add: xor_3_word)
qed

definition sha_pending :: "'c sha_state \<Rightarrow> u8 list" where
  "sha_pending s = map (\<lambda>i. sha_C s ! (i XOR 3)) [0..<sha_BufferOffset s]"

definition sha_ok :: "nat \<Rightarrow> 'c sha_state \<Rightarrow> bool" where
  "sha_ok hlen s \<longleftrightarrow> length (sha_C s) = 64 \<and> length (sha_State s) = hlen \<and> sha_BufferOffset s < 64"

lemma length_sha_pending [simp]: "length (sha_pending s) = sha_BufferOffset s"
  by (simp add: sha_pending_def)

lemma length_block_bytes [simp]: "length (block_bytes C) = 64"
  by (simp add: block_bytes_def)

lemma length_buffer_set_L [simp]: "length (buffer_set_L C I v) = length C"
  by (simp add: buffer_set_L_def Let_def)

lemma buffer_set_L_bytes:
  assumes "4 * I + 4 \<le> length C"
  shows "buffer_set_L C I (big_endian_load32 a b c d) = take (4 * I) C @ [d, c, b, a] @ drop (4 * I + 4) C"
  using assms
  by (auto simp: buffer_set_L_def Let_def big_endian_load32_eq little_endian_store_load nth_append nth_list_update
      intro!: nth_equalityI) 

lemma buffer_words_set:
  assumes "length C = 64" "I < 16"
  shows "map (buffer_L (buffer_set_L C I v)) [0..<16] = (map (buffer_L C) [0..<16])[I := v]"
proof (rule nth_equalityI)
  fix J assume "J < length (map (buffer_L (buffer_set_L C I v)) [0..<16])"
  then have J: "J < 16" by simp
  consider "J < I" | "J = I" | "I < J" by linarith
  then have "buffer_L (buffer_set_L C I v) J = (if J = I then v else buffer_L C J)"
  proof cases
    case 2
    then show ?thesis using assms little_endian_load_store [of v]
      by (simp add: buffer_L_def buffer_set_L_def Let_def little_endian_store32_def)
  qed (use assms J in \<open>simp_all add: buffer_L_def buffer_set_L_def Let_def\<close>)
  then show "map (buffer_L (buffer_set_L C I v)) [0..<16] ! J = (map (buffer_L C) [0..<16])[I := v] ! J"
    using J assms by (simp add: nth_list_update)
qed simp

lemma sha_fill_prefix:
  assumes "n \<le> 16" "length C = 64"
  shows "length (fold (sha_fill_word Data) [0..<n] C) = 64 \<and> (\<forall>i < 4 * n. fold (sha_fill_word Data) [0..<n] C ! (i XOR 3) = Data ! i)"
  using assms(1)
proof (induction n)
  case (Suc n)
  let ?C = "fold (sha_fill_word Data) [0..<n] C"
  have ih: "length ?C = 64" "\<And>i. i < 4 * n \<Longrightarrow> ?C ! (i XOR 3) = Data ! i" using Suc by simp_all
  have eq: "fold (sha_fill_word Data) [0..<Suc n] C = take (4 * n) ?C @ [Data ! (n * 4 + 3), Data ! (n * 4 + 2), Data ! (n * 4 + 1), Data ! (n * 4)] @ drop (4 * n + 4) ?C"
    using ih(1) Suc.prems by (simp add: sha_fill_word_def buffer_set_L_bytes)
  have "fold (sha_fill_word Data) [0..<Suc n] C ! (i XOR 3) = Data ! i" if "i < 4 * Suc n" for i
  proof (cases "i < 4 * n")
    case True
    then have "i div 4 < n" by simp
    then have "i XOR 3 < 4 * n" unfolding xor_3 by simp
    moreover have "4 * n < 64" using Suc.prems by simp
    ultimately show ?thesis using ih True unfolding eq by (simp add: nth_append)
  next
    case False
    define k where "k = i - 4 * n"
    have k: "i = 4 * n + k" "k < 4" using False that by (simp_all add: k_def)
    then have x: "i XOR 3 = length (take (4 * n) ?C) + (3 - k)" unfolding xor_3 using ih(1) Suc.prems by simp
    have "k = 0 \<or> k = 1 \<or> k = 2 \<or> k = 3" using k(2) by linarith
    then show ?thesis unfolding eq x nth_append_length_plus by (auto simp: k(1) mult.commute)
  qed
  moreover have "length (fold (sha_fill_word Data) [0..<Suc n] C) = 64" using ih(1) by (simp add: sha_fill_word_def)
  ultimately show ?case by blast
qed (simp add: assms(2))

lemma length_sha_fill [simp]: "length C = 64 \<Longrightarrow> length (sha_fill C Data) = 64"
  using sha_fill_prefix [of 16 C Data] by (simp add: sha_fill_def)

lemma block_bytes_sha_fill: "length C = 64 \<Longrightarrow> 64 \<le> length Data \<Longrightarrow> block_bytes (sha_fill C Data) = take 64 Data"
  using sha_fill_prefix [of 16 C Data] by (auto simp: sha_fill_def block_bytes_def intro!: nth_equalityI)

text \<open>
  What the shared code relies on: \<open>hashBlock\<close> compresses the block in the buffer into the chaining value and
  leaves the counter and the offset alone. It may change the buffer.
\<close>

locale sha_core =
  fixes hashBlock :: "'n::len word sha_state \<Rightarrow> 'n word sha_state"
    and step :: "u32 list \<Rightarrow> u8 list \<Rightarrow> u32 list"
    and hlen :: nat
  assumes hashBlock: "length (sha_C s) = 64 \<Longrightarrow> length (sha_State s) = hlen \<Longrightarrow>
      sha_State (hashBlock s) = step (sha_State s) (block_bytes (sha_C s)) \<and> length (sha_C (hashBlock s)) = 64
      \<and> length (step (sha_State s) (block_bytes (sha_C s))) = hlen
      \<and> sha_ByteCount (hashBlock s) = sha_ByteCount s \<and> sha_BufferOffset (hashBlock s) = sha_BufferOffset s"
begin

lemma add_absorbs:
  assumes "sha_ok hlen s"
  shows "\<exists>s'. sha_addUncounted hashBlock s d = Inr s' \<and> sha_ok hlen s' \<and> sha_ByteCount s' = sha_ByteCount s \<and>
      (sha_State s', sha_pending s') = absorb step (sha_State s) (sha_pending s @ [d])"
proof -
  let ?o = "sha_BufferOffset s"
  let ?s = "s\<lparr>sha_C := (sha_C s)[?o XOR 3 := d], sha_BufferOffset := ?o + 1\<rparr>"
  have o: "?o < 64" "?o XOR 3 < 64" and l: "length (sha_C s) = 64" using assms xor_3_less by (auto simp: sha_ok_def)
  have "(sha_C s)[?o XOR 3 := d] ! (i XOR 3) = (if i = ?o then d else sha_C s ! (i XOR 3))" for i
    using o l by (simp add: nth_list_update)
  then have p: "map (\<lambda>i. (sha_C s)[?o XOR 3 := d] ! (i XOR 3)) [0..<?o + 1] = sha_pending s @ [d]"
    by (simp add: sha_pending_def)
  show ?thesis
  proof (cases "?o = 63")
    case True
    then have "block_bytes (sha_C ?s) = sha_pending s @ [d]" using p by (simp add: block_bytes_def)
    then show ?thesis using True hashBlock [of ?s] assms o l
      by (simp add: sha_addUncounted_def Let_def sha_ok_def sha_pending_def)
  next
    case False
    then show ?thesis using p assms o l by (simp add: sha_addUncounted_def Let_def sha_ok_def sha_pending_def)
  qed
qed

lemma adds_absorb:
  "sha_ok hlen s \<Longrightarrow> \<exists>s'. foldE (sha_addUncounted hashBlock) s d = Inr s' \<and> sha_ok hlen s' \<and> sha_ByteCount s' = sha_ByteCount s \<and>
      (sha_State s', sha_pending s') = absorb step (sha_State s) (sha_pending s @ d)"
proof (induction d arbitrary: s)
  case Nil
  then show ?case by (simp add: sha_ok_def)
next
  case (Cons x d)
  obtain s1 where s1: "sha_addUncounted hashBlock s x = Inr s1" "sha_ok hlen s1" "sha_ByteCount s1 = sha_ByteCount s"
      "(sha_State s1, sha_pending s1) = absorb step (sha_State s) (sha_pending s @ [x])"
    using add_absorbs [OF Cons.prems] by blast
  have "absorb step (sha_State s) ((sha_pending s @ [x]) @ d) = absorb step (sha_State s1) (sha_pending s1 @ d)"
    by (rule absorb_append) (simp add: s1(4))
  then show ?case using Cons.IH [OF s1(2)] s1 by simp
qed

lemma blocks_absorb:
  "sha_ok hlen s \<Longrightarrow> sha_BufferOffset s = 0 \<Longrightarrow> \<exists>s' d'. sha_blocks hashBlock s d = (s', d') \<and> sha_ok hlen s' \<and>
      sha_BufferOffset s' = 0 \<and> sha_ByteCount s' = sha_ByteCount s \<and> (sha_State s', d') = absorb step (sha_State s) d"
proof (induction "length d" arbitrary: s d rule: less_induct)
  case less
  show ?case
  proof (cases "length d < 64")
    case True
    then show ?thesis using less.prems by (subst sha_blocks.simps) simp
  next
    case False
    let ?s = "hashBlock (s\<lparr>sha_C := sha_fill (sha_C s) d\<rparr>)"
    have h: "sha_State ?s = step (sha_State s) (take 64 d)" "sha_ok hlen ?s" "sha_BufferOffset ?s = 0" "sha_ByteCount ?s = sha_ByteCount s"
      using hashBlock [of "s\<lparr>sha_C := sha_fill (sha_C s) d\<rparr>"] less.prems False
      by (simp_all add: sha_ok_def block_bytes_sha_fill)
    have "absorb step (sha_State s) d = absorb step (sha_State ?s) (drop 64 d)"
      using absorb_block [of "take 64 d" step "sha_State s" "drop 64 d"] False h(1) by simp
    moreover have "sha_blocks hashBlock s d = sha_blocks hashBlock ?s (drop 64 d)" using False by (subst sha_blocks.simps) simp
    ultimately show ?thesis using less.hyps [of "drop 64 d" ?s] False h by simp
  qed
qed

lemma update_absorbs:
  assumes "sha_ok hlen s"
  shows "\<exists>s'. sha_update hashBlock s d = Inr s' \<and> sha_ok hlen s' \<and>
      (sha_State s', sha_pending s') = absorb step (sha_State s) (sha_pending s @ d) \<and>
      unat (sha_ByteCount s') = (unat (sha_ByteCount s) + length d) mod 2 ^ LENGTH('n)"
proof -
  let ?s = "s\<lparr>sha_ByteCount := sha_ByteCount s + word_of_nat (length d)\<rparr>"
  define r where "r = (if sha_BufferOffset s > 0 then min (length d) (64 - sha_BufferOffset s) else 0)"
  have c: "unat (sha_ByteCount ?s) = (unat (sha_ByteCount s) + length d) mod 2 ^ LENGTH('n)"
    by (simp add: unat_word_ariths unat_of_nat mod_add_right_eq)
  have ok: "sha_ok hlen ?s" and pn: "sha_pending ?s = sha_pending s" using assms by (simp_all add: sha_ok_def sha_pending_def)
  obtain s1 where s1: "foldE (sha_addUncounted hashBlock) ?s (take r d) = Inr s1" "sha_ok hlen s1" "sha_ByteCount s1 = sha_ByteCount ?s"
      "(sha_State s1, sha_pending s1) = absorb step (sha_State s) (sha_pending s @ take r d)"
    using adds_absorb [OF ok, of "take r d"] pn by auto
  have a1: "absorb step (sha_State s) ((sha_pending s @ take r d) @ drop r d) = absorb step (sha_State s1) (sha_pending s1 @ drop r d)"
    by (rule absorb_append) (simp add: s1(4))
  have u: "sha_update hashBlock s d = (let (s, d) = sha_blocks hashBlock s1 (drop r d) in foldE (sha_addUncounted hashBlock) s d)"
    using s1(1) unfolding sha_update_def r_def Let_def by (simp split: if_splits)
  have z: "sha_BufferOffset s1 = 0" if "drop r d \<noteq> []"
  proof -
    have "sha_pending s @ take r d = [] \<or> length (sha_pending s @ take r d) = 64"
      using that assms by (cases "sha_BufferOffset s = 0") (auto simp: r_def sha_ok_def sha_pending_def)
    then have "sha_pending s1 = []" using s1(4) absorb_short [of "[]" step "sha_State s"] absorb_one_block [of "sha_pending s @ take r d" step "sha_State s"]
      by (metis list.size(3) prod.inject zero_less_numeral)
    then show ?thesis using length_sha_pending [of s1] by simp
  qed
  show ?thesis
  proof (cases "sha_BufferOffset s1 = 0")
    case True
    obtain s2 d2 where s2: "sha_blocks hashBlock s1 (drop r d) = (s2, d2)" "sha_ok hlen s2" "sha_BufferOffset s2 = 0"
        "sha_ByteCount s2 = sha_ByteCount s1" "(sha_State s2, d2) = absorb step (sha_State s1) (drop r d)"
      using blocks_absorb [OF s1(2) True] by blast
    have "absorb step (sha_State s1) (drop r d @ []) = absorb step (sha_State s2) (d2 @ [])"
      by (rule absorb_append) (simp add: s2(5))
    moreover have "sha_pending s1 = []" "sha_pending s2 = []" using True s2(3) by (simp_all add: sha_pending_def)
    ultimately show ?thesis using adds_absorb [OF s2(2), of d2] s1 s2 a1 c
      by (auto simp: u)
  next
    case False
    then have "drop r d = []" using z by auto
    then show ?thesis using s1 a1 c by (simp add: u sha_blocks.simps)
  qed
qed

lemma zeroes_left: "n < 64 \<Longrightarrow> (120 - n) mod 64 = (if n \<le> 56 then 56 - n else 120 - n)" for n :: nat
  by (simp add: mod_if)

lemma pad_zeroes_absorb:
  "sha_ok hlen s \<Longrightarrow> (120 - sha_BufferOffset s) mod 64 \<le> fuel \<Longrightarrow>
   \<exists>s'. sha_pad_zeroes fuel hashBlock s = Inr s' \<and> sha_ok hlen s' \<and> sha_ByteCount s' = sha_ByteCount s \<and>
      (sha_State s', sha_pending s') = absorb step (sha_State s) (sha_pending s @ replicate ((120 - sha_BufferOffset s) mod 64) 0)"
proof (induction fuel arbitrary: s)
  case 0
  then have "sha_BufferOffset s = 56" using zeroes_left [of "sha_BufferOffset s"] by (auto simp: sha_ok_def split: if_splits)
  then show ?case using 0 by (simp add: sha_pad_zeroes.simps)
next
  case (Suc fuel)
  show ?case
  proof (cases "sha_BufferOffset s = 56")
    case True
    then show ?thesis using Suc.prems by (simp add: sha_pad_zeroes.simps)
  next
    case False
    let ?z = "(120 - sha_BufferOffset s) mod 64"
    obtain s1 where s1: "sha_addUncounted hashBlock s 0 = Inr s1" "sha_ok hlen s1" "sha_ByteCount s1 = sha_ByteCount s"
        "(sha_State s1, sha_pending s1) = absorb step (sha_State s) (sha_pending s @ [0])"
      using add_absorbs [OF Suc.prems(1), of 0] by blast
    have o: "sha_BufferOffset s < 64" using Suc.prems(1) by (simp add: sha_ok_def)
    have "sha_BufferOffset s1 = (sha_BufferOffset s + 1) mod 64"
      using absorb_left_length [of step "sha_State s" "sha_pending s @ [0]"] arg_cong [OF s1(4), of "length \<circ> snd"] by simp
    then have z: "?z = Suc ((120 - sha_BufferOffset s1) mod 64)"
      using o False zeroes_left [of "sha_BufferOffset s"] zeroes_left [of "sha_BufferOffset s1"]
      by (cases "sha_BufferOffset s = 63") auto
    have "absorb step (sha_State s) ((sha_pending s @ [0]) @ replicate ((120 - sha_BufferOffset s1) mod 64) 0)
        = absorb step (sha_State s1) (sha_pending s1 @ replicate ((120 - sha_BufferOffset s1) mod 64) 0)"
      by (rule absorb_append) (simp add: s1(4))
    moreover have "sha_pad_zeroes (Suc fuel) hashBlock s = sha_pad_zeroes fuel hashBlock s1"
      using False s1(1) by (subst sha_pad_zeroes.simps) simp
    ultimately show ?thesis using Suc.IH [OF s1(2)] Suc.prems(2) s1(3) z by simp
  qed
qed

lemma pad_absorbs:
  assumes "sha_ok hlen s" and m: "(sha_State s, sha_pending s) = absorb step h m"
  shows "\<exists>s'. sha_pad hashBlock length_bytes s = Inr s' \<and>
      (sha_State s', sha_pending s') = absorb step h (padded m (length_bytes (sha_ByteCount s)))"
proof -
  let ?o = "sha_BufferOffset s"
  obtain s1 where s1: "sha_addUncounted hashBlock s 0x80 = Inr s1" "sha_ok hlen s1" "sha_ByteCount s1 = sha_ByteCount s"
      "(sha_State s1, sha_pending s1) = absorb step (sha_State s) (sha_pending s @ [0x80])"
    using add_absorbs [OF assms(1)] by blast
  let ?z = "(120 - sha_BufferOffset s1) mod 64"
  have "?z \<le> 64" by simp
  then obtain s2 where s2: "sha_pad_zeroes 64 hashBlock s1 = Inr s2" "sha_ok hlen s2" "sha_ByteCount s2 = sha_ByteCount s"
      "(sha_State s2, sha_pending s2) = absorb step (sha_State s1) (sha_pending s1 @ replicate ?z 0)"
    using pad_zeroes_absorb [OF s1(2)] s1(3) by fastforce
  obtain s3 where s3: "foldE (sha_addUncounted hashBlock) s2 (length_bytes (sha_ByteCount s2)) = Inr s3"
      "(sha_State s3, sha_pending s3) = absorb step (sha_State s2) (sha_pending s2 @ length_bytes (sha_ByteCount s2))"
    using adds_absorb [OF s2(2)] by blast
  have o: "?o = length m mod 64"
    using absorb_left_length [of step h m] arg_cong [OF m, of "length \<circ> snd"] by simp
  have o1: "sha_BufferOffset s1 = (?o + 1) mod 64"
    using absorb_left_length [of step "sha_State s" "sha_pending s @ [0x80]"] arg_cong [OF s1(4), of "length \<circ> snd"] by simp
  have "?z = pad_zeroes (length m)"
    unfolding pad_zeroes_def o1 o [symmetric] using assms(1) by (cases "?o = 63") (auto simp: sha_ok_def)
  moreover have "absorb step h (m @ [0x80]) = (sha_State s1, sha_pending s1)"
    using absorb_append [OF m [symmetric]] s1(4) by simp
  then have "absorb step h ((m @ [0x80]) @ replicate ?z 0) = (sha_State s2, sha_pending s2)"
    using s2(4) by (simp only: absorb_append)
  then have "absorb step h (((m @ [0x80]) @ replicate ?z 0) @ length_bytes (sha_ByteCount s2)) = (sha_State s3, sha_pending s3)"
    using s3(2) by (simp only: absorb_append)
  ultimately show ?thesis using s1 s2 s3(1) by (simp add: sha_pad_def padded_def)
qed

end

sublocale sha_core \<subseteq> stream: block_digest step "sha_ok hlen" sha_State sha_pending
  "\<lambda>s. unat (sha_ByteCount s)" "2 ^ LENGTH('n)" "sha_update hashBlock"
  by unfold_locales (rule update_absorbs)

text \<open>The digest of a message as bytes, most significant byte of each word first.\<close>

definition digest_bytes :: "u32 list \<Rightarrow> u8 list" where
  "digest_bytes h = concat (map (\<lambda>w. rev (little_endian_store32 w)) h)"

context sha_core
begin

lemma digest:
  assumes ok: "sha_ok hlen s" and z: "sha_BufferOffset s = 0" "sha_ByteCount s = 0"
    and m_def: "m = concat ds"
    and D_def: "D = digest_bytes (fst (absorb step (sha_State s) (padded m (length_bytes (word_of_nat (length m))))))"
  shows "\<exists>s1 s2. foldE (sha_update hashBlock) s ds = Inr s1 \<and> sha_final hashBlock length_bytes s1 = Inr (D, s2)
      \<and> sha_result hashBlock length_bytes s1 = Inr (D, s1)"
proof -
  have p: "sha_pending s = []" using z(1) by (simp add: sha_pending_def)
  obtain s1 where s1: "foldE (sha_update hashBlock) s ds = Inr s1" "sha_ok hlen s1"
      "(sha_State s1, sha_pending s1) = absorb step (sha_State s) m"
      "unat (sha_ByteCount s1) mod 2 ^ LENGTH('n) = length m mod 2 ^ LENGTH('n)"
    using stream.updates_absorb [OF ok, of ds] p z by (auto simp: m_def)
  have "unat (sha_ByteCount s1) = unat (word_of_nat (length m) :: 'n word)"
    using s1(4) unat_less_2p [of "sha_ByteCount s1"] by (simp add: unat_of_nat)
  then have c: "sha_ByteCount s1 = word_of_nat (length m)" by (simp add: word_unat_eq_iff)
  obtain s2 where "sha_pad hashBlock length_bytes s1 = Inr s2"
      "(sha_State s2, sha_pending s2) = absorb step (sha_State s) (padded m (length_bytes (sha_ByteCount s1)))"
    using pad_absorbs [OF s1(2,3)] by blast
  then have "sha_final hashBlock length_bytes s1 = Inr (D, s2)"
    by (simp add: sha_final_def D_def c [symmetric] digest_bytes_def store_gbswap) (metis fst_conv)
  then show ?thesis using s1(1) by (simp add: sha_result_def)
qed

end

end
