(* ===== verification/Sha1.thy ===== *)
theory Sha1
  imports Digest_Stream
begin

text \<open>
  SHA1 (turbo/crypto/sha1.cc): the compression function with its 80 calls on renamed registers, which expands
  the message inside the buffer of the object, and the class around it, whose byte counter has 32 bits. The
  reference is FIPS 180-4.
\<close>

section \<open>The class\<close>

definition rol :: "u32 \<Rightarrow> nat \<Rightarrow> u32" where
  "rol Number Bits = push_bit Bits Number OR drop_bit (32 - Bits) Number"

definition blk0 :: "u8 list \<Rightarrow> nat \<Rightarrow> u32" where
  "blk0 Buf I = buffer_L Buf I"

definition blk :: "u8 list \<Rightarrow> nat \<Rightarrow> u32 \<times> u8 list" where
  "blk Buf I =
     (let Buf = buffer_set_L Buf (I AND 15)
            (rol (buffer_L Buf ((I + 13) AND 15) XOR buffer_L Buf ((I + 8) AND 15) XOR buffer_L Buf ((I + 2) AND 15)
                  XOR buffer_L Buf (I AND 15)) 1)
      in (buffer_L Buf (I AND 15), Buf))"

text \<open>
  The five step functions. The registers of \<open>hashBlock\<close> are the entries 0 to 4 of \<open>v\<close>; a call names the five
  it works on in \<open>r\<close>.
\<close>

datatype sha1_fn = R0 | R1 | R2 | R3 | R4

definition sha1_r0 :: "nat list \<Rightarrow> nat \<Rightarrow> u32 list \<times> u8 list \<Rightarrow> u32 list \<times> u8 list" where
  "sha1_r0 r I vb =
     (let (v, Buf) = vb; A = r ! 0; B = r ! 1; C = r ! 2; D = r ! 3; E = r ! 4;
          v = v[E := v ! E + (((v ! B AND (v ! C XOR v ! D)) XOR v ! D) + blk0 Buf I + 0x5A827999 + rol (v ! A) 5)];
          v = v[B := rol (v ! B) 30]
      in (v, Buf))"

definition sha1_r1 :: "nat list \<Rightarrow> nat \<Rightarrow> u32 list \<times> u8 list \<Rightarrow> u32 list \<times> u8 list" where
  "sha1_r1 r I vb =
     (let (v, Buf) = vb; A = r ! 0; B = r ! 1; C = r ! 2; D = r ! 3; E = r ! 4; (x, Buf) = blk Buf I;
          v = v[E := v ! E + (((v ! B AND (v ! C XOR v ! D)) XOR v ! D) + x + 0x5A827999 + rol (v ! A) 5)];
          v = v[B := rol (v ! B) 30]
      in (v, Buf))"

definition sha1_r2 :: "nat list \<Rightarrow> nat \<Rightarrow> u32 list \<times> u8 list \<Rightarrow> u32 list \<times> u8 list" where
  "sha1_r2 r I vb =
     (let (v, Buf) = vb; A = r ! 0; B = r ! 1; C = r ! 2; D = r ! 3; E = r ! 4; (x, Buf) = blk Buf I;
          v = v[E := v ! E + ((v ! B XOR v ! C XOR v ! D) + x + 0x6ED9EBA1 + rol (v ! A) 5)];
          v = v[B := rol (v ! B) 30]
      in (v, Buf))"

definition sha1_r3 :: "nat list \<Rightarrow> nat \<Rightarrow> u32 list \<times> u8 list \<Rightarrow> u32 list \<times> u8 list" where
  "sha1_r3 r I vb =
     (let (v, Buf) = vb; A = r ! 0; B = r ! 1; C = r ! 2; D = r ! 3; E = r ! 4; (x, Buf) = blk Buf I;
          v = v[E := v ! E + ((((v ! B OR v ! C) AND v ! D) OR (v ! B AND v ! C)) + x + 0x8F1BBCDC + rol (v ! A) 5)];
          v = v[B := rol (v ! B) 30]
      in (v, Buf))"

definition sha1_r4 :: "nat list \<Rightarrow> nat \<Rightarrow> u32 list \<times> u8 list \<Rightarrow> u32 list \<times> u8 list" where
  "sha1_r4 r I vb =
     (let (v, Buf) = vb; A = r ! 0; B = r ! 1; C = r ! 2; D = r ! 3; E = r ! 4; (x, Buf) = blk Buf I;
          v = v[E := v ! E + ((v ! B XOR v ! C XOR v ! D) + x + 0xCA62C1D6 + rol (v ! A) 5)];
          v = v[B := rol (v ! B) 30]
      in (v, Buf))"

fun sha1_call :: "sha1_fn \<times> nat list \<times> nat \<Rightarrow> u32 list \<times> u8 list \<Rightarrow> u32 list \<times> u8 list" where
  "sha1_call (R0, r, I) vb = sha1_r0 r I vb"
| "sha1_call (R1, r, I) vb = sha1_r1 r I vb"
| "sha1_call (R2, r, I) vb = sha1_r2 r I vb"
| "sha1_call (R3, r, I) vb = sha1_r3 r I vb"
| "sha1_call (R4, r, I) vb = sha1_r4 r I vb"

text \<open>The 80 calls, in the order of the source.\<close>

definition SHA1_calls :: "(sha1_fn \<times> nat list \<times> nat) list" where
  "SHA1_calls = [
    (R0, [0, 1, 2, 3, 4], 0),
    (R0, [4, 0, 1, 2, 3], 1),
    (R0, [3, 4, 0, 1, 2], 2),
    (R0, [2, 3, 4, 0, 1], 3),
    (R0, [1, 2, 3, 4, 0], 4),
    (R0, [0, 1, 2, 3, 4], 5),
    (R0, [4, 0, 1, 2, 3], 6),
    (R0, [3, 4, 0, 1, 2], 7),
    (R0, [2, 3, 4, 0, 1], 8),
    (R0, [1, 2, 3, 4, 0], 9),
    (R0, [0, 1, 2, 3, 4], 10),
    (R0, [4, 0, 1, 2, 3], 11),
    (R0, [3, 4, 0, 1, 2], 12),
    (R0, [2, 3, 4, 0, 1], 13),
    (R0, [1, 2, 3, 4, 0], 14),
    (R0, [0, 1, 2, 3, 4], 15),
    (R1, [4, 0, 1, 2, 3], 16),
    (R1, [3, 4, 0, 1, 2], 17),
    (R1, [2, 3, 4, 0, 1], 18),
    (R1, [1, 2, 3, 4, 0], 19),
    (R2, [0, 1, 2, 3, 4], 20),
    (R2, [4, 0, 1, 2, 3], 21),
    (R2, [3, 4, 0, 1, 2], 22),
    (R2, [2, 3, 4, 0, 1], 23),
    (R2, [1, 2, 3, 4, 0], 24),
    (R2, [0, 1, 2, 3, 4], 25),
    (R2, [4, 0, 1, 2, 3], 26),
    (R2, [3, 4, 0, 1, 2], 27),
    (R2, [2, 3, 4, 0, 1], 28),
    (R2, [1, 2, 3, 4, 0], 29),
    (R2, [0, 1, 2, 3, 4], 30),
    (R2, [4, 0, 1, 2, 3], 31),
    (R2, [3, 4, 0, 1, 2], 32),
    (R2, [2, 3, 4, 0, 1], 33),
    (R2, [1, 2, 3, 4, 0], 34),
    (R2, [0, 1, 2, 3, 4], 35),
    (R2, [4, 0, 1, 2, 3], 36),
    (R2, [3, 4, 0, 1, 2], 37),
    (R2, [2, 3, 4, 0, 1], 38),
    (R2, [1, 2, 3, 4, 0], 39),
    (R3, [0, 1, 2, 3, 4], 40),
    (R3, [4, 0, 1, 2, 3], 41),
    (R3, [3, 4, 0, 1, 2], 42),
    (R3, [2, 3, 4, 0, 1], 43),
    (R3, [1, 2, 3, 4, 0], 44),
    (R3, [0, 1, 2, 3, 4], 45),
    (R3, [4, 0, 1, 2, 3], 46),
    (R3, [3, 4, 0, 1, 2], 47),
    (R3, [2, 3, 4, 0, 1], 48),
    (R3, [1, 2, 3, 4, 0], 49),
    (R3, [0, 1, 2, 3, 4], 50),
    (R3, [4, 0, 1, 2, 3], 51),
    (R3, [3, 4, 0, 1, 2], 52),
    (R3, [2, 3, 4, 0, 1], 53),
    (R3, [1, 2, 3, 4, 0], 54),
    (R3, [0, 1, 2, 3, 4], 55),
    (R3, [4, 0, 1, 2, 3], 56),
    (R3, [3, 4, 0, 1, 2], 57),
    (R3, [2, 3, 4, 0, 1], 58),
    (R3, [1, 2, 3, 4, 0], 59),
    (R4, [0, 1, 2, 3, 4], 60),
    (R4, [4, 0, 1, 2, 3], 61),
    (R4, [3, 4, 0, 1, 2], 62),
    (R4, [2, 3, 4, 0, 1], 63),
    (R4, [1, 2, 3, 4, 0], 64),
    (R4, [0, 1, 2, 3, 4], 65),
    (R4, [4, 0, 1, 2, 3], 66),
    (R4, [3, 4, 0, 1, 2], 67),
    (R4, [2, 3, 4, 0, 1], 68),
    (R4, [1, 2, 3, 4, 0], 69),
    (R4, [0, 1, 2, 3, 4], 70),
    (R4, [4, 0, 1, 2, 3], 71),
    (R4, [3, 4, 0, 1, 2], 72),
    (R4, [2, 3, 4, 0, 1], 73),
    (R4, [1, 2, 3, 4, 0], 74),
    (R4, [0, 1, 2, 3, 4], 75),
    (R4, [4, 0, 1, 2, 3], 76),
    (R4, [3, 4, 0, 1, 2], 77),
    (R4, [2, 3, 4, 0, 1], 78),
    (R4, [1, 2, 3, 4, 0], 79)]"

type_synonym sha1 = "u32 sha_state"

definition SHA1_init :: "sha1 \<Rightarrow> sha1" where
  "SHA1_init s = s\<lparr>sha_State := [0x67452301, 0xefcdab89, 0x98badcfe, 0x10325476, 0xc3d2e1f0],
     sha_ByteCount := 0, sha_BufferOffset := 0\<rparr>"

definition SHA1_hashBlock :: "sha1 \<Rightarrow> sha1" where
  "SHA1_hashBlock s =
     (let (v, Buf) = fold sha1_call SHA1_calls (sha_State s, sha_C s)
      in s\<lparr>sha_C := Buf, sha_State := map2 (+) (sha_State s) v\<rparr>)"

definition SHA1_addUncounted :: "sha1 \<Rightarrow> u8 \<Rightarrow> fault + sha1" where
  "SHA1_addUncounted = sha_addUncounted SHA1_hashBlock"

definition SHA1_writebyte :: "sha1 \<Rightarrow> u8 \<Rightarrow> fault + sha1" where
  "SHA1_writebyte = sha_writebyte SHA1_hashBlock"

definition SHA1_update :: "sha1 \<Rightarrow> u8 list \<Rightarrow> fault + sha1" where
  "SHA1_update = sha_update SHA1_hashBlock"

definition SHA1_length_bytes :: "u32 \<Rightarrow> u8 list" where
  "SHA1_length_bytes ByteCount =
     [0, 0, 0, ucast (drop_bit 29 ByteCount), ucast (drop_bit 21 ByteCount), ucast (drop_bit 13 ByteCount),
      ucast (drop_bit 5 ByteCount), ucast (push_bit 3 ByteCount)]"

definition SHA1_pad :: "sha1 \<Rightarrow> fault + sha1" where
  "SHA1_pad = sha_pad SHA1_hashBlock SHA1_length_bytes"

definition SHA1_final :: "sha1 \<Rightarrow> fault + u8 list \<times> sha1" where
  "SHA1_final = sha_final SHA1_hashBlock SHA1_length_bytes"

definition SHA1_result :: "sha1 \<Rightarrow> fault + u8 list \<times> sha1" where
  "SHA1_result = sha_result SHA1_hashBlock SHA1_length_bytes"

definition SHA1_hash :: "sha1 \<Rightarrow> u8 list \<Rightarrow> fault + u8 list" where
  "SHA1_hash object Data =
     bindE (SHA1_update (SHA1_init object) Data) (\<lambda>s. bindE (SHA1_final s) (\<lambda>(Hash, _). Inr Hash))"

section \<open>The standard\<close>

definition fips1_f :: "nat \<Rightarrow> u32 \<Rightarrow> u32 \<Rightarrow> u32 \<Rightarrow> u32" where
  "fips1_f t x y z =
     (if t < 20 then (x AND y) XOR (NOT x AND z)
      else if t < 40 then x XOR y XOR z
      else if t < 60 then (x AND y) XOR (x AND z) XOR (y AND z)
      else x XOR y XOR z)"

definition fips1_K :: "nat \<Rightarrow> u32" where
  "fips1_K t = (if t < 20 then 0x5a827999 else if t < 40 then 0x6ed9eba1 else if t < 60 then 0x8f1bbcdc else 0xca62c1d6)"

definition fips1_H :: "u32 list" where
  "fips1_H = [0x67452301, 0xefcdab89, 0x98badcfe, 0x10325476, 0xc3d2e1f0]"

function fips1_W :: "u32 list \<Rightarrow> nat \<Rightarrow> u32" where
  "fips1_W M t =
     (if t < 16 then M ! t
      else word_rotl 1 (fips1_W M (t - 3) XOR fips1_W M (t - 8) XOR fips1_W M (t - 14) XOR fips1_W M (t - 16)))"
  by pat_completeness auto
termination by (relation "measure snd") auto

declare fips1_W.simps [simp del]

definition fips1_round :: "nat \<Rightarrow> u32 \<Rightarrow> u32 list \<Rightarrow> u32 list" where
  "fips1_round t W v =
     (let T = word_rotl 5 (v ! 0) + fips1_f t (v ! 1) (v ! 2) (v ! 3) + v ! 4 + fips1_K t + W
      in [T, v ! 0, word_rotl 30 (v ! 1), v ! 2, v ! 3])"

definition fips1_rounds :: "u32 list \<Rightarrow> u32 list \<Rightarrow> nat \<Rightarrow> u32 list" where
  "fips1_rounds M h n = fold (\<lambda>t. fips1_round t (fips1_W M t)) [0..<n] h"

definition fips1_compress :: "u32 list \<Rightarrow> u8 list \<Rightarrow> u32 list" where
  "fips1_compress h b = map2 (+) h (fips1_rounds (be_words b) h 80)"

definition fips_sha1 :: "u8 list \<Rightarrow> u8 list" where
  "fips_sha1 m = digest_bytes (fst (absorb fips1_compress fips1_H (padded m (be_bytes64 (8 * length m)))))"

section \<open>The compression function\<close>

definition sha1_fn_of :: "nat \<Rightarrow> sha1_fn" where
  "sha1_fn_of t = (if t < 16 then R0 else if t < 20 then R1 else if t < 40 then R2 else if t < 60 then R3 else R4)"

lemma SHA1_calls_table: "SHA1_calls = map (\<lambda>t. (sha1_fn_of t, map (\<lambda>j. (j + 4 * t) mod 5) [0..<5], t)) [0..<80]"
  by code_simp

lemma rol_word_rotl: "0 < n \<Longrightarrow> n < 32 \<Longrightarrow> rol x n = word_rotl n x"
  by (simp add: rol_def shifts_word_rotl)

lemma sha1_choice: "(b AND (c XOR d)) XOR d = (b AND c) XOR (NOT b AND d)" for b c d :: u32
  by (rule bit_word_eqI) (auto simp: bit_and_iff bit_xor_iff bit_not_iff)

lemma sha1_majority: "((b OR c) AND d) OR (b AND c) = (b AND c) XOR (b AND d) XOR (c AND d)" for b c d :: u32
  by (rule bit_word_eqI) (auto simp: bit_and_iff bit_xor_iff bit_or_iff)

lemma and_15: "n AND 15 = n mod (16 :: nat)"
  using take_bit_eq_mask [of 4 n] by (simp add: take_bit_eq_mod mask_eq_exp_minus_1)

text \<open>One call is one round on renamed registers, with the word that it takes from the buffer.\<close>

definition sha1_word :: "nat \<Rightarrow> u8 list \<Rightarrow> u32 \<times> u8 list" where
  "sha1_word t Buf = (if t < 16 then (blk0 Buf t, Buf) else blk Buf t)"

lemma length_fips1_round [simp]: "length (fips1_round t W v) = 5"
  by (simp add: fips1_round_def Let_def)

lemma list5: "length v = 5 \<Longrightarrow> \<exists>a b c d e. v = [a, b, c, d, e]"
  by (simp add: eval_nat_numeral length_Suc_conv) blast

lemma sha1_call_round:
  assumes "length v = 5" "sha1_word t Buf = (x, Buf')"
  shows "sha1_call (sha1_fn_of t, map (\<lambda>j. (j + 4 * t) mod 5) [0..<5], t) (rotate t v, Buf) =
    (rotate (Suc t) (fips1_round t x v), Buf')"
proof -
  obtain a b c d e where v: "v = [a, b, c, d, e]" using list5 [OF assms(1)] by blast
  have m: "map (\<lambda>j. (j + 4 * t) mod 5) [0..<5] = map (\<lambda>j. (j + 4 * (t mod 5)) mod 5) [0..<5]"
    by (intro map_cong refl) (metis mod_add_right_eq mod_mult_right_eq)
  have r: "rotate t v = rotate (t mod 5) v" "rotate (Suc t) (fips1_round t x v) = rotate (Suc (t mod 5)) (fips1_round t x v)"
    using rotate_conv_mod [of t v] rotate_conv_mod [of "Suc t" "fips1_round t x v"]
      rotate_conv_mod [of "Suc (t mod 5)" "fips1_round t x v"] assms(1) by (simp_all add: mod_Suc_eq)
  consider "t mod 5 = 0" | "t mod 5 = 1" | "t mod 5 = 2" | "t mod 5 = 3" | "t mod 5 = 4" by linarith
  then show ?thesis using assms(2) unfolding m r
    by cases (auto simp: sha1_word_def sha1_fn_of_def sha1_r0_def sha1_r1_def sha1_r2_def sha1_r3_def sha1_r4_def Let_def v
        fips1_round_def fips1_f_def fips1_K_def rol_word_rotl sha1_choice sha1_majority rotate_drop_take
        add.assoc add.commute add.left_commute split: if_splits)
qed

lemma sha1_word_schedule:
  assumes "length C = 64" and w: "window (fips1_W M) (t - 16) (map (buffer_L C) [0..<16])"
  shows "\<exists>C'. sha1_word t C = (fips1_W M t, C') \<and> length C' = 64 \<and> window (fips1_W M) (Suc t - 16) (map (buffer_L C') [0..<16])"
proof (cases "t < 16")
  case True
  then show ?thesis using window_nth [OF w, of t] assms by (simp add: sha1_word_def blk0_def)
next
  case False
  let ?w = "map (buffer_L C) [0..<16]"
  let ?x = "rol (buffer_L C ((t + 13) mod 16) XOR buffer_L C ((t + 8) mod 16) XOR buffer_L C ((t + 2) mod 16) XOR buffer_L C (t mod 16)) 1"
  define u where "u = t - 16"
  have t: "t = u + 16" using False by (simp add: u_def)
  have "?w ! ((t + k) mod 16) = fips1_W M (u + k)" if "k < 16" for k
    using window_nth [OF w, of k] that mod_add_self2 [of "u + k" 16] by (simp add: t ac_simps)
  from this [of 13] this [of 8] this [of 2] this [of 0] have x: "?x = fips1_W M t"
    by (subst fips1_W.simps) (simp add: t rol_word_rotl add.commute)
  have "map (buffer_L (buffer_set_L C (t mod 16) ?x)) [0..<16] = ?w[t mod 16 := ?x]" using assms(1) by (simp add: buffer_words_set)
  moreover have "window (fips1_W M) (Suc u) (?w[u mod 16 := ?x])"
    by (rule window_step) (use w x in \<open>simp_all only: u_def [symmetric] t [symmetric]\<close>)
  moreover have "sha1_word t C = (?x, buffer_set_L C (t mod 16) ?x)"
    using arg_cong [OF calculation(1), of "\<lambda>w. w ! (t mod 16)"] False by (simp add: sha1_word_def blk_def and_15 Let_def)
  moreover have "u mod 16 = t mod 16" "Suc t - 16 = Suc u" by (simp_all add: t)
  ultimately show ?thesis using assms(1) x by simp
qed

lemma length_fips1_rounds [simp]: "length h = 5 \<Longrightarrow> length (fips1_rounds M h n) = 5"
  by (induction n) (simp_all add: fips1_rounds_def)

lemma sha1_calls_are_rounds:
  assumes "length h = 5" "length C = 64" "n \<le> 80" and M: "M = map (buffer_L C) [0..<16]"
  shows "\<exists>C'. fold sha1_call (take n SHA1_calls) (h, C) = (rotate n (fips1_rounds M h n), C') \<and> length C' = 64
     \<and> window (fips1_W M) (n - 16) (map (buffer_L C') [0..<16])"
  using assms(3)
proof (induction n)
  case 0
  have "fips1_W M i = M ! i" if "i < 16" for i using that by (subst fips1_W.simps) simp
  then show ?case using assms window_init [of M "fips1_W M"] by (simp add: fips1_rounds_def)
next
  case (Suc n)
  let ?v = "fips1_rounds M h n"
  obtain C1 where c1: "fold sha1_call (take n SHA1_calls) (h, C) = (rotate n ?v, C1)" "length C1 = 64"
      "window (fips1_W M) (n - 16) (map (buffer_L C1) [0..<16])" using Suc by auto
  obtain C2 where c2: "sha1_word n C1 = (fips1_W M n, C2)" "length C2 = 64" "window (fips1_W M) (Suc n - 16) (map (buffer_L C2) [0..<16])"
    using sha1_word_schedule [OF c1(2,3)] by blast
  have "n < length SHA1_calls" using Suc.prems by (simp add: SHA1_calls_table)
  then have "fold sha1_call (take (Suc n) SHA1_calls) (h, C) = sha1_call (SHA1_calls ! n) (rotate n ?v, C1)"
    by (simp add: take_Suc_conv_app_nth c1(1))
  also have "\<dots> = (rotate (Suc n) (fips1_round n (fips1_W M n) ?v), C2)"
    using Suc.prems sha1_call_round [of ?v n C1, OF _ c2(1)] assms(1) by (simp add: SHA1_calls_table del: sha1_call.simps)
  finally show ?case using c2(2,3) by (simp add: fips1_rounds_def)
qed

lemma SHA1_hashBlock_eq:
  assumes "length (sha_C s) = 64" "length (sha_State s) = 5"
  shows "\<exists>C'. SHA1_hashBlock s = s\<lparr>sha_C := C', sha_State := fips1_compress (sha_State s) (block_bytes (sha_C s))\<rparr> \<and> length C' = 64"
proof -
  let ?M = "map (buffer_L (sha_C s)) [0..<16]"
  obtain C' where "fold sha1_call (take 80 SHA1_calls) (sha_State s, sha_C s) = (rotate 80 (fips1_rounds ?M (sha_State s) 80), C')" "length C' = 64"
    using sha1_calls_are_rounds [of "sha_State s" "sha_C s" 80 ?M] assms by auto
  moreover have "take 80 SHA1_calls = SHA1_calls" by (simp add: SHA1_calls_table)
  moreover have "rotate 80 (fips1_rounds ?M (sha_State s) 80) = fips1_rounds ?M (sha_State s) 80"
    using rotate_conv_mod [of 80 "fips1_rounds ?M (sha_State s) 80"] assms by simp
  ultimately show ?thesis by (auto simp: SHA1_hashBlock_def fips1_compress_def be_words_block_bytes)
qed

interpretation sha1: sha_core SHA1_hashBlock fips1_compress 5
proof
  fix s :: sha1
  assume "length (sha_C s) = 64" "length (sha_State s) = 5"
  from SHA1_hashBlock_eq [OF this] this
  show "sha_State (SHA1_hashBlock s) = fips1_compress (sha_State s) (block_bytes (sha_C s)) \<and> length (sha_C (SHA1_hashBlock s)) = 64
      \<and> length (fips1_compress (sha_State s) (block_bytes (sha_C s))) = 5
      \<and> sha_ByteCount (SHA1_hashBlock s) = sha_ByteCount s \<and> sha_BufferOffset (SHA1_hashBlock s) = sha_BufferOffset s"
    by (auto simp: fips1_compress_def)
qed

section \<open>The digest\<close>

text \<open>The counter has 32 bits: the length that is hashed is the one modulo \<open>2^32\<close> bytes.\<close>

lemma SHA1_length_bytes_eq: "SHA1_length_bytes (word_of_nat n) = be_bytes64 (8 * (n mod 2 ^ 32))"
proof -
  define m where "m = n mod 2 ^ 32"
  have m: "m < 4294967296" "word_of_nat n = (word_of_nat m :: u32)" by (simp_all add: m_def word_of_nat_eq_iff take_bit_eq_mod)
  have b: "(ucast (drop_bit j (word_of_nat m :: u32)) :: u8) = word_of_nat (m div 2 ^ j)" for j
  proof -
    have "m div 2 ^ j = unat (drop_bit j (word_of_nat m :: u32))" using m(1) by (simp add: unat_drop_bit unat_of_nat)
    then show ?thesis by (simp add: word_unat_eq_iff unat_ucast_mod unat_of_nat)
  qed
  have l: "(ucast (push_bit 3 (word_of_nat m :: u32)) :: u8) = word_of_nat (8 * m)"
    using byte_of_word [where 'n = 32 and k = 0 and n = "8 * m"] by (simp add: push_bit_eq_mult mult.commute)
  have z: "8 * m div 1099511627776 = 0" "8 * m div 281474976710656 = 0" "8 * m div 72057594037927936 = 0" using m(1) by simp_all
  have "8 * m div 4294967296 = m div 2 ^ 29" "8 * m div 16777216 = m div 2 ^ 21" "8 * m div 65536 = m div 2 ^ 13" "8 * m div 256 = m div 2 ^ 5"
    using div_mult_mult1 [of 8 m "2 ^ 29"] div_mult_mult1 [of 8 m "2 ^ 21"] div_mult_mult1 [of 8 m "2 ^ 13"] div_mult_mult1 [of 8 m "2 ^ 5"]
    by simp_all
  then show ?thesis unfolding m(2) m_def [symmetric] SHA1_length_bytes_def b l be_bytes64_def
    by (simp add: upt_rec z del: of_nat_mult)
qed

text \<open>C15: Whatever the buffer of the object held, and however the message is cut into the pieces given to
  \<open>update\<close>, both \<open>final\<close> and \<open>result\<close> give the SHA-1 digest of the concatenated message as FIPS 180-4
  defines it when the message has fewer than \<open>2^32\<close> bytes; \<open>result\<close> leaves the object as it was.\<close>

theorem sha1_correct:
  assumes "length (sha_C object) = 64" "length (concat ds) < 2 ^ 32"
  shows "\<exists>s s'. foldE SHA1_update (SHA1_init object) ds = Inr s
     \<and> SHA1_final s = Inr (fips_sha1 (concat ds), s') \<and> SHA1_result s = Inr (fips_sha1 (concat ds), s)
     \<and> SHA1_hash object (concat ds) = Inr (fips_sha1 (concat ds))"
proof -
  let ?s = "SHA1_init object"
  have ok: "sha_ok 5 ?s" "sha_BufferOffset ?s = 0" "sha_ByteCount ?s = 0" "sha_State ?s = fips1_H"
    using assms by (simp_all add: SHA1_init_def sha_ok_def fips1_H_def)
  have D: "fips_sha1 (concat ds) = digest_bytes (fst (absorb fips1_compress (sha_State ?s)
      (padded (concat ds) (SHA1_length_bytes (word_of_nat (length (concat ds)))))))"
    unfolding fips_sha1_def ok(4) SHA1_length_bytes_eq using assms(2) by simp
  show ?thesis using sha1.digest [where length_bytes = SHA1_length_bytes, OF ok(1-3) refl D]
      sha1.digest [where length_bytes = SHA1_length_bytes and ds = "[concat ds]", OF ok(1-3) _ D]
    by (auto simp: SHA1_update_def SHA1_final_def SHA1_result_def SHA1_hash_def bindE_eq_Inr)
qed

theorem sha1_correct_witness:
  "length (sha_C \<lparr>sha_C = replicate 64 7, sha_State = [], sha_ByteCount = 0 :: u32, sha_BufferOffset = 0\<rparr>) = 64
    \<and> length (concat [[97], [98, 99 :: u8]]) < 2 ^ 32
    \<and> SHA1_hash \<lparr>sha_C = replicate 64 7, sha_State = [], sha_ByteCount = 0, sha_BufferOffset = 0\<rparr> [97, 98, 99] = Inr (fips_sha1 [97, 98, 99])"
proof -
  let ?o = "\<lparr>sha_C = replicate 64 7, sha_State = [], sha_ByteCount = 0 :: u32, sha_BufferOffset = 0\<rparr>"
  have l: "length (sha_C ?o) = 64" "length (concat [[97], [98, 99 :: u8]]) < 2 ^ 32" by simp_all
  then show ?thesis using sha1_correct [OF l] by auto
qed

end
