(* ===== verification/Sha256.thy ===== *)
theory Sha256
  imports Digest_Stream
begin

text \<open>
  SHA256 (turbo/crypto/sha256.cc): the compression function with its 64 macro calls on renamed registers and
  a window of 16 message words, and the class around it, whose byte counter has 32 bits. The reference is the standard, FIPS 180-4: a message
  schedule of 64 words and eight registers that shift.
\<close>

section \<open>The class\<close>

definition SHR :: "u32 \<Rightarrow> nat \<Rightarrow> u32" where
  "SHR x c = drop_bit c x"

definition ROTR :: "u32 \<Rightarrow> nat \<Rightarrow> u32" where
  "ROTR x n = drop_bit n x OR push_bit (32 - n) x"

definition CH :: "u32 \<Rightarrow> u32 \<Rightarrow> u32 \<Rightarrow> u32" where
  "CH x y z = (x AND y) XOR (NOT x AND z)"

definition MAJ :: "u32 \<Rightarrow> u32 \<Rightarrow> u32 \<Rightarrow> u32" where
  "MAJ x y z = (x AND y) XOR (x AND z) XOR (y AND z)"

definition SIGMA_0 :: "u32 \<Rightarrow> u32" where
  "SIGMA_0 x = ROTR x 2 XOR ROTR x 13 XOR ROTR x 22"

definition SIGMA_1 :: "u32 \<Rightarrow> u32" where
  "SIGMA_1 x = ROTR x 6 XOR ROTR x 11 XOR ROTR x 25"

definition SIGMA_2 :: "u32 \<Rightarrow> u32" where
  "SIGMA_2 x = ROTR x 17 XOR ROTR x 19 XOR SHR x 10"

definition SIGMA_3 :: "u32 \<Rightarrow> u32" where
  "SIGMA_3 x = ROTR x 7 XOR ROTR x 18 XOR SHR x 3"

text \<open>
  The macro \<open>F_EXPAND\<close>: the registers \<open>A\<close> to \<open>H\<close> of the function are the entries 0 to 7 of \<open>v\<close>, the words
  \<open>W00\<close> to \<open>W15\<close> are those of \<open>w\<close>, and the arguments of a call name them.
\<close>

type_synonym sha256_call = "nat list \<times> (nat \<times> nat \<times> nat \<times> nat) \<times> u32"

definition F_EXPAND :: "sha256_call \<Rightarrow> u32 list \<times> u32 list \<Rightarrow> u32 list \<times> u32 list" where
  "F_EXPAND call vw =
     (let (r, (M1, M2, M3, M4), k) = call; (v, w) = vw;
          A = r ! 0; B = r ! 1; C = r ! 2; D = r ! 3; E = r ! 4; F = r ! 5; G = r ! 6; H = r ! 7;
          v = v[H := v ! H + (SIGMA_1 (v ! E) + CH (v ! E) (v ! F) (v ! G) + w ! M1 + k)];
          v = v[D := v ! D + v ! H];
          v = v[H := v ! H + (SIGMA_0 (v ! A) + MAJ (v ! A) (v ! B) (v ! C))];
          w = w[M1 := w ! M1 + (SIGMA_2 (w ! M2) + w ! M3 + SIGMA_3 (w ! M4))]
      in (v, w))"

text \<open>The 64 calls, in the order of the source.\<close>

definition SHA256_calls :: "sha256_call list" where
  "SHA256_calls = [
    ([0, 1, 2, 3, 4, 5, 6, 7], (0, 14, 9, 1), 0x428A2F98),
    ([7, 0, 1, 2, 3, 4, 5, 6], (1, 15, 10, 2), 0x71374491),
    ([6, 7, 0, 1, 2, 3, 4, 5], (2, 0, 11, 3), 0xB5C0FBCF),
    ([5, 6, 7, 0, 1, 2, 3, 4], (3, 1, 12, 4), 0xE9B5DBA5),
    ([4, 5, 6, 7, 0, 1, 2, 3], (4, 2, 13, 5), 0x3956C25B),
    ([3, 4, 5, 6, 7, 0, 1, 2], (5, 3, 14, 6), 0x59F111F1),
    ([2, 3, 4, 5, 6, 7, 0, 1], (6, 4, 15, 7), 0x923F82A4),
    ([1, 2, 3, 4, 5, 6, 7, 0], (7, 5, 0, 8), 0xAB1C5ED5),
    ([0, 1, 2, 3, 4, 5, 6, 7], (8, 6, 1, 9), 0xD807AA98),
    ([7, 0, 1, 2, 3, 4, 5, 6], (9, 7, 2, 10), 0x12835B01),
    ([6, 7, 0, 1, 2, 3, 4, 5], (10, 8, 3, 11), 0x243185BE),
    ([5, 6, 7, 0, 1, 2, 3, 4], (11, 9, 4, 12), 0x550C7DC3),
    ([4, 5, 6, 7, 0, 1, 2, 3], (12, 10, 5, 13), 0x72BE5D74),
    ([3, 4, 5, 6, 7, 0, 1, 2], (13, 11, 6, 14), 0x80DEB1FE),
    ([2, 3, 4, 5, 6, 7, 0, 1], (14, 12, 7, 15), 0x9BDC06A7),
    ([1, 2, 3, 4, 5, 6, 7, 0], (15, 13, 8, 0), 0xC19BF174),
    ([0, 1, 2, 3, 4, 5, 6, 7], (0, 14, 9, 1), 0xE49B69C1),
    ([7, 0, 1, 2, 3, 4, 5, 6], (1, 15, 10, 2), 0xEFBE4786),
    ([6, 7, 0, 1, 2, 3, 4, 5], (2, 0, 11, 3), 0x0FC19DC6),
    ([5, 6, 7, 0, 1, 2, 3, 4], (3, 1, 12, 4), 0x240CA1CC),
    ([4, 5, 6, 7, 0, 1, 2, 3], (4, 2, 13, 5), 0x2DE92C6F),
    ([3, 4, 5, 6, 7, 0, 1, 2], (5, 3, 14, 6), 0x4A7484AA),
    ([2, 3, 4, 5, 6, 7, 0, 1], (6, 4, 15, 7), 0x5CB0A9DC),
    ([1, 2, 3, 4, 5, 6, 7, 0], (7, 5, 0, 8), 0x76F988DA),
    ([0, 1, 2, 3, 4, 5, 6, 7], (8, 6, 1, 9), 0x983E5152),
    ([7, 0, 1, 2, 3, 4, 5, 6], (9, 7, 2, 10), 0xA831C66D),
    ([6, 7, 0, 1, 2, 3, 4, 5], (10, 8, 3, 11), 0xB00327C8),
    ([5, 6, 7, 0, 1, 2, 3, 4], (11, 9, 4, 12), 0xBF597FC7),
    ([4, 5, 6, 7, 0, 1, 2, 3], (12, 10, 5, 13), 0xC6E00BF3),
    ([3, 4, 5, 6, 7, 0, 1, 2], (13, 11, 6, 14), 0xD5A79147),
    ([2, 3, 4, 5, 6, 7, 0, 1], (14, 12, 7, 15), 0x06CA6351),
    ([1, 2, 3, 4, 5, 6, 7, 0], (15, 13, 8, 0), 0x14292967),
    ([0, 1, 2, 3, 4, 5, 6, 7], (0, 14, 9, 1), 0x27B70A85),
    ([7, 0, 1, 2, 3, 4, 5, 6], (1, 15, 10, 2), 0x2E1B2138),
    ([6, 7, 0, 1, 2, 3, 4, 5], (2, 0, 11, 3), 0x4D2C6DFC),
    ([5, 6, 7, 0, 1, 2, 3, 4], (3, 1, 12, 4), 0x53380D13),
    ([4, 5, 6, 7, 0, 1, 2, 3], (4, 2, 13, 5), 0x650A7354),
    ([3, 4, 5, 6, 7, 0, 1, 2], (5, 3, 14, 6), 0x766A0ABB),
    ([2, 3, 4, 5, 6, 7, 0, 1], (6, 4, 15, 7), 0x81C2C92E),
    ([1, 2, 3, 4, 5, 6, 7, 0], (7, 5, 0, 8), 0x92722C85),
    ([0, 1, 2, 3, 4, 5, 6, 7], (8, 6, 1, 9), 0xA2BFE8A1),
    ([7, 0, 1, 2, 3, 4, 5, 6], (9, 7, 2, 10), 0xA81A664B),
    ([6, 7, 0, 1, 2, 3, 4, 5], (10, 8, 3, 11), 0xC24B8B70),
    ([5, 6, 7, 0, 1, 2, 3, 4], (11, 9, 4, 12), 0xC76C51A3),
    ([4, 5, 6, 7, 0, 1, 2, 3], (12, 10, 5, 13), 0xD192E819),
    ([3, 4, 5, 6, 7, 0, 1, 2], (13, 11, 6, 14), 0xD6990624),
    ([2, 3, 4, 5, 6, 7, 0, 1], (14, 12, 7, 15), 0xF40E3585),
    ([1, 2, 3, 4, 5, 6, 7, 0], (15, 13, 8, 0), 0x106AA070),
    ([0, 1, 2, 3, 4, 5, 6, 7], (0, 14, 9, 1), 0x19A4C116),
    ([7, 0, 1, 2, 3, 4, 5, 6], (1, 15, 10, 2), 0x1E376C08),
    ([6, 7, 0, 1, 2, 3, 4, 5], (2, 0, 11, 3), 0x2748774C),
    ([5, 6, 7, 0, 1, 2, 3, 4], (3, 1, 12, 4), 0x34B0BCB5),
    ([4, 5, 6, 7, 0, 1, 2, 3], (4, 2, 13, 5), 0x391C0CB3),
    ([3, 4, 5, 6, 7, 0, 1, 2], (5, 3, 14, 6), 0x4ED8AA4A),
    ([2, 3, 4, 5, 6, 7, 0, 1], (6, 4, 15, 7), 0x5B9CCA4F),
    ([1, 2, 3, 4, 5, 6, 7, 0], (7, 5, 0, 8), 0x682E6FF3),
    ([0, 1, 2, 3, 4, 5, 6, 7], (8, 6, 1, 9), 0x748F82EE),
    ([7, 0, 1, 2, 3, 4, 5, 6], (9, 7, 2, 10), 0x78A5636F),
    ([6, 7, 0, 1, 2, 3, 4, 5], (10, 8, 3, 11), 0x84C87814),
    ([5, 6, 7, 0, 1, 2, 3, 4], (11, 9, 4, 12), 0x8CC70208),
    ([4, 5, 6, 7, 0, 1, 2, 3], (12, 10, 5, 13), 0x90BEFFFA),
    ([3, 4, 5, 6, 7, 0, 1, 2], (13, 11, 6, 14), 0xA4506CEB),
    ([2, 3, 4, 5, 6, 7, 0, 1], (14, 12, 7, 15), 0xBEF9A3F7),
    ([1, 2, 3, 4, 5, 6, 7, 0], (15, 13, 8, 0), 0xC67178F2)]"

type_synonym sha256 = "u32 sha_state"

definition SHA256_init :: "sha256 \<Rightarrow> sha256" where
  "SHA256_init s = s\<lparr>
     sha_State := [0x6A09E667, 0xBB67AE85, 0x3C6EF372, 0xA54FF53A, 0x510E527F, 0x9B05688C, 0x1F83D9AB, 0x5BE0CD19],
     sha_ByteCount := 0, sha_BufferOffset := 0\<rparr>"

definition SHA256_hashBlock :: "sha256 \<Rightarrow> sha256" where
  "SHA256_hashBlock s =
     (let (v, w) = fold F_EXPAND SHA256_calls (sha_State s, map (buffer_L (sha_C s)) [0..<16])
      in s\<lparr>sha_State := map2 (+) (sha_State s) v\<rparr>)"

definition SHA256_addUncounted :: "sha256 \<Rightarrow> u8 \<Rightarrow> fault + sha256" where
  "SHA256_addUncounted = sha_addUncounted SHA256_hashBlock"

definition SHA256_writebyte :: "sha256 \<Rightarrow> u8 \<Rightarrow> fault + sha256" where
  "SHA256_writebyte = sha_writebyte SHA256_hashBlock"

definition SHA256_update :: "sha256 \<Rightarrow> u8 list \<Rightarrow> fault + sha256" where
  "SHA256_update = sha_update SHA256_hashBlock"

text \<open>
  The length in bits, most significant byte first. \<open>ByteCount\<close> has 32 bits, so the shift is one of 32 bits; the
  result is then widened to the 64 bits of \<open>len\<close>.
\<close>

definition SHA256_length_bytes :: "u32 \<Rightarrow> u8 list" where
  "SHA256_length_bytes ByteCount =
     (let len = (ucast (push_bit 3 ByteCount) :: u64) in
      [ucast (drop_bit 56 len), ucast (drop_bit 48 len), ucast (drop_bit 40 len), ucast (drop_bit 32 len),
       ucast (drop_bit 24 len), ucast (drop_bit 16 len), ucast (drop_bit 8 len), ucast len])"

definition SHA256_pad :: "sha256 \<Rightarrow> fault + sha256" where
  "SHA256_pad = sha_pad SHA256_hashBlock SHA256_length_bytes"

definition SHA256_final :: "sha256 \<Rightarrow> fault + u8 list \<times> sha256" where
  "SHA256_final = sha_final SHA256_hashBlock SHA256_length_bytes"

definition SHA256_result :: "sha256 \<Rightarrow> fault + u8 list \<times> sha256" where
  "SHA256_result = sha_result SHA256_hashBlock SHA256_length_bytes"

text \<open>\<open>hash\<close> of one array; the object it creates has an uninitialised buffer.\<close>

definition SHA256_hash :: "sha256 \<Rightarrow> u8 list \<Rightarrow> fault + u8 list" where
  "SHA256_hash object Data =
     bindE (SHA256_update (SHA256_init object) Data) (\<lambda>s. bindE (SHA256_final s) (\<lambda>(Hash, _). Inr Hash))"

section \<open>The standard\<close>

definition fips256_K :: "u32 list" where
  "fips256_K = [
    0x428A2F98, 0x71374491, 0xB5C0FBCF, 0xE9B5DBA5, 0x3956C25B, 0x59F111F1, 0x923F82A4, 0xAB1C5ED5,
    0xD807AA98, 0x12835B01, 0x243185BE, 0x550C7DC3, 0x72BE5D74, 0x80DEB1FE, 0x9BDC06A7, 0xC19BF174,
    0xE49B69C1, 0xEFBE4786, 0x0FC19DC6, 0x240CA1CC, 0x2DE92C6F, 0x4A7484AA, 0x5CB0A9DC, 0x76F988DA,
    0x983E5152, 0xA831C66D, 0xB00327C8, 0xBF597FC7, 0xC6E00BF3, 0xD5A79147, 0x06CA6351, 0x14292967,
    0x27B70A85, 0x2E1B2138, 0x4D2C6DFC, 0x53380D13, 0x650A7354, 0x766A0ABB, 0x81C2C92E, 0x92722C85,
    0xA2BFE8A1, 0xA81A664B, 0xC24B8B70, 0xC76C51A3, 0xD192E819, 0xD6990624, 0xF40E3585, 0x106AA070,
    0x19A4C116, 0x1E376C08, 0x2748774C, 0x34B0BCB5, 0x391C0CB3, 0x4ED8AA4A, 0x5B9CCA4F, 0x682E6FF3,
    0x748F82EE, 0x78A5636F, 0x84C87814, 0x8CC70208, 0x90BEFFFA, 0xA4506CEB, 0xBEF9A3F7, 0xC67178F2]"

definition fips256_H :: "u32 list" where
  "fips256_H = [0x6A09E667, 0xBB67AE85, 0x3C6EF372, 0xA54FF53A, 0x510E527F, 0x9B05688C, 0x1F83D9AB, 0x5BE0CD19]"

definition fips256_Sigma0 :: "u32 \<Rightarrow> u32" where
  "fips256_Sigma0 x = word_rotr 2 x XOR word_rotr 13 x XOR word_rotr 22 x"

definition fips256_Sigma1 :: "u32 \<Rightarrow> u32" where
  "fips256_Sigma1 x = word_rotr 6 x XOR word_rotr 11 x XOR word_rotr 25 x"

definition fips256_sigma0 :: "u32 \<Rightarrow> u32" where
  "fips256_sigma0 x = word_rotr 7 x XOR word_rotr 18 x XOR drop_bit 3 x"

definition fips256_sigma1 :: "u32 \<Rightarrow> u32" where
  "fips256_sigma1 x = word_rotr 17 x XOR word_rotr 19 x XOR drop_bit 10 x"

text \<open>The message schedule.\<close>

function fips256_W :: "u32 list \<Rightarrow> nat \<Rightarrow> u32" where
  "fips256_W M t =
     (if t < 16 then M ! t
      else fips256_sigma1 (fips256_W M (t - 2)) + fips256_W M (t - 7)
         + fips256_sigma0 (fips256_W M (t - 15)) + fips256_W M (t - 16))"
  by pat_completeness auto
termination by (relation "measure snd") auto

declare fips256_W.simps [simp del]

definition fips256_round :: "u32 \<Rightarrow> u32 \<Rightarrow> u32 list \<Rightarrow> u32 list" where
  "fips256_round K W v =
     (let T1 = v ! 7 + fips256_Sigma1 (v ! 4) + ((v ! 4 AND v ! 5) XOR (NOT (v ! 4) AND v ! 6)) + K + W;
          T2 = fips256_Sigma0 (v ! 0) + ((v ! 0 AND v ! 1) XOR (v ! 0 AND v ! 2) XOR (v ! 1 AND v ! 2))
      in [T1 + T2, v ! 0, v ! 1, v ! 2, v ! 3 + T1, v ! 4, v ! 5, v ! 6])"

definition fips256_rounds :: "u32 list \<Rightarrow> u32 list \<Rightarrow> nat \<Rightarrow> u32 list" where
  "fips256_rounds M h n = fold (\<lambda>t. fips256_round (fips256_K ! t) (fips256_W M t)) [0..<n] h"

definition fips256_compress :: "u32 list \<Rightarrow> u8 list \<Rightarrow> u32 list" where
  "fips256_compress h b = map2 (+) h (fips256_rounds (be_words b) h 64)"

definition fips_sha256 :: "u8 list \<Rightarrow> u8 list" where
  "fips_sha256 m = digest_bytes (fst (absorb fips256_compress fips256_H (padded m (be_bytes64 (8 * length m)))))"

text \<open>The constants are the first 32 bits of the fractional parts of the cube roots of the first 64 primes.\<close>

definition cube_root_bits :: "nat \<Rightarrow> nat \<Rightarrow> bool" where
  "cube_root_bits p k \<longleftrightarrow> (\<exists>q < 7. (q * 2 ^ 32 + k) ^ 3 \<le> p * 2 ^ 96 \<and> p * 2 ^ 96 < (q * 2 ^ 32 + k + 1) ^ 3)"

lemma ex_less_7: "(\<exists>q < 7. P q) \<longleftrightarrow> P 0 \<or> P 1 \<or> P 2 \<or> P 3 \<or> P 4 \<or> P 5 \<or> P (6 :: nat)"
  by (auto simp: less_Suc_eq numeral_eq_Suc)

lemma fips256_K_cube_roots:
  "list_all2 (\<lambda>p k. cube_root_bits p (unat k)) ([2, 3, 5, 7, 11, 13, 17, 19, 23, 29, 31, 37, 41, 43, 47, 53, 59, 61, 67, 71, 73, 79, 83, 89, 97, 101, 103, 107, 109, 113, 127, 131, 137, 139, 149, 151, 157, 163, 167, 173, 179, 181, 191, 193, 197, 199, 211, 223, 227, 229, 233, 239, 241, 251, 257, 263, 269, 271, 277, 281, 283, 293, 307, 311]) fips256_K"
  by (simp add: fips256_K_def cube_root_bits_def ex_less_7)

section \<open>The compression function\<close>

lemma SHA256_calls_table:
  "SHA256_calls = map (\<lambda>t. (map (\<lambda>j. (j + 7 * t) mod 8) [0..<8],
     (t mod 16, (t + 14) mod 16, (t + 9) mod 16, (t + 1) mod 16), fips256_K ! t)) [0..<64]"
  by code_simp

lemma ROTR_word_rotr: "0 < n \<Longrightarrow> n < 32 \<Longrightarrow> ROTR x n = word_rotr n x"
  by (simp add: ROTR_def shifts_word_rotr)

lemma sigmas:
  "SIGMA_0 x = fips256_Sigma0 x" "SIGMA_1 x = fips256_Sigma1 x" "SIGMA_2 x = fips256_sigma1 x" "SIGMA_3 x = fips256_sigma0 x"
  by (simp_all add: SIGMA_0_def SIGMA_1_def SIGMA_2_def SIGMA_3_def fips256_Sigma0_def fips256_Sigma1_def
      fips256_sigma0_def fips256_sigma1_def ROTR_word_rotr SHR_def)

lemma length_fips256_round [simp]: "length (fips256_round K W v) = 8"
  by (simp add: fips256_round_def Let_def)

text \<open>One call is one round: the registers of the standard are those of the code, renamed.\<close>

lemma list8: "length v = 8 \<Longrightarrow> \<exists>a b c d e f g h. v = [a, b, c, d, e, f, g, h]"
  by (simp add: eval_nat_numeral length_Suc_conv) blast

lemma F_EXPAND_round:
  assumes "length v = 8" "length w = 16"
  shows "F_EXPAND (map (\<lambda>j. (j + 7 * t) mod 8) [0..<8], (M1, M2, M3, M4), k) (rotate t v, w) =
    (rotate (Suc t) (fips256_round k (w ! M1) v), w[M1 := w ! M1 + (SIGMA_2 (w ! M2) + w ! M3 + SIGMA_3 (w ! M4))])"
proof -
  obtain a b c d e f g h where v: "v = [a, b, c, d, e, f, g, h]" using list8 [OF assms(1)] by blast
  have m: "map (\<lambda>j. (j + 7 * t) mod 8) [0..<8] = map (\<lambda>j. (j + 7 * (t mod 8)) mod 8) [0..<8]"
    by (intro map_cong refl) (metis mod_add_right_eq mod_mult_right_eq)
  have r: "rotate t v = rotate (t mod 8) v" "rotate (Suc t) (fips256_round k (w ! M1) v) = rotate (Suc (t mod 8)) (fips256_round k (w ! M1) v)"
    using rotate_conv_mod [of t v] rotate_conv_mod [of "Suc t" "fips256_round k (w ! M1) v"]
      rotate_conv_mod [of "Suc (t mod 8)" "fips256_round k (w ! M1) v"] assms(1) by (simp_all add: mod_Suc_eq)
  have "t mod 8 < 8" by simp
  then consider "t mod 8 = 0" | "t mod 8 = 1" | "t mod 8 = 2" | "t mod 8 = 3" | "t mod 8 = 4" | "t mod 8 = 5" | "t mod 8 = 6" | "t mod 8 = 7"
    by linarith
  then show ?thesis unfolding m r
    by cases (simp_all add: F_EXPAND_def Let_def v fips256_round_def sigmas CH_def MAJ_def rotate_drop_take)
qed

lemma length_fips256_rounds [simp]: "length h = 8 \<Longrightarrow> length (fips256_rounds M h n) = 8"
  by (induction n) (simp_all add: fips256_rounds_def)

lemma calls_are_rounds:
  assumes "length h = 8" "length M = 16" "n \<le> 64"
  shows "\<exists>w. fold F_EXPAND (take n SHA256_calls) (h, M) = (rotate n (fips256_rounds M h n), w) \<and> window (fips256_W M) n w"
  using assms(3)
proof (induction n)
  case 0
  have "fips256_W M i = M ! i" if "i < 16" for i using that by (subst fips256_W.simps) simp
  then show ?case using assms(2) window_init [of M "fips256_W M"] by (simp add: fips256_rounds_def)
next
  case (Suc n)
  let ?v = "fips256_rounds M h n"
  obtain w where w: "fold F_EXPAND (take n SHA256_calls) (h, M) = (rotate n ?v, w)" "window (fips256_W M) n w" using Suc by auto
  let ?x = "w ! (n mod 16) + (SIGMA_2 (w ! ((n + 14) mod 16)) + w ! ((n + 9) mod 16) + SIGMA_3 (w ! ((n + 1) mod 16)))"
  have x: "?x = fips256_W M (n + 16)"
    using window_nth [OF w(2), of 0] window_nth [OF w(2), of 14] window_nth [OF w(2), of 9] window_nth [OF w(2), of 1]
    by (subst fips256_W.simps) (simp add: sigmas algebra_simps)
  have "n < length SHA256_calls" using Suc.prems by (simp add: SHA256_calls_table)
  then have "fold F_EXPAND (take (Suc n) SHA256_calls) (h, M) = F_EXPAND (SHA256_calls ! n) (rotate n ?v, w)"
    by (simp add: take_Suc_conv_app_nth w(1))
  also have "\<dots> = (rotate (Suc n) (fips256_round (fips256_K ! n) (fips256_W M n) ?v), w[n mod 16 := ?x])"
    using Suc.prems F_EXPAND_round [of ?v w n] assms(1) w(2) window_nth [OF w(2), of 0] by (simp add: SHA256_calls_table window_def)
  finally show ?case using window_step [OF w(2) x] by (simp add: fips256_rounds_def)
qed

lemma SHA256_hashBlock_eq:
  assumes "length (sha_C s) = 64" "length (sha_State s) = 8"
  shows "SHA256_hashBlock s = s\<lparr>sha_State := fips256_compress (sha_State s) (block_bytes (sha_C s))\<rparr>"
proof -
  let ?M = "map (buffer_L (sha_C s)) [0..<16]"
  obtain w where "fold F_EXPAND (take 64 SHA256_calls) (sha_State s, ?M) = (rotate 64 (fips256_rounds ?M (sha_State s) 64), w)"
    using calls_are_rounds [of "sha_State s" ?M 64] assms by auto
  moreover have "take 64 SHA256_calls = SHA256_calls" by (simp add: SHA256_calls_table)
  moreover have "rotate 64 (fips256_rounds ?M (sha_State s) 64) = fips256_rounds ?M (sha_State s) 64"
    using rotate_conv_mod [of 64 "fips256_rounds ?M (sha_State s) 64"] assms by simp
  ultimately show ?thesis by (simp add: SHA256_hashBlock_def fips256_compress_def be_words_block_bytes)
qed

interpretation sha256: sha_core SHA256_hashBlock fips256_compress 8
  by unfold_locales (simp add: SHA256_hashBlock_eq fips256_compress_def)

section \<open>The digest\<close>

text \<open>The length that is hashed is the one modulo \<open>2^29\<close> bytes.\<close>

lemma SHA256_length_bytes_eq: "SHA256_length_bytes (word_of_nat n) = be_bytes64 (8 * (n mod 2 ^ 29))"
proof -
  let ?m = "8 * (n mod 2 ^ 29)"
  have "unat (push_bit 3 (word_of_nat n :: u32)) = ?m"
    using mult_mod_right [of 8 n "2 ^ 29"] by (simp add: push_bit_eq_mult unat_word_ariths unat_of_nat mod_mult_right_eq mult.commute)
  then have len: "(ucast (push_bit 3 (word_of_nat n :: u32)) :: u64) = word_of_nat ?m"
    by (simp add: word_unat_eq_iff unat_ucast_up unat_of_nat del: of_nat_mult)
  moreover have "(ucast (word_of_nat ?m :: u64) :: u8) = word_of_nat ?m"
    using byte_of_word [where 'n = 64 and k = 0 and n = ?m] by simp
  ultimately show ?thesis
    by (simp add: SHA256_length_bytes_def be_bytes64_def Let_def byte_of_word upt_rec del: of_nat_mult)
qed

text \<open>
  From \<open>2^29\<close> bytes on, 512 MiB, the length field is therefore not the one of the standard: for a message of
  exactly \<open>2^29\<close> bytes it is that of the empty message.
\<close>

lemma SHA256_length_wraps:
  "SHA256_length_bytes (word_of_nat (2 ^ 29)) = SHA256_length_bytes (word_of_nat 0) \<and>
   SHA256_length_bytes (word_of_nat (2 ^ 29)) \<noteq> be_bytes64 (8 * 2 ^ 29)"
  unfolding SHA256_length_bytes_eq by (simp add: be_bytes64_def upt_rec)

text \<open>C10: Whatever the buffer of the object held, and however a message of fewer than \<open>2^29\<close> bytes is cut into
  the pieces given to \<open>update\<close>, both \<open>final\<close> and \<open>result\<close> give the SHA-256 digest of the concatenated message as
  FIPS 180-4 defines it, and \<open>result\<close> leaves the object as it was; \<open>hash\<close> is the same for one array.\<close>

theorem sha256_correct:
  assumes "length (sha_C object) = 64" "length (concat ds) < 2 ^ 29"
  shows "\<exists>s s'. foldE SHA256_update (SHA256_init object) ds = Inr s
     \<and> SHA256_final s = Inr (fips_sha256 (concat ds), s') \<and> SHA256_result s = Inr (fips_sha256 (concat ds), s)
     \<and> SHA256_hash object (concat ds) = Inr (fips_sha256 (concat ds))"
proof -
  let ?s = "SHA256_init object"
  have ok: "sha_ok 8 ?s" "sha_BufferOffset ?s = 0" "sha_ByteCount ?s = 0" "sha_State ?s = fips256_H"
    using assms by (simp_all add: SHA256_init_def sha_ok_def fips256_H_def)
  have D: "fips_sha256 (concat ds) = digest_bytes (fst (absorb fips256_compress (sha_State ?s)
      (padded (concat ds) (SHA256_length_bytes (word_of_nat (length (concat ds)))))))"
    unfolding fips_sha256_def ok(4) SHA256_length_bytes_eq using assms(2) by simp
  show ?thesis using sha256.digest [where length_bytes = SHA256_length_bytes, OF ok(1-3) refl D]
      sha256.digest [where length_bytes = SHA256_length_bytes and ds = "[concat ds]", OF ok(1-3) _ D]
    by (auto simp: SHA256_update_def SHA256_final_def SHA256_result_def SHA256_hash_def bindE_eq_Inr)
qed

theorem sha256_correct_witness:
  "length (sha_C \<lparr>sha_C = replicate 64 7, sha_State = [], sha_ByteCount = 0 :: u32, sha_BufferOffset = 0\<rparr>) = 64
    \<and> fips_sha256 [97, 98, 99] = [186, 120, 22, 191, 143, 1, 207, 234, 65, 65, 64, 222, 93, 174, 34, 35, 176, 3, 97, 163, 150, 23, 122, 156, 180, 16, 255, 97, 242, 0, 21, 173]"
proof -
  let ?o = "\<lparr>sha_C = replicate 64 7, sha_State = [], sha_ByteCount = 0 :: u32, sha_BufferOffset = 0\<rparr>"
  have l: "length (sha_C ?o) = 64" "length (concat [[97], [98, 99 :: u8]]) < 2 ^ 29" by simp_all
  have "SHA256_hash ?o [97, 98, 99] = Inr [186, 120, 22, 191, 143, 1, 207, 234, 65, 65, 64, 222, 93, 174, 34, 35, 176, 3, 97, 163, 150, 23, 122, 156, 180, 16, 255, 97, 242, 0, 21, 173]" by code_simp
  moreover have "SHA256_hash ?o [97, 98, 99] = Inr (fips_sha256 [97, 98, 99])"
    using sha256_correct [OF l] by auto
  ultimately show ?thesis using l by simp
qed

end
