(* ===== verification/Hex_String.thy ===== *)
theory Hex_String
  imports C_Escape_Laws Word_Bits
begin

text \<open>
  Hexadecimal strings (turbo/strings/escaping.cc): printing, the lenient parser and the strict parser.
  The strict parser indexes its table with a plain \<open>char\<close> converted to \<open>size_t\<close>; with the signed
  \<open>char\<close> of the usual targets that is the sign-extended byte, and an index past the 256 entries of the
  table is a fault.
\<close>

section \<open>Tables and operations\<close>

definition kHexTable :: "u8 list" where
  "kHexTable = [
    48, 48, 48, 49, 48, 50, 48, 51, 48, 52, 48, 53, 48, 54, 48, 55, 48, 56, 48, 57, 48, 97, 48, 98, 48, 99, 48, 100, 48, 101, 48, 102,
    49, 48, 49, 49, 49, 50, 49, 51, 49, 52, 49, 53, 49, 54, 49, 55, 49, 56, 49, 57, 49, 97, 49, 98, 49, 99, 49, 100, 49, 101, 49, 102,
    50, 48, 50, 49, 50, 50, 50, 51, 50, 52, 50, 53, 50, 54, 50, 55, 50, 56, 50, 57, 50, 97, 50, 98, 50, 99, 50, 100, 50, 101, 50, 102,
    51, 48, 51, 49, 51, 50, 51, 51, 51, 52, 51, 53, 51, 54, 51, 55, 51, 56, 51, 57, 51, 97, 51, 98, 51, 99, 51, 100, 51, 101, 51, 102,
    52, 48, 52, 49, 52, 50, 52, 51, 52, 52, 52, 53, 52, 54, 52, 55, 52, 56, 52, 57, 52, 97, 52, 98, 52, 99, 52, 100, 52, 101, 52, 102,
    53, 48, 53, 49, 53, 50, 53, 51, 53, 52, 53, 53, 53, 54, 53, 55, 53, 56, 53, 57, 53, 97, 53, 98, 53, 99, 53, 100, 53, 101, 53, 102,
    54, 48, 54, 49, 54, 50, 54, 51, 54, 52, 54, 53, 54, 54, 54, 55, 54, 56, 54, 57, 54, 97, 54, 98, 54, 99, 54, 100, 54, 101, 54, 102,
    55, 48, 55, 49, 55, 50, 55, 51, 55, 52, 55, 53, 55, 54, 55, 55, 55, 56, 55, 57, 55, 97, 55, 98, 55, 99, 55, 100, 55, 101, 55, 102,
    56, 48, 56, 49, 56, 50, 56, 51, 56, 52, 56, 53, 56, 54, 56, 55, 56, 56, 56, 57, 56, 97, 56, 98, 56, 99, 56, 100, 56, 101, 56, 102,
    57, 48, 57, 49, 57, 50, 57, 51, 57, 52, 57, 53, 57, 54, 57, 55, 57, 56, 57, 57, 57, 97, 57, 98, 57, 99, 57, 100, 57, 101, 57, 102,
    97, 48, 97, 49, 97, 50, 97, 51, 97, 52, 97, 53, 97, 54, 97, 55, 97, 56, 97, 57, 97, 97, 97, 98, 97, 99, 97, 100, 97, 101, 97, 102,
    98, 48, 98, 49, 98, 50, 98, 51, 98, 52, 98, 53, 98, 54, 98, 55, 98, 56, 98, 57, 98, 97, 98, 98, 98, 99, 98, 100, 98, 101, 98, 102,
    99, 48, 99, 49, 99, 50, 99, 51, 99, 52, 99, 53, 99, 54, 99, 55, 99, 56, 99, 57, 99, 97, 99, 98, 99, 99, 99, 100, 99, 101, 99, 102,
    100, 48, 100, 49, 100, 50, 100, 51, 100, 52, 100, 53, 100, 54, 100, 55, 100, 56, 100, 57, 100, 97, 100, 98, 100, 99, 100, 100, 100, 101, 100, 102,
    101, 48, 101, 49, 101, 50, 101, 51, 101, 52, 101, 53, 101, 54, 101, 55, 101, 56, 101, 57, 101, 97, 101, 98, 101, 99, 101, 100, 101, 101, 101, 102,
    102, 48, 102, 49, 102, 50, 102, 51, 102, 52, 102, 53, 102, 54, 102, 55, 102, 56, 102, 57, 102, 97, 102, 98, 102, 99, 102, 100, 102, 101, 102, 102,
    0]"

definition kHexValueLenient :: "u8 list" where
  "kHexValueLenient = [
    0, 0, 0, 0, 0, 0, 0, 0, 0, 0, 0, 0, 0, 0, 0, 0,
    0, 0, 0, 0, 0, 0, 0, 0, 0, 0, 0, 0, 0, 0, 0, 0,
    0, 0, 0, 0, 0, 0, 0, 0, 0, 0, 0, 0, 0, 0, 0, 0,
    0, 1, 2, 3, 4, 5, 6, 7, 8, 9, 0, 0, 0, 0, 0, 0,
    0, 10, 11, 12, 13, 14, 15, 0, 0, 0, 0, 0, 0, 0, 0, 0,
    0, 0, 0, 0, 0, 0, 0, 0, 0, 0, 0, 0, 0, 0, 0, 0,
    0, 10, 11, 12, 13, 14, 15, 0, 0, 0, 0, 0, 0, 0, 0, 0,
    0, 0, 0, 0, 0, 0, 0, 0, 0, 0, 0, 0, 0, 0, 0, 0,
    0, 0, 0, 0, 0, 0, 0, 0, 0, 0, 0, 0, 0, 0, 0, 0,
    0, 0, 0, 0, 0, 0, 0, 0, 0, 0, 0, 0, 0, 0, 0, 0,
    0, 0, 0, 0, 0, 0, 0, 0, 0, 0, 0, 0, 0, 0, 0, 0,
    0, 0, 0, 0, 0, 0, 0, 0, 0, 0, 0, 0, 0, 0, 0, 0,
    0, 0, 0, 0, 0, 0, 0, 0, 0, 0, 0, 0, 0, 0, 0, 0,
    0, 0, 0, 0, 0, 0, 0, 0, 0, 0, 0, 0, 0, 0, 0, 0,
    0, 0, 0, 0, 0, 0, 0, 0, 0, 0, 0, 0, 0, 0, 0, 0,
    0, 0, 0, 0, 0, 0, 0, 0, 0, 0, 0, 0, 0, 0, 0, 0]"

definition kHexValueStrict :: "int list" where
  "kHexValueStrict = [
    - 1, - 1, - 1, - 1, - 1, - 1, - 1, - 1, - 1, - 1, - 1, - 1, - 1, - 1, - 1, - 1,
    - 1, - 1, - 1, - 1, - 1, - 1, - 1, - 1, - 1, - 1, - 1, - 1, - 1, - 1, - 1, - 1,
    - 1, - 1, - 1, - 1, - 1, - 1, - 1, - 1, - 1, - 1, - 1, - 1, - 1, - 1, - 1, - 1,
    0, 1, 2, 3, 4, 5, 6, 7, 8, 9, - 1, - 1, - 1, - 1, - 1, - 1,
    - 1, 10, 11, 12, 13, 14, 15, - 1, - 1, - 1, - 1, - 1, - 1, - 1, - 1, - 1,
    - 1, - 1, - 1, - 1, - 1, - 1, - 1, - 1, - 1, - 1, - 1, - 1, - 1, - 1, - 1, - 1,
    - 1, 10, 11, 12, 13, 14, 15, - 1, - 1, - 1, - 1, - 1, - 1, - 1, - 1, - 1,
    - 1, - 1, - 1, - 1, - 1, - 1, - 1, - 1, - 1, - 1, - 1, - 1, - 1, - 1, - 1, - 1,
    - 1, - 1, - 1, - 1, - 1, - 1, - 1, - 1, - 1, - 1, - 1, - 1, - 1, - 1, - 1, - 1,
    - 1, - 1, - 1, - 1, - 1, - 1, - 1, - 1, - 1, - 1, - 1, - 1, - 1, - 1, - 1, - 1,
    - 1, - 1, - 1, - 1, - 1, - 1, - 1, - 1, - 1, - 1, - 1, - 1, - 1, - 1, - 1, - 1,
    - 1, - 1, - 1, - 1, - 1, - 1, - 1, - 1, - 1, - 1, - 1, - 1, - 1, - 1, - 1, - 1,
    - 1, - 1, - 1, - 1, - 1, - 1, - 1, - 1, - 1, - 1, - 1, - 1, - 1, - 1, - 1, - 1,
    - 1, - 1, - 1, - 1, - 1, - 1, - 1, - 1, - 1, - 1, - 1, - 1, - 1, - 1, - 1, - 1,
    - 1, - 1, - 1, - 1, - 1, - 1, - 1, - 1, - 1, - 1, - 1, - 1, - 1, - 1, - 1, - 1,
    - 1, - 1, - 1, - 1, - 1, - 1, - 1, - 1, - 1, - 1, - 1, - 1, - 1, - 1, - 1, - 1]"

fun BytesToHexStringInternal :: "u8 list \<Rightarrow> u8 list" where
  "BytesToHexStringInternal [] = []"
| "BytesToHexStringInternal (c # src) = kHexTable ! (unat c * 2) # kHexTable ! (unat c * 2 + 1) # BytesToHexStringInternal src"

definition bytes_to_hex_string :: "u8 list \<Rightarrow> u8 list" where
  "bytes_to_hex_string bytes = BytesToHexStringInternal bytes"

definition HexStringToBytesInternal :: "u8 list \<Rightarrow> nat \<Rightarrow> u8 list" where
  "HexStringToBytesInternal hex num =
     map (\<lambda>i. push_bit 4 (kHexValueLenient ! unat ((hex ! (i * 2)) AND 0xFF)) + kHexValueLenient ! unat ((hex ! (i * 2 + 1)) AND 0xFF))
       [0..<num]"

definition hex_string_to_bytes :: "u8 list \<Rightarrow> u8 list" where
  "hex_string_to_bytes hex = HexStringToBytesInternal hex (length hex div 2)"

definition hex_value_strict :: "u8 \<Rightarrow> fault + int" where
  "hex_value_strict c =
     (let i = unat (scast c :: u64) in if i < length kHexValueStrict then Inr (kHexValueStrict ! i) else Inl Out_of_range)"

text \<open>The loop over the output; \<open>None\<close> is the return value \<open>false\<close>, which leaves the destination alone.\<close>

fun hex_strict_loop :: "u8 list \<Rightarrow> fault + u8 list option" where
  "hex_strict_loop (c # d # hex) =
     bindE (hex_value_strict c) (\<lambda>h1. bindE (hex_value_strict d) (\<lambda>h2.
       if h1 = - 1 \<or> h2 = - 1 then Inr None
       else bindE (hex_strict_loop hex) (\<lambda>r. Inr (map_option (\<lambda>out. word_of_int (h1 * 16 + h2) # out) r))))"
| "hex_strict_loop hex = Inr (Some [])"

definition hex_string_to_bytes_strict :: "u8 list \<Rightarrow> fault + u8 list option" where
  "hex_string_to_bytes_strict hex =
     (let num_bytes = length hex div 2 in
      if length hex \<noteq> num_bytes * 2 then Inr None else hex_strict_loop hex)"

section \<open>The tables\<close>

definition hex_digit_value :: "nat \<Rightarrow> nat" where
  "hex_digit_value n = (if 48 \<le> n \<and> n \<le> 57 then n - 48 else if 65 \<le> n \<and> n \<le> 70 then n - 55
     else if 97 \<le> n \<and> n \<le> 102 then n - 87 else 16)"

lemma kHexValueLenient_table: "kHexValueLenient = map (\<lambda>n. if hex_digit_value n = 16 then 0 else word_of_nat (hex_digit_value n)) [0..<256]"
  by code_simp

lemma kHexValueStrict_table: "kHexValueStrict = map (\<lambda>n. if hex_digit_value n = 16 then - 1 else int (hex_digit_value n)) [0..<256]"
  by code_simp

lemma length_kHexValueStrict [simp]: "length kHexValueStrict = 256"
  by (simp add: kHexValueStrict_table)

lemma kHexTable_table:
  "map (\<lambda>i. (kHexTable ! (i * 2), kHexTable ! (i * 2 + 1))) [0..<256] = map (\<lambda>n. (kHexChar ! (n div 16), kHexChar ! (n mod 16))) [0..<256]"
  by code_simp

lemma and_byte: "c AND 0xFF = (c :: u8)"
proof -
  have "(0xFF :: u8) = mask 8" by (simp add: mask_eq_exp_minus_1)
  then show ?thesis using take_bit_word_eq_self [of 8 c] by (simp only: take_bit_eq_mask [symmetric]) simp
qed

lemma hex_digit_value_le: "hex_digit_value n \<le> 16"
  by (auto simp: hex_digit_value_def)

lemma isxdigit_value: "ascii_isxdigit c \<longleftrightarrow> hex_digit_value (unat c) < 16"
  by (auto simp: ascii_isxdigit_range hex_digit_value_def word_le_nat_alt)

lemma sign_extended_table:
  "map (\<lambda>n. uint (scast (word_of_nat n :: u8) :: u64)) [0..<256] = map (\<lambda>n. if n < 128 then int n else int n + 18446744073709551360) [0..<256]"
  by code_simp

lemma sign_extended: "uint (scast c :: u64) = (if unat c < 128 then int (unat c) else int (unat c) + 18446744073709551360)"
  for c :: u8
  using map_eq_conv [THEN iffD1, OF sign_extended_table, rule_format, of "unat c"] byte_lt [of c] by simp

lemma hex_value_strict_ascii:
  assumes "c < 128"
  shows "hex_value_strict c = Inr (if ascii_isxdigit c then int (hex_digit_value (unat c)) else - 1)"
proof -
  have "unat (scast c :: u64) = unat c"
    using sign_extended [of c] assms by (simp add: word_less_nat_alt flip: nat_uint_eq)
  then show ?thesis using byte_range [OF kHexValueStrict_table, of c] hex_digit_value_le [of "unat c"] byte_lt [of c]
    by (auto simp: hex_value_strict_def isxdigit_value Let_def)
qed

lemma hex_value_strict_high:
  assumes "128 \<le> c"
  shows "hex_value_strict c = Inl Out_of_range"
proof -
  have "256 \<le> unat (scast c :: u64)"
    using sign_extended [of c] assms by (simp add: word_le_nat_alt flip: nat_uint_eq)
  then show ?thesis
    by (simp add: hex_value_strict_def)
qed

lemma kHexTable_digits:
  "kHexTable ! (unat c * 2) = kHexChar ! (unat c div 16)" "kHexTable ! Suc (unat c * 2) = kHexChar ! (unat c mod 16)"
  for c :: u8
  using map_eq_conv [THEN iffD1, OF kHexTable_table, rule_format, of "unat c"] byte_lt [of c] by simp_all

lemma kHexChar_value: "k < 16 \<Longrightarrow> hex_digit_value (unat (kHexChar ! k)) = k"
proof -
  have "\<forall>k \<in> set [0..<16]. hex_digit_value (unat (kHexChar ! k)) = k" by code_simp
  then show "k < 16 \<Longrightarrow> ?thesis" by simp
qed

lemma high_digit: "unat (c :: u8) div 16 < 16"
  using byte_lt [of c] by simp

lemma hex_char_class: "k < 16 \<Longrightarrow> ascii_isxdigit (kHexChar ! k) \<and> \<not> ascii_isupper (kHexChar ! k) \<and> kHexChar ! k < 128"
proof -
  have "\<forall>k \<in> set [0..<16]. ascii_isxdigit (kHexChar ! k) \<and> \<not> ascii_isupper (kHexChar ! k) \<and> kHexChar ! k < 128" by code_simp
  then show "k < 16 \<Longrightarrow> ?thesis" by simp
qed

section \<open>The parsers\<close>

text \<open>The byte that two digits stand for.\<close>

definition hex_byte :: "u8 \<Rightarrow> u8 \<Rightarrow> u8" where
  "hex_byte c d = word_of_nat (hex_digit_value (unat c) * 16 + hex_digit_value (unat d))"

lemma hex_byte_digits: "hex_byte (kHexChar ! (unat c div 16)) (kHexChar ! (unat c mod 16)) = c"
  using byte_lt [of c] kHexChar_value [of "unat c div 16"] kHexChar_value [of "unat c mod 16"] by (simp add: hex_byte_def)

lemma lenient_byte:
  assumes "ascii_isxdigit c" "ascii_isxdigit d"
  shows "push_bit 4 (kHexValueLenient ! unat c) + kHexValueLenient ! unat d = hex_byte c d"
  using assms by (simp add: byte_range [OF kHexValueLenient_table] isxdigit_value hex_byte_def push_bit_eq_mult)

lemma HexStringToBytes_Cons:
  "HexStringToBytesInternal (c # d # s) (Suc n) =
     (push_bit 4 (kHexValueLenient ! unat c) + kHexValueLenient ! unat d) # HexStringToBytesInternal s n"
  by (simp add: HexStringToBytesInternal_def and_byte map_upt_Suc comp_def del: upt_Suc)

lemma hex_strict_loop_ascii:
  "even (length s) \<Longrightarrow> \<forall>c \<in> set s. c < 128 \<Longrightarrow>
     hex_strict_loop s = Inr (if \<forall>c \<in> set s. ascii_isxdigit c then Some (hex_string_to_bytes s) else None)"
proof (induction s rule: induct_list012)
  case (3 c d s)
  then show ?case
    by (auto simp: hex_value_strict_ascii hex_string_to_bytes_def HexStringToBytes_Cons lenient_byte hex_byte_def)
qed (simp_all add: hex_string_to_bytes_def HexStringToBytesInternal_def)

lemma strict_even: "hex_string_to_bytes_strict s = (if even (length s) then hex_strict_loop s else Inr None)"
proof -
  have "length s = length s div 2 * 2 \<longleftrightarrow> even (length s)" by presburger
  then show ?thesis by (simp only: hex_string_to_bytes_strict_def Let_def not_not if_cancel) simp
qed

lemma hex_strict_loop_high:
  "even (length s) \<Longrightarrow> \<forall>c \<in> set s. c < 128 \<and> ascii_isxdigit c \<Longrightarrow> 128 \<le> d \<Longrightarrow> hex_strict_loop (s @ d # t) = Inl Out_of_range \<or> t = []"
proof (induction s rule: induct_list012)
  case 1
  then show ?case by (cases t) (simp_all add: hex_value_strict_high)
qed (auto simp: hex_value_strict_ascii)

text \<open>C39: On ASCII input the strict parser accepts exactly the strings of an even number of hexadecimal digits,
  and then agrees with the lenient parser. A byte above 127 after such a prefix is used, sign extended, as an
  index far outside the table.\<close>

theorem hex_strict_correct:
  assumes "\<forall>c \<in> set s. c < 128" "128 \<le> d"
  shows "hex_string_to_bytes_strict s =
      Inr (if even (length s) \<and> (\<forall>c \<in> set s. ascii_isxdigit c) then Some (hex_string_to_bytes s) else None)
    \<and> (even (length s) \<and> (\<forall>c \<in> set s. ascii_isxdigit c) \<longrightarrow> hex_string_to_bytes_strict (s @ [d, e]) = Inl Out_of_range)"
  using assms hex_strict_loop_ascii [of s] hex_strict_loop_high [of s d "[e]"]
  by (simp add: strict_even)

theorem hex_strict_correct_witness:
  "(52 :: u8) < 128 \<and> (66 :: u8) < 128 \<and> 128 \<le> (200 :: u8) \<and> hex_string_to_bytes_strict [52, 66] = Inr (Some [75])
     \<and> hex_string_to_bytes_strict [52, 66, 200, 48] = Inl Out_of_range"
proof -
  have h: "\<forall>c \<in> set [52 :: u8, 66]. c < 128" "128 \<le> (200 :: u8)" by simp_all
  have "ascii_isxdigit 52" "ascii_isxdigit 66" "hex_string_to_bytes [52, 66] = [75]" by code_simp+
  then show ?thesis using hex_strict_correct [OF h, of 48] h by simp
qed

text \<open>C38: Printing bytes in hexadecimal gives two digits per byte, and both parsers read them back.\<close>

theorem hex_round_trip:
  "length (bytes_to_hex_string s) = 2 * length s \<and> (\<forall>c \<in> set (bytes_to_hex_string s). ascii_isxdigit c \<and> \<not> ascii_isupper c)
    \<and> hex_string_to_bytes (bytes_to_hex_string s) = s \<and> hex_string_to_bytes_strict (bytes_to_hex_string s) = Inr (Some s)"
proof -
  have digits: "length (bytes_to_hex_string s) = 2 * length s \<and>
      (\<forall>c \<in> set (bytes_to_hex_string s). ascii_isxdigit c \<and> \<not> ascii_isupper c \<and> c < 128)"
    by (induction s) (simp_all add: bytes_to_hex_string_def kHexTable_digits hex_char_class high_digit)
  have "hex_string_to_bytes (bytes_to_hex_string s) = s"
  proof (induction s)
    case (Cons c s)
    then show ?case using hex_byte_digits [of c] kHexTable_digits [of c]
      by (simp add: bytes_to_hex_string_def hex_string_to_bytes_def HexStringToBytes_Cons lenient_byte hex_char_class high_digit)
  qed (simp add: bytes_to_hex_string_def hex_string_to_bytes_def HexStringToBytesInternal_def)
  moreover have "hex_string_to_bytes_strict (bytes_to_hex_string s) = hex_strict_loop (bytes_to_hex_string s)"
    using digits by (simp add: strict_even)
  ultimately show ?thesis using digits hex_strict_loop_ascii [of "bytes_to_hex_string s"] by simp
qed

theorem hex_round_trip_witness:
  "bytes_to_hex_string [255 :: u8, 10] = [102, 102, 48, 97] \<and> hex_string_to_bytes_strict [102, 102, 48, 97] = Inr (Some [255, 10])"
proof -
  have "bytes_to_hex_string [255, 10] = [102, 102, 48, 97]" by code_simp
  then show ?thesis using hex_round_trip [of "[255, 10]"] by simp
qed

end
