(* ===== verification/Md5.thy ===== *)
theory Md5
  imports Digest_Stream Hex_String
begin

text \<open>
  MD5 (turbo/crypto/md5.cc): the 64 steps on renamed registers, the loop over blocks, the split counter of 29
  and 32 bits, and the buffer that is filled by copying. The reference is RFC 1321.
\<close>

section \<open>The class\<close>

definition MD5_F :: "u32 \<Rightarrow> u32 \<Rightarrow> u32 \<Rightarrow> u32" where
  "MD5_F x y z = z XOR (x AND (y XOR z))"

definition MD5_G :: "u32 \<Rightarrow> u32 \<Rightarrow> u32 \<Rightarrow> u32" where
  "MD5_G x y z = y XOR (z AND (x XOR y))"

definition MD5_H :: "u32 \<Rightarrow> u32 \<Rightarrow> u32 \<Rightarrow> u32" where
  "MD5_H x y z = x XOR y XOR z"

definition MD5_I :: "u32 \<Rightarrow> u32 \<Rightarrow> u32 \<Rightarrow> u32" where
  "MD5_I x y z = y XOR (x OR NOT z)"

text \<open>The word a step adds: read from the input and kept, or read back.\<close>

datatype md5_source = SET nat | GET nat

fun md5_word :: "md5_source \<Rightarrow> u8 list \<Rightarrow> u32 list \<Rightarrow> u32 \<times> u32 list" where
  "md5_word (SET n) ptr block =
     (let x = ucast (ptr ! (n * 4)) OR push_bit 8 (ucast (ptr ! (n * 4 + 1))) OR push_bit 16 (ucast (ptr ! (n * 4 + 2)))
            OR push_bit 24 (ucast (ptr ! (n * 4 + 3)))
      in (x, block[n := x]))"
| "md5_word (GET n) ptr block = (block ! n, block)"

type_synonym md5_call = "(u32 \<Rightarrow> u32 \<Rightarrow> u32 \<Rightarrow> u32) \<times> nat list \<times> md5_source \<times> u32 \<times> nat"

text \<open>The macro \<open>STEP\<close>; the registers \<open>a\<close> to \<open>d\<close> are the entries 0 to 3 of \<open>v\<close>.\<close>

definition STEP :: "u8 list \<Rightarrow> md5_call \<Rightarrow> u32 list \<times> u32 list \<Rightarrow> u32 list \<times> u32 list" where
  "STEP ptr call vb =
     (let (f, r, source, t, s) = call; (v, block) = vb; a = r ! 0; b = r ! 1; c = r ! 2; d = r ! 3;
          (x, block) = md5_word source ptr block;
          v = v[a := v ! a + (f (v ! b) (v ! c) (v ! d) + x + t)];
          v = v[a := push_bit s (v ! a) OR drop_bit (32 - s) (v ! a AND 0xffffffff)];
          v = v[a := v ! a + v ! b]
      in (v, block))"

text \<open>The 64 steps, in the order of the source.\<close>

definition MD5_calls :: "md5_call list" where
  "MD5_calls = [
    (MD5_F, [0, 1, 2, 3], SET 0, 0xd76aa478, 7),
    (MD5_F, [3, 0, 1, 2], SET 1, 0xe8c7b756, 12),
    (MD5_F, [2, 3, 0, 1], SET 2, 0x242070db, 17),
    (MD5_F, [1, 2, 3, 0], SET 3, 0xc1bdceee, 22),
    (MD5_F, [0, 1, 2, 3], SET 4, 0xf57c0faf, 7),
    (MD5_F, [3, 0, 1, 2], SET 5, 0x4787c62a, 12),
    (MD5_F, [2, 3, 0, 1], SET 6, 0xa8304613, 17),
    (MD5_F, [1, 2, 3, 0], SET 7, 0xfd469501, 22),
    (MD5_F, [0, 1, 2, 3], SET 8, 0x698098d8, 7),
    (MD5_F, [3, 0, 1, 2], SET 9, 0x8b44f7af, 12),
    (MD5_F, [2, 3, 0, 1], SET 10, 0xffff5bb1, 17),
    (MD5_F, [1, 2, 3, 0], SET 11, 0x895cd7be, 22),
    (MD5_F, [0, 1, 2, 3], SET 12, 0x6b901122, 7),
    (MD5_F, [3, 0, 1, 2], SET 13, 0xfd987193, 12),
    (MD5_F, [2, 3, 0, 1], SET 14, 0xa679438e, 17),
    (MD5_F, [1, 2, 3, 0], SET 15, 0x49b40821, 22),
    (MD5_G, [0, 1, 2, 3], GET 1, 0xf61e2562, 5),
    (MD5_G, [3, 0, 1, 2], GET 6, 0xc040b340, 9),
    (MD5_G, [2, 3, 0, 1], GET 11, 0x265e5a51, 14),
    (MD5_G, [1, 2, 3, 0], GET 0, 0xe9b6c7aa, 20),
    (MD5_G, [0, 1, 2, 3], GET 5, 0xd62f105d, 5),
    (MD5_G, [3, 0, 1, 2], GET 10, 0x02441453, 9),
    (MD5_G, [2, 3, 0, 1], GET 15, 0xd8a1e681, 14),
    (MD5_G, [1, 2, 3, 0], GET 4, 0xe7d3fbc8, 20),
    (MD5_G, [0, 1, 2, 3], GET 9, 0x21e1cde6, 5),
    (MD5_G, [3, 0, 1, 2], GET 14, 0xc33707d6, 9),
    (MD5_G, [2, 3, 0, 1], GET 3, 0xf4d50d87, 14),
    (MD5_G, [1, 2, 3, 0], GET 8, 0x455a14ed, 20),
    (MD5_G, [0, 1, 2, 3], GET 13, 0xa9e3e905, 5),
    (MD5_G, [3, 0, 1, 2], GET 2, 0xfcefa3f8, 9),
    (MD5_G, [2, 3, 0, 1], GET 7, 0x676f02d9, 14),
    (MD5_G, [1, 2, 3, 0], GET 12, 0x8d2a4c8a, 20),
    (MD5_H, [0, 1, 2, 3], GET 5, 0xfffa3942, 4),
    (MD5_H, [3, 0, 1, 2], GET 8, 0x8771f681, 11),
    (MD5_H, [2, 3, 0, 1], GET 11, 0x6d9d6122, 16),
    (MD5_H, [1, 2, 3, 0], GET 14, 0xfde5380c, 23),
    (MD5_H, [0, 1, 2, 3], GET 1, 0xa4beea44, 4),
    (MD5_H, [3, 0, 1, 2], GET 4, 0x4bdecfa9, 11),
    (MD5_H, [2, 3, 0, 1], GET 7, 0xf6bb4b60, 16),
    (MD5_H, [1, 2, 3, 0], GET 10, 0xbebfbc70, 23),
    (MD5_H, [0, 1, 2, 3], GET 13, 0x289b7ec6, 4),
    (MD5_H, [3, 0, 1, 2], GET 0, 0xeaa127fa, 11),
    (MD5_H, [2, 3, 0, 1], GET 3, 0xd4ef3085, 16),
    (MD5_H, [1, 2, 3, 0], GET 6, 0x04881d05, 23),
    (MD5_H, [0, 1, 2, 3], GET 9, 0xd9d4d039, 4),
    (MD5_H, [3, 0, 1, 2], GET 12, 0xe6db99e5, 11),
    (MD5_H, [2, 3, 0, 1], GET 15, 0x1fa27cf8, 16),
    (MD5_H, [1, 2, 3, 0], GET 2, 0xc4ac5665, 23),
    (MD5_I, [0, 1, 2, 3], GET 0, 0xf4292244, 6),
    (MD5_I, [3, 0, 1, 2], GET 7, 0x432aff97, 10),
    (MD5_I, [2, 3, 0, 1], GET 14, 0xab9423a7, 15),
    (MD5_I, [1, 2, 3, 0], GET 5, 0xfc93a039, 21),
    (MD5_I, [0, 1, 2, 3], GET 12, 0x655b59c3, 6),
    (MD5_I, [3, 0, 1, 2], GET 3, 0x8f0ccc92, 10),
    (MD5_I, [2, 3, 0, 1], GET 10, 0xffeff47d, 15),
    (MD5_I, [1, 2, 3, 0], GET 1, 0x85845dd1, 21),
    (MD5_I, [0, 1, 2, 3], GET 8, 0x6fa87e4f, 6),
    (MD5_I, [3, 0, 1, 2], GET 15, 0xfe2ce6e0, 10),
    (MD5_I, [2, 3, 0, 1], GET 6, 0xa3014314, 15),
    (MD5_I, [1, 2, 3, 0], GET 13, 0x4e0811a1, 21),
    (MD5_I, [0, 1, 2, 3], GET 4, 0xf7537e82, 6),
    (MD5_I, [3, 0, 1, 2], GET 11, 0xbd3af235, 10),
    (MD5_I, [2, 3, 0, 1], GET 2, 0x2ad7d2bb, 15),
    (MD5_I, [1, 2, 3, 0], GET 9, 0xeb86d391, 21)]"

record md5 =
  md5_abcd :: "u32 list"
  md5_hi :: u32
  md5_lo :: u32
  md5_buffer :: "u8 list"
  md5_block :: "u32 list"

text \<open>The registers of a new object; its arrays are uninitialised.\<close>

definition MD5_new :: "u8 list \<Rightarrow> u32 list \<Rightarrow> md5" where
  "MD5_new buffer block =
     \<lparr>md5_abcd = [0x67452301, 0xefcdab89, 0x98badcfe, 0x10325476], md5_hi = 0, md5_lo = 0, md5_buffer = buffer, md5_block = block\<rparr>"

text \<open>The loop of \<open>body\<close> runs at least once and reads 64 bytes each time.\<close>

function md5_body_loop :: "u32 list \<Rightarrow> u32 list \<Rightarrow> u8 list \<Rightarrow> fault + u32 list \<times> u32 list" where
  "md5_body_loop v block ptr =
     (if length ptr < 64 then Inl Out_of_range
      else let (w, block) = fold (STEP ptr) MD5_calls (v, block); v = map2 (+) w v; ptr = drop 64 ptr in
        if ptr = [] then Inr (v, block) else md5_body_loop v block ptr)"
  by pat_completeness auto
termination by (relation "measure (\<lambda>(_, _, d). length d)") auto

declare md5_body_loop.simps [simp del]

definition MD5_body :: "md5 \<Rightarrow> u8 list \<Rightarrow> fault + md5" where
  "MD5_body s Data =
     bindE (md5_body_loop (md5_abcd s) (md5_block s) Data) (\<lambda>(v, block). Inr (s\<lparr>md5_abcd := v, md5_block := block\<rparr>))"

definition md5_copy :: "md5 \<Rightarrow> nat \<Rightarrow> u8 list \<Rightarrow> fault + md5" where
  "md5_copy s i d =
     (if i + length d > length (md5_buffer s) then Inl Out_of_range
      else Inr (s\<lparr>md5_buffer := take i (md5_buffer s) @ d @ drop (i + length d) (md5_buffer s)\<rparr>))"

text \<open>The counters, with the widths of the source: the sum is computed in 64 bits.\<close>

definition md5_count :: "md5 \<Rightarrow> nat \<Rightarrow> md5" where
  "md5_count s n =
     (let Size = (word_of_nat n :: u64); saved_lo = md5_lo s;
          lo = ucast ((ucast saved_lo + Size) AND 0x1fffffff);
          hi = (if lo < saved_lo then md5_hi s + 1 else md5_hi s) + ucast (drop_bit 29 Size)
      in s\<lparr>md5_lo := lo, md5_hi := hi\<rparr>)"

definition MD5_update_blocks :: "md5 \<Rightarrow> u8 list \<Rightarrow> fault + md5" where
  "MD5_update_blocks s Ptr =
     (if length Ptr \<ge> 64
      then let n = length Ptr div 64 * 64 in bindE (MD5_body s (take n Ptr)) (\<lambda>s. md5_copy s 0 (drop n Ptr))
      else md5_copy s 0 Ptr)"

definition MD5_update :: "md5 \<Rightarrow> u8 list \<Rightarrow> fault + md5" where
  "MD5_update s Data =
     (let used = unat (md5_lo s AND 0x3f); s = md5_count s (length Data) in
      if used \<noteq> 0
      then let free = 64 - used in
        if length Data < free then md5_copy s used Data
        else bindE (md5_copy s used (take free Data)) (\<lambda>s. bindE (MD5_body s (md5_buffer s)) (\<lambda>s.
          MD5_update_blocks s (drop free Data)))
      else MD5_update_blocks s Data)"

text \<open>The last block of \<open>final\<close>: zeroes, the length in bits, and the digest.\<close>

definition MD5_last_block :: "md5 \<Rightarrow> nat \<Rightarrow> nat \<Rightarrow> fault + u8 list \<times> md5" where
  "MD5_last_block s used free =
     bindE (md5_copy s used (replicate (free - 8) 0)) (\<lambda>s.
     let s = s\<lparr>md5_lo := push_bit 3 (md5_lo s)\<rparr> in
     bindE (md5_copy s 56 (little_endian_store32 (md5_lo s))) (\<lambda>s.
     bindE (md5_copy s 60 (little_endian_store32 (md5_hi s))) (\<lambda>s.
     bindE (MD5_body s (md5_buffer s)) (\<lambda>s.
       Inr (concat (map little_endian_store32 (md5_abcd s)), s)))))"

definition MD5_final :: "md5 \<Rightarrow> fault + u8 list \<times> md5" where
  "MD5_final s =
     (let used = unat (md5_lo s AND 0x3f) in
      bindE (md5_copy s used [0x80]) (\<lambda>s.
      let used = used + 1; free = 64 - used in
      if free < 8
      then bindE (md5_copy s used (replicate free 0)) (\<lambda>s. bindE (MD5_body s (md5_buffer s)) (\<lambda>s. MD5_last_block s 0 64))
      else MD5_last_block s used free))"

definition MD5_result :: "md5 \<Rightarrow> fault + u8 list \<times> md5" where
  "MD5_result s = bindE (MD5_final s) (\<lambda>(Hash, _). Inr (Hash, s))"

definition MD5_hash :: "md5 \<Rightarrow> u8 list \<Rightarrow> fault + u8 list" where
  "MD5_hash object Data = bindE (MD5_update object Data) (\<lambda>s. bindE (MD5_final s) (\<lambda>(Res, _). Inr Res))"

definition MD5_digest :: "u8 list \<Rightarrow> u8 list" where
  "MD5_digest Result = bytes_to_hex_string Result"

section \<open>The standard\<close>

definition rfc_T :: "u32 list" where
  "rfc_T = [
    0xd76aa478, 0xe8c7b756, 0x242070db, 0xc1bdceee, 0xf57c0faf, 0x4787c62a, 0xa8304613, 0xfd469501,
    0x698098d8, 0x8b44f7af, 0xffff5bb1, 0x895cd7be, 0x6b901122, 0xfd987193, 0xa679438e, 0x49b40821,
    0xf61e2562, 0xc040b340, 0x265e5a51, 0xe9b6c7aa, 0xd62f105d, 0x02441453, 0xd8a1e681, 0xe7d3fbc8,
    0x21e1cde6, 0xc33707d6, 0xf4d50d87, 0x455a14ed, 0xa9e3e905, 0xfcefa3f8, 0x676f02d9, 0x8d2a4c8a,
    0xfffa3942, 0x8771f681, 0x6d9d6122, 0xfde5380c, 0xa4beea44, 0x4bdecfa9, 0xf6bb4b60, 0xbebfbc70,
    0x289b7ec6, 0xeaa127fa, 0xd4ef3085, 0x04881d05, 0xd9d4d039, 0xe6db99e5, 0x1fa27cf8, 0xc4ac5665,
    0xf4292244, 0x432aff97, 0xab9423a7, 0xfc93a039, 0x655b59c3, 0x8f0ccc92, 0xffeff47d, 0x85845dd1,
    0x6fa87e4f, 0xfe2ce6e0, 0xa3014314, 0x4e0811a1, 0xf7537e82, 0xbd3af235, 0x2ad7d2bb, 0xeb86d391]"

definition rfc_F :: "nat \<Rightarrow> u32 \<Rightarrow> u32 \<Rightarrow> u32 \<Rightarrow> u32" where
  "rfc_F t x y z =
     (if t < 16 then (x AND y) OR (NOT x AND z)
      else if t < 32 then (x AND z) OR (y AND NOT z)
      else if t < 48 then x XOR y XOR z
      else y XOR (x OR NOT z))"

definition rfc_k :: "nat \<Rightarrow> nat" where
  "rfc_k t = (if t < 16 then t else if t < 32 then 5 * t + 1 else if t < 48 then 3 * t + 5 else 7 * t) mod 16"

definition rfc_s :: "nat \<Rightarrow> nat" where
  "rfc_s t = (if t < 16 then [7, 12, 17, 22] else if t < 32 then [5, 9, 14, 20] else if t < 48 then [4, 11, 16, 23] else [6, 10, 15, 21]) ! (t mod 4)"

definition rfc_round :: "u32 list \<Rightarrow> nat \<Rightarrow> u32 list \<Rightarrow> u32 list" where
  "rfc_round X t v =
     [v ! 3, v ! 1 + word_rotl (rfc_s t) (v ! 0 + rfc_F t (v ! 1) (v ! 2) (v ! 3) + X ! rfc_k t + rfc_T ! t), v ! 1, v ! 2]"

definition le_words :: "u8 list \<Rightarrow> u32 list" where
  "le_words b = map (\<lambda>i. little_endian_load32 (b ! (i * 4)) (b ! (i * 4 + 1)) (b ! (i * 4 + 2)) (b ! (i * 4 + 3))) [0..<16]"

definition rfc_rounds :: "u32 list \<Rightarrow> u32 list \<Rightarrow> nat \<Rightarrow> u32 list" where
  "rfc_rounds X h n = fold (rfc_round X) [0..<n] h"

definition rfc_compress :: "u32 list \<Rightarrow> u8 list \<Rightarrow> u32 list" where
  "rfc_compress h b = map2 (+) (rfc_rounds (le_words b) h 64) h"

definition le_bytes64 :: "nat \<Rightarrow> u8 list" where
  "le_bytes64 n = map (\<lambda>i. word_of_nat (n div 256 ^ i)) [0..<8]"

definition rfc_md5 :: "u8 list \<Rightarrow> u8 list" where
  "rfc_md5 m = concat (map little_endian_store32
     (fst (absorb rfc_compress [0x67452301, 0xefcdab89, 0x98badcfe, 0x10325476] (padded m (le_bytes64 (8 * length m))))))"

section \<open>The steps\<close>

definition md5_fn_of :: "nat \<Rightarrow> u32 \<Rightarrow> u32 \<Rightarrow> u32 \<Rightarrow> u32" where
  "md5_fn_of t = (if t < 16 then MD5_F else if t < 32 then MD5_G else if t < 48 then MD5_H else MD5_I)"

lemma MD5_calls_table:
  "MD5_calls = map (\<lambda>t. (md5_fn_of t, map (\<lambda>j. (j + 3 * t) mod 4) [0..<4], (if t < 16 then SET t else GET (rfc_k t)), rfc_T ! t, rfc_s t)) [0..<64]"
  by (simp add: MD5_calls_def md5_fn_of_def rfc_k_def rfc_s_def rfc_T_def upt_rec)

lemma md5_fn_rfc: "md5_fn_of t x y z = rfc_F t x y z"
  by (rule bit_word_eqI)
    (auto simp: md5_fn_of_def rfc_F_def MD5_F_def MD5_G_def MD5_H_def MD5_I_def bit_and_iff bit_or_iff bit_xor_iff bit_not_iff)

lemma rfc_s_range: "0 < rfc_s t \<and> rfc_s t < 32"
proof -
  have "t mod 4 = 0 \<or> t mod 4 = 1 \<or> t mod 4 = 2 \<or> t mod 4 = 3" by linarith
  then show ?thesis by (auto simp: rfc_s_def)
qed

lemma and_word_max: "x AND 0xffffffff = (x :: u32)"
proof -
  have "(0xffffffff :: u32) = mask 32" by (simp add: mask_eq_exp_minus_1)
  then show ?thesis using take_bit_word_eq_self [of 32 x] by (simp only: take_bit_eq_mask [symmetric]) simp
qed

lemma list4: "length v = 4 \<Longrightarrow> \<exists>a b c d. v = [a, b, c, d]"
  by (simp add: eval_nat_numeral length_Suc_conv) blast

lemma length_rfc_round [simp]: "length (rfc_round X t v) = 4"
  by (simp add: rfc_round_def)

lemma STEP_round:
  assumes "length v = 4" "md5_word source ptr block = (X ! rfc_k t, block')"
  shows "STEP ptr (md5_fn_of t, map (\<lambda>j. (j + 3 * t) mod 4) [0..<4], source, rfc_T ! t, rfc_s t) (rotate t v, block) =
    (rotate (Suc t) (rfc_round X t v), block')"
proof -
  obtain a b c d where v: "v = [a, b, c, d]" using list4 [OF assms(1)] by blast
  have m: "map (\<lambda>j. (j + 3 * t) mod 4) [0..<4] = map (\<lambda>j. (j + 3 * (t mod 4)) mod 4) [0..<4]"
    by (intro map_cong refl) (metis mod_add_right_eq mod_mult_right_eq)
  have r: "rotate t v = rotate (t mod 4) v" "rotate (Suc t) (rfc_round X t v) = rotate (Suc (t mod 4)) (rfc_round X t v)"
    using rotate_conv_mod [of t v] rotate_conv_mod [of "Suc t" "rfc_round X t v"]
      rotate_conv_mod [of "Suc (t mod 4)" "rfc_round X t v"] assms(1) by (simp_all add: mod_Suc_eq)
  have s: "push_bit (rfc_s t) x OR drop_bit (32 - rfc_s t) x = word_rotl (rfc_s t) x" for x :: u32
    using shifts_word_rotl [of "rfc_s t" x] rfc_s_range [of t] by simp
  consider "t mod 4 = 0" | "t mod 4 = 1" | "t mod 4 = 2" | "t mod 4 = 3" by linarith
  then show ?thesis unfolding m r
    by cases (simp_all add: STEP_def Let_def assms(2) v s and_word_max md5_fn_rfc rfc_round_def rotate_drop_take add.commute add.left_commute add.assoc)
qed

lemma le_words_nth: "n < 16 \<Longrightarrow> md5_word (SET n) ptr block = (le_words ptr ! n, block[n := le_words ptr ! n])"
  by (simp add: le_words_def little_endian_load32_def Let_def)

lemma rfc_k_less: "rfc_k t < 16"
  by (simp add: rfc_k_def)

lemma length_rfc_rounds [simp]: "length h = 4 \<Longrightarrow> length (rfc_rounds X h n) = 4"
  by (induction n) (simp_all add: rfc_rounds_def)

lemma md5_calls_are_rounds:
  assumes "length h = 4" "length block = 16" "n \<le> 64" and X_def: "X = le_words ptr"
  shows "\<exists>block'. fold (STEP ptr) (take n MD5_calls) (h, block) = (rotate n (rfc_rounds X h n), block') \<and> length block' = 16
     \<and> (\<forall>i < min n 16. block' ! i = X ! i)"
  using assms(3)
proof (induction n)
  case 0
  then show ?case using assms by (simp add: rfc_rounds_def)
next
  case (Suc n)
  let ?v = "rfc_rounds X h n"
  obtain b where b: "fold (STEP ptr) (take n MD5_calls) (h, block) = (rotate n ?v, b)" "length b = 16" "\<forall>i < min n 16. b ! i = X ! i"
    using Suc by auto
  let ?src = "if n < 16 then SET n else GET (rfc_k n)"
  obtain b2 where b2: "md5_word ?src ptr b = (X ! rfc_k n, b2)" "length b2 = 16" "\<forall>i < min (Suc n) 16. b2 ! i = X ! i"
  proof (cases "n < 16")
    case True
    have "\<forall>i < min (Suc n) 16. b[n := X ! n] ! i = X ! i" using b(2,3) True by (auto simp: less_Suc_eq nth_list_update)
    then show ?thesis using True b le_words_nth [OF True, of ptr b] by (intro that [of "b[n := X ! n]"]) (simp_all add: X_def rfc_k_def)
  next
    case False
    then show ?thesis using b rfc_k_less [of n] by (intro that [of b]) simp_all
  qed
  have "n < length MD5_calls" using Suc.prems by (simp add: MD5_calls_table)
  then have "fold (STEP ptr) (take (Suc n) MD5_calls) (h, block) = STEP ptr (MD5_calls ! n) (rotate n ?v, b)"
    by (simp add: take_Suc_conv_app_nth b(1))
  also have "\<dots> = (rotate (Suc n) (rfc_round X n ?v), b2)"
    using Suc.prems STEP_round [OF _ b2(1), of ?v] assms(1) by (simp add: MD5_calls_table split: if_splits)
  finally show ?case using b2(2,3) by (simp add: rfc_rounds_def)
qed

lemma md5_one_block:
  assumes "length h = 4" "length block = 16"
  shows "\<exists>w block'. fold (STEP ptr) MD5_calls (h, block) = (w, block') \<and> map2 (+) w h = rfc_compress h ptr \<and> length block' = 16"
proof -
  obtain block' where "fold (STEP ptr) (take 64 MD5_calls) (h, block) = (rotate 64 (rfc_rounds (le_words ptr) h 64), block')" "length block' = 16"
    using md5_calls_are_rounds [OF assms _ refl, of 64 ptr] by auto
  moreover have "take 64 MD5_calls = MD5_calls" by (simp add: MD5_calls_table)
  moreover have "rotate 64 (rfc_rounds (le_words ptr) h 64) = rfc_rounds (le_words ptr) h 64"
    using rotate_conv_mod [of 64 "rfc_rounds (le_words ptr) h 64"] assms by simp
  ultimately show ?thesis by (simp add: rfc_compress_def)
qed

lemma rfc_compress_take: "64 \<le> length b \<Longrightarrow> rfc_compress h (take 64 b) = rfc_compress h b"
proof -
  assume "64 \<le> length b"
  then have "le_words (take 64 b) = le_words b" unfolding le_words_def by (intro map_cong refl) simp
  then show ?thesis by (simp add: rfc_compress_def)
qed

lemma length_rfc_compress [simp]: "length h = 4 \<Longrightarrow> length (rfc_compress h b) = 4"
  by (simp add: rfc_compress_def)

lemma md5_body_loop_absorbs:
  "length h = 4 \<Longrightarrow> length block = 16 \<Longrightarrow> length ptr mod 64 = 0 \<Longrightarrow> ptr \<noteq> [] \<Longrightarrow>
     \<exists>h' block'. md5_body_loop h block ptr = Inr (h', block') \<and> absorb rfc_compress h ptr = (h', []) \<and> length h' = 4 \<and> length block' = 16"
proof (induction "length ptr" arbitrary: h block ptr rule: less_induct)
  case less
  have l: "64 \<le> length ptr" using less.prems(3,4) by (cases "length ptr < 64") simp_all
  obtain w block1 where w: "fold (STEP ptr) MD5_calls (h, block) = (w, block1)" "map2 (+) w h = rfc_compress h ptr" "length block1 = 16"
    using md5_one_block [OF less.prems(1,2)] by blast
  have a: "absorb rfc_compress h ptr = absorb rfc_compress (rfc_compress h ptr) (drop 64 ptr)"
    using absorb_block [of "take 64 ptr" rfc_compress h "drop 64 ptr"] l by (simp add: rfc_compress_take)
  have b: "md5_body_loop h block ptr = (if drop 64 ptr = [] then Inr (rfc_compress h ptr, block1) else md5_body_loop (rfc_compress h ptr) block1 (drop 64 ptr))"
    using l w by (subst md5_body_loop.simps) (simp add: Let_def)
  show ?case
  proof (cases "drop 64 ptr = []")
    case True
    then show ?thesis using a b less.prems(1) w(3) by simp
  next
    case False
    then show ?thesis using less.hyps [of "drop 64 ptr" "rfc_compress h ptr" block1] a b less.prems w(3) l le_mod_geq [OF l]
      by simp
  qed
qed

section \<open>The counters and the buffer\<close>

definition md5_ok :: "md5 \<Rightarrow> bool" where
  "md5_ok s \<longleftrightarrow> length (md5_abcd s) = 4 \<and> length (md5_buffer s) = 64 \<and> length (md5_block s) = 16 \<and> unat (md5_lo s) < 2 ^ 29"

definition md5_pending :: "md5 \<Rightarrow> u8 list" where
  "md5_pending s = take (unat (md5_lo s) mod 64) (md5_buffer s)"

definition md5_total :: "md5 \<Rightarrow> nat" where
  "md5_total s = unat (md5_hi s) * 2 ^ 29 + unat (md5_lo s)"

lemma and_29_bits: "unat (x AND 0x1fffffff) = unat (x :: u64) mod 2 ^ 29"
proof -
  have "x AND 0x1fffffff = take_bit 29 x" by (simp add: take_bit_eq_mask mask_eq_exp_minus_1)
  then show ?thesis by (simp only: unsigned_take_bit_eq) (simp add: take_bit_eq_mod)
qed

lemma split_sum:
  fixes l n b :: nat
  assumes "l < b"
  shows "(l + n) div b = n div b + (if (l + n) mod b < l then 1 else 0)"
proof -
  have b: "0 < b" and r: "n mod b < b" using assms by simp_all
  have n: "l + n = (l + n mod b) + n div b * b" by simp
  have "(l + n mod b + n div b * b) div b = n div b + (l + n mod b) div b" using b by (intro div_mult_self1) simp
  then have e: "(l + n) div b = n div b + (l + n mod b) div b" "(l + n) mod b = (l + n mod b) mod b"
    by (simp_all only: n [symmetric] mod_add_right_eq)
  show ?thesis
  proof (cases "l + n mod b < b")
    case True
    then show ?thesis by (simp add: e)
  next
    case False
    moreover have "l + n mod b - b < b" using assms r by linarith
    ultimately have "(l + n mod b) div b = 1" "(l + n mod b) mod b = l + n mod b - b"
      using b by (simp_all add: le_div_geq le_mod_geq not_less)
    moreover have "l + n mod b - b < l" using r False by linarith
    ultimately show ?thesis by (simp add: e)
  qed
qed

lemma mod_div_power: "n mod 2 ^ (k + j) div 2 ^ k = n div 2 ^ k mod 2 ^ j" for n :: nat
  by (simp add: power_add mod_mult2_eq)

lemma mod_low_digit: "r < b \<Longrightarrow> (q * b + r) mod (m * b) = q mod m * b + r" for q b r m :: nat
proof -
  assume "r < b"
  then have "(q * b + r) div b = q" "(q * b + r) mod b = r" by simp_all
  then show ?thesis using mod_mult2_eq [of "q * b + r" b m] by (simp only: mult.commute)
qed

lemma md5_count_total:
  assumes "md5_ok s"
  shows "unat (md5_lo (md5_count s n)) = (unat (md5_lo s) + n) mod 2 ^ 29"
    and "md5_total (md5_count s n) = (md5_total s + n) mod 2 ^ 61"
proof -
  let ?l = "unat (md5_lo s)" and ?s = "md5_count s n"
  have l: "?l < 2 ^ 29" using assms by (simp add: md5_ok_def)
  show lo: "unat (md5_lo ?s) = (?l + n) mod 2 ^ 29"
  proof -
    have "unat (ucast (md5_lo s) + word_of_nat n :: u64) mod 2 ^ 29 = (?l + n) mod 2 ^ 29"
      by (simp add: unat_word_ariths unat_of_nat unat_ucast_up mod_mod_cancel mod_add_right_eq)
    then show ?thesis by (simp add: md5_count_def Let_def unat_ucast_mod and_29_bits del: unsigned_ucast_eq)
  qed
  define c where "c = (if (?l + n) mod 2 ^ 29 < ?l then 1 else 0 :: nat)"
  have hi: "unat (md5_hi ?s) = (unat (md5_hi s) + (c + n div 2 ^ 29)) mod 2 ^ 32"
  proof -
    have "unat (ucast (drop_bit 29 (word_of_nat n :: u64)) :: u32) = n mod 2 ^ 64 div 2 ^ 29 mod 2 ^ 32"
      by (simp only: unat_ucast_mod unat_drop_bit unat_of_nat) simp
    also have "\<dots> = n div 2 ^ 29 mod 2 ^ 32"
      using mod_div_power [of n 29 35] by (simp add: mod_mod_cancel)
    finally have d: "unat (ucast (drop_bit 29 (word_of_nat n :: u64)) :: u32) = n div 2 ^ 29 mod 2 ^ 32" .
    have "md5_hi ?s = (if md5_lo ?s < md5_lo s then md5_hi s + 1 else md5_hi s) + ucast (drop_bit 29 (word_of_nat n :: u64))"
      by (simp add: md5_count_def Let_def)
    moreover have "md5_lo ?s < md5_lo s \<longleftrightarrow> c = 1" by (simp add: word_less_nat_alt lo c_def)
    ultimately have "unat (md5_hi ?s) = ((unat (md5_hi s) + c) mod 2 ^ 32 + n div 2 ^ 29 mod 2 ^ 32) mod 2 ^ 32"
      using d by (auto simp: unat_word_ariths c_def)
    then show ?thesis by (simp only: mod_add_eq add.assoc)
  qed
  have "md5_total s + n = (unat (md5_hi s) + (c + n div 2 ^ 29)) * 2 ^ 29 + (?l + n) mod 2 ^ 29"
    using split_sum [OF l, of n] div_mult_mod_eq [of "?l + n" "2 ^ 29"] unfolding md5_total_def c_def [symmetric] by (simp add: algebra_simps)
  then have "(md5_total s + n) mod 2 ^ 61 = ((unat (md5_hi s) + (c + n div 2 ^ 29)) * 2 ^ 29 + (?l + n) mod 2 ^ 29) mod (2 ^ 32 * 2 ^ 29)"
    by simp
  also have "\<dots> = (unat (md5_hi s) + (c + n div 2 ^ 29)) mod 2 ^ 32 * 2 ^ 29 + (?l + n) mod 2 ^ 29"
    by (rule mod_low_digit) simp
  finally show "md5_total ?s = (md5_total s + n) mod 2 ^ 61" by (simp only: md5_total_def lo hi)
qed

definition md5_shape :: "md5 \<Rightarrow> bool" where
  "md5_shape s \<longleftrightarrow> length (md5_abcd s) = 4 \<and> length (md5_buffer s) = 64 \<and> length (md5_block s) = 16"

definition md5_counts :: "md5 \<Rightarrow> u32 \<times> u32" where
  "md5_counts s = (md5_hi s, md5_lo s)"

lemma MD5_body_absorbs:
  assumes "md5_shape s" "length d mod 64 = 0" "d \<noteq> []"
  shows "\<exists>s'. MD5_body s d = Inr s' \<and> absorb rfc_compress (md5_abcd s) d = (md5_abcd s', []) \<and> md5_shape s'
     \<and> md5_counts s' = md5_counts s \<and> md5_buffer s' = md5_buffer s"
proof -
  obtain h b where "md5_body_loop (md5_abcd s) (md5_block s) d = Inr (h, b)" "absorb rfc_compress (md5_abcd s) d = (h, [])" "length h = 4" "length b = 16"
    using md5_body_loop_absorbs [of "md5_abcd s" "md5_block s" d] assms by (auto simp: md5_shape_def)
  then show ?thesis using assms(1) by (simp add: MD5_body_def md5_shape_def md5_counts_def)
qed

lemma md5_copy_ok:
  assumes "md5_shape s" "i + length d \<le> 64"
  shows "\<exists>s'. md5_copy s i d = Inr s' \<and> md5_shape s' \<and> md5_counts s' = md5_counts s \<and> md5_abcd s' = md5_abcd s
     \<and> md5_buffer s' = take i (md5_buffer s) @ d @ drop (i + length d) (md5_buffer s)"
  using assms by (auto simp: md5_copy_def md5_shape_def md5_counts_def)

lemma MD5_update_blocks_absorbs:
  assumes "md5_shape s"
  shows "\<exists>s'. MD5_update_blocks s d = Inr s' \<and> md5_shape s' \<and> md5_counts s' = md5_counts s \<and>
     absorb rfc_compress (md5_abcd s) d = (md5_abcd s', take (length d mod 64) (md5_buffer s'))"
proof (cases "length d < 64")
  case True
  then show ?thesis using md5_copy_ok [OF assms, of 0 d] by (auto simp: MD5_update_blocks_def)
next
  case False
  define n where "n = length d div 64 * 64"
  have n: "n \<le> length d" "length (take n d) mod 64 = 0" "take n d \<noteq> []" "length (drop n d) = length d mod 64"
    using False by (auto simp: n_def minus_div_mult_eq_mod)
  obtain s1 where s1: "MD5_body s (take n d) = Inr s1" "absorb rfc_compress (md5_abcd s) (take n d) = (md5_abcd s1, [])"
      "md5_shape s1" "md5_counts s1 = md5_counts s"
    using MD5_body_absorbs [OF assms n(2,3)] by blast
  have "length d mod 64 < 64" by simp
  then obtain s2 where s2: "md5_copy s1 0 (drop n d) = Inr s2" "md5_shape s2" "md5_counts s2 = md5_counts s1" "md5_abcd s2 = md5_abcd s1"
      "md5_buffer s2 = drop n d @ drop (length d mod 64) (md5_buffer s1)"
    using md5_copy_ok [OF s1(3), of 0 "drop n d"] n(4) by auto
  have "absorb rfc_compress (md5_abcd s) (take n d @ drop n d) = absorb rfc_compress (md5_abcd s1) ([] @ drop n d)"
    by (rule absorb_append [OF s1(2)])
  then have "absorb rfc_compress (md5_abcd s) d = (md5_abcd s1, drop n d)" using n(4) by simp
  then show ?thesis using False s1 s2 n(4) by (simp add: MD5_update_blocks_def Let_def n_def [symmetric])
qed

lemma MD5_update_absorbs:
  assumes "md5_ok s"
  shows "\<exists>s'. MD5_update s d = Inr s' \<and> md5_ok s' \<and>
     (md5_abcd s', md5_pending s') = absorb rfc_compress (md5_abcd s) (md5_pending s @ d) \<and>
     md5_total s' = (md5_total s + length d) mod 2 ^ 61"
proof -
  define used where "used = unat (md5_lo s) mod 64"
  let ?s = "md5_count s (length d)"
  have u: "unat (md5_lo s AND 0x3f) = used" "used < 64" by (simp_all add: used_def unat_and_mask)
  have sh: "md5_shape ?s" "md5_abcd ?s = md5_abcd s" "md5_buffer ?s = md5_buffer s"
    using assms by (simp_all add: md5_shape_def md5_ok_def md5_count_def Let_def)
  have bl: "length (md5_buffer s) = 64" using assms by (simp add: md5_ok_def)
  have p: "md5_pending s = take used (md5_buffer s)" by (simp add: md5_pending_def used_def)
  have left: "unat (md5_lo ?s) mod 64 = (used + length d) mod 64"
    using md5_count_total(1) [OF assms, of "length d"] by (simp add: used_def mod_mod_cancel mod_add_left_eq)
  have fin: "md5_ok s' \<and> md5_total s' = (md5_total s + length d) mod 2 ^ 61 \<and> md5_pending s' = take ((used + length d) mod 64) (md5_buffer s')"
    if "md5_shape s'" "md5_counts s' = md5_counts ?s" for s'
    using that md5_count_total [OF assms, of "length d"] left
    by (simp add: md5_ok_def md5_shape_def md5_counts_def md5_total_def md5_pending_def)
  consider "used = 0" | "used \<noteq> 0" "length d < 64 - used" | "used \<noteq> 0" "64 - used \<le> length d" by linarith
  then show ?thesis
  proof cases
    case 1
    then show ?thesis using MD5_update_blocks_absorbs [OF sh(1), of d] fin u(1) p sh by (fastforce simp: MD5_update_def Let_def)
  next
    case 2
    then have fits: "used + length d \<le> 64" by linarith
    obtain s1 where "md5_copy ?s used d = Inr s1" "md5_shape s1" "md5_counts s1 = md5_counts ?s" "md5_abcd s1 = md5_abcd s"
        "md5_buffer s1 = take used (md5_buffer s) @ d @ drop (used + length d) (md5_buffer s)"
      using md5_copy_ok [OF sh(1) fits] sh by auto
    moreover have "used + length d < 64" using 2 by linarith
    ultimately show ?thesis using fin [of s1] 2 u p bl by (simp add: MD5_update_def Let_def)
  next
    case 3
    let ?f = "64 - used"
    obtain s1 where s1: "md5_copy ?s used (take ?f d) = Inr s1" "md5_shape s1" "md5_counts s1 = md5_counts ?s" "md5_abcd s1 = md5_abcd s"
        "md5_buffer s1 = md5_pending s @ take ?f d"
      using md5_copy_ok [OF sh(1), of used "take ?f d"] 3 sh u(2) bl p by auto
    have "length (md5_buffer s1) = 64" using s1(2) by (simp add: md5_shape_def)
    then obtain s2 where s2: "MD5_body s1 (md5_buffer s1) = Inr s2" "absorb rfc_compress (md5_abcd s1) (md5_buffer s1) = (md5_abcd s2, [])"
        "md5_shape s2" "md5_counts s2 = md5_counts s1"
      using MD5_body_absorbs [OF s1(2), of "md5_buffer s1"] by fastforce
    obtain s3 where s3: "MD5_update_blocks s2 (drop ?f d) = Inr s3" "md5_shape s3" "md5_counts s3 = md5_counts s2"
        "absorb rfc_compress (md5_abcd s2) (drop ?f d) = (md5_abcd s3, take (length (drop ?f d) mod 64) (md5_buffer s3))"
      using MD5_update_blocks_absorbs [OF s2(3)] by blast
    have "absorb rfc_compress (md5_abcd s) (md5_buffer s1 @ drop ?f d) = absorb rfc_compress (md5_abcd s2) ([] @ drop ?f d)"
      using s2(2) s1(4) by (intro absorb_append) simp
    moreover have "(used + length d) mod 64 = (length d - ?f) mod 64"
      using 3 u(2) le_mod_geq [of 64 "used + length d"] by (simp add: diff_diff_right add.commute)
    ultimately show ?thesis using s1 s2 s3 fin [of s3] 3 u by (simp add: MD5_update_def Let_def)
  qed
qed

interpretation md5: block_digest rfc_compress md5_ok md5_abcd md5_pending md5_total "2 ^ 61" MD5_update
  by unfold_locales (rule MD5_update_absorbs)

section \<open>The digest\<close>

definition md5_length_bytes :: "md5 \<Rightarrow> u8 list" where
  "md5_length_bytes s = little_endian_store32 (push_bit 3 (md5_lo s)) @ little_endian_store32 (md5_hi s)"

lemma md5_length_bytes_eq:
  assumes "md5_ok s" "md5_total s mod 2 ^ 61 = n mod 2 ^ 61"
  shows "le_bytes64 (8 * n) = md5_length_bytes s"
proof -
  let ?N = "unat (md5_hi s) * 4294967296 + 8 * unat (md5_lo s)"
  have lo: "8 * unat (md5_lo s) < 4294967296" using assms(1) by (simp add: md5_ok_def)
  have "8 * n mod (8 * 2 ^ 61) = 8 * md5_total s mod (8 * 2 ^ 61)"
    using assms(2) by (simp only: mult_mod_right [symmetric])
  moreover have "8 * md5_total s = ?N" by (simp add: md5_total_def)
  ultimately have "8 * n mod 2 ^ 64 = ?N mod 2 ^ 64" by simp
  then have "(word_of_nat (8 * n) :: u64) = word_of_nat ?N" by (simp add: word_of_nat_eq_iff take_bit_eq_mod del: of_nat_mult of_nat_add)
  then have N: "(word_of_nat (8 * n div 2 ^ k) :: u8) = word_of_nat (?N div 2 ^ k)" if "k \<le> 56" for k
    using byte_of_word [where 'n = 64 and k = k and n = "8 * n"] byte_of_word [where 'n = 64 and k = k and n = ?N] that by simp
  have "(word_of_nat ?N :: u32) = push_bit 3 (md5_lo s)"
    by (simp add: word_unat_eq_iff unat_of_nat push_bit_eq_mult unat_word_ariths mult.commute del: of_nat_add of_nat_mult)
  then have L: "(word_of_nat (?N div 2 ^ k) :: u8) = ucast (drop_bit k (push_bit 3 (md5_lo s)))" if "k \<le> 24" for k
    using byte_of_word [where 'n = 32 and k = k and n = ?N] that by simp
  have "?N div 2 ^ 32 = unat (md5_hi s)" using lo by simp
  then have "?N div 2 ^ (32 + k) = unat (md5_hi s) div 2 ^ k" for k by (simp only: power_add div_mult2_eq)
  then have H: "(word_of_nat (?N div 2 ^ (32 + k)) :: u8) = ucast (drop_bit k (md5_hi s))" if "k \<le> 24" for k
    using byte_of_word [where 'n = 32 and k = k and n = "unat (md5_hi s)"] that by simp
  show ?thesis
    using N [of 0] N [of 8] N [of 16] N [of 24] N [of 32] N [of 40] N [of 48] N [of 56]
      L [of 0] L [of 8] L [of 16] L [of 24] H [of 0] H [of 8] H [of 16] H [of 24]
    by (simp add: le_bytes64_def md5_length_bytes_def little_endian_store32_def upt_rec del: of_nat_mult of_nat_add)
qed

lemma MD5_last_block_absorbs:
  assumes "md5_shape s" and q: "md5_buffer s = q @ r" "length q = k" "k \<le> 56"
  shows "\<exists>s'. MD5_last_block s k (64 - k) = Inr (concat (map little_endian_store32
     (fst (absorb rfc_compress (md5_abcd s) (q @ replicate (56 - k) 0 @ md5_length_bytes s)))), s')"
proof -
  have r: "length r = 64 - k" using assms by (auto simp: md5_shape_def)
  obtain s1 where s1: "md5_copy s k (replicate (64 - k - 8) 0) = Inr s1" "md5_shape s1" "md5_counts s1 = md5_counts s" "md5_abcd s1 = md5_abcd s"
      "md5_buffer s1 = q @ replicate (56 - k) 0 @ drop (56 - k) r"
    using md5_copy_ok [OF assms(1), of k "replicate (64 - k - 8) 0"] q by auto
  let ?s1 = "s1\<lparr>md5_lo := push_bit 3 (md5_lo s1)\<rparr>"
  have sh1: "md5_shape ?s1" using s1(2) by (simp add: md5_shape_def)
  obtain s2 where s2: "md5_copy ?s1 56 (little_endian_store32 (md5_lo ?s1)) = Inr s2" "md5_shape s2" "md5_counts s2 = md5_counts ?s1" "md5_abcd s2 = md5_abcd s"
      "md5_buffer s2 = q @ replicate (56 - k) 0 @ little_endian_store32 (md5_lo ?s1) @ drop (60 - k) r"
    using md5_copy_ok [OF sh1, of 56 "little_endian_store32 (md5_lo ?s1)"] q s1(4,5) by auto
  obtain s3 where s3: "md5_copy s2 60 (little_endian_store32 (md5_hi s2)) = Inr s3" "md5_shape s3" "md5_abcd s3 = md5_abcd s"
      "md5_buffer s3 = q @ replicate (56 - k) 0 @ little_endian_store32 (md5_lo ?s1) @ little_endian_store32 (md5_hi s2) @ drop (64 - k) r"
    using md5_copy_ok [OF s2(2), of 60 "little_endian_store32 (md5_hi s2)"] q s2(4,5) by auto
  have b: "md5_buffer s3 = q @ replicate (56 - k) 0 @ md5_length_bytes s"
    using s3(4) s1(3) s2(3) r by (simp add: md5_length_bytes_def md5_counts_def)
  have "length (md5_buffer s3) = 64" using s3(2) by (simp add: md5_shape_def)
  then obtain s4 where "MD5_body s3 (md5_buffer s3) = Inr s4" "absorb rfc_compress (md5_abcd s3) (md5_buffer s3) = (md5_abcd s4, [])"
    using MD5_body_absorbs [OF s3(2), of "md5_buffer s3"] by fastforce
  then show ?thesis using s1(1) s2(1) s3(1,3) b by (simp add: MD5_last_block_def Let_def)
qed

lemma MD5_final_absorbs:
  assumes ok: "md5_ok s" and m: "(md5_abcd s, md5_pending s) = absorb rfc_compress h m" and t: "md5_total s mod 2 ^ 61 = length m mod 2 ^ 61"
  shows "\<exists>s'. MD5_final s = Inr (concat (map little_endian_store32
     (fst (absorb rfc_compress h (padded m (le_bytes64 (8 * length m)))))), s')"
proof -
  define u where "u = unat (md5_lo s) mod 64"
  let ?L = "md5_length_bytes s" and ?p = "md5_pending s" and ?zs = "replicate (pad_zeroes (length m)) (0 :: u8)"
  have u: "unat (md5_lo s AND 0x3f) = u" "u < 64" by (simp_all add: u_def unat_and_mask)
  have sh: "md5_shape s" using ok by (simp add: md5_ok_def md5_shape_def)
  have lp: "length ?p = u" using ok u(2) by (simp add: md5_pending_def md5_ok_def u_def)
  have um: "length m mod 64 = u" using absorb_left_length [of rfc_compress h m] arg_cong [OF m, of "length \<circ> snd"] lp by simp
  have L: "le_bytes64 (8 * length m) = ?L" using md5_length_bytes_eq [OF ok t] .
  have goal: "absorb rfc_compress h (padded m (le_bytes64 (8 * length m))) = absorb rfc_compress (md5_abcd s) (?p @ [0x80] @ ?zs @ ?L)"
    using absorb_append [OF m [symmetric]] by (simp add: padded_def L)
  obtain s1 where s1: "md5_copy s u [0x80] = Inr s1" "md5_shape s1" "md5_counts s1 = md5_counts s" "md5_abcd s1 = md5_abcd s"
      "md5_buffer s1 = (?p @ [0x80]) @ drop (u + 1) (md5_buffer s)"
    using md5_copy_ok [OF sh, of u "[0x80]"] u(2) by (auto simp: md5_pending_def u_def [symmetric])
  have L1: "md5_length_bytes s' = ?L" if "md5_counts s' = md5_counts s" for s'
    using that by (simp add: md5_length_bytes_def md5_counts_def)
  show ?thesis
  proof (cases "u < 56")
    case True
    then have "pad_zeroes (length m) = 56 - (u + 1)" using le_mod_geq [of 64 "119 - u"] by (simp add: pad_zeroes_def um)
    moreover have "\<not> 63 - u < 8" using True by linarith
    ultimately show ?thesis
      using MD5_last_block_absorbs [OF s1(2,5), of "u + 1"] True lp s1 u L1 [OF s1(3)]
      by (simp add: MD5_final_def Let_def goal)
  next
    case False
    let ?f = "63 - u"
    obtain s2 where s2: "md5_copy s1 (u + 1) (replicate ?f 0) = Inr s2" "md5_shape s2" "md5_counts s2 = md5_counts s" "md5_abcd s2 = md5_abcd s"
        "md5_buffer s2 = ?p @ [0x80] @ replicate ?f 0"
      using md5_copy_ok [OF s1(2), of "u + 1" "replicate ?f 0"] u(2) s1 lp ok by (auto simp: md5_ok_def)
    have l2: "length (md5_buffer s2) = 64" using s2(2) by (simp add: md5_shape_def)
    then obtain s3 where s3: "MD5_body s2 (md5_buffer s2) = Inr s3" "absorb rfc_compress (md5_abcd s) (md5_buffer s2) = (md5_abcd s3, [])"
        "md5_shape s3" "md5_counts s3 = md5_counts s"
      using MD5_body_absorbs [OF s2(2), of "md5_buffer s2"] s2(3,4) by fastforce
    have "pad_zeroes (length m) = ?f + 56" using False u(2) by (simp add: pad_zeroes_def um)
    then have "absorb rfc_compress (md5_abcd s) (?p @ [0x80] @ ?zs @ ?L) = absorb rfc_compress (md5_abcd s3) (replicate 56 0 @ ?L)"
      using absorb_append [OF s3(2), of "replicate 56 0 @ ?L"] s2(5) by (simp add: replicate_add)
    moreover have "63 - u < 8" using False by linarith
    ultimately show ?thesis
      using MD5_last_block_absorbs [OF s3(3), of "[]" "md5_buffer s3" 0] False s1 s2 s3 u L1 [OF s3(4)]
      by (simp add: MD5_final_def Let_def goal)
  qed
qed

text \<open>C16: Whatever the arrays of the new object held, and however the message is cut into the pieces given to
  \<open>update\<close>, both \<open>final\<close> and \<open>result\<close> give the MD5 digest of the concatenated message as RFC 1321 defines it,
  for messages of any length, and \<open>result\<close> leaves the object as it was.\<close>

theorem md5_correct:
  assumes "length buffer = 64" "length block = 16"
  shows "\<exists>s s'. foldE MD5_update (MD5_new buffer block) ds = Inr s
     \<and> MD5_final s = Inr (rfc_md5 (concat ds), s') \<and> MD5_result s = Inr (rfc_md5 (concat ds), s)
     \<and> MD5_hash (MD5_new buffer block) (concat ds) = Inr (rfc_md5 (concat ds))"
proof -
  let ?s = "MD5_new buffer block"
  have ok: "md5_ok ?s" "md5_pending ?s = []" "md5_total ?s = 0" "md5_abcd ?s = [0x67452301, 0xefcdab89, 0x98badcfe, 0x10325476]"
    using assms by (simp_all add: md5_ok_def MD5_new_def md5_pending_def md5_total_def)
  have run: "\<exists>s s'. foldE MD5_update ?s es = Inr s \<and> MD5_final s = Inr (rfc_md5 (concat es), s')" for es
  proof -
    obtain s where s: "foldE MD5_update ?s es = Inr s" "md5_ok s"
        "(md5_abcd s, md5_pending s) = absorb rfc_compress (md5_abcd ?s) (concat es)" "md5_total s mod 2 ^ 61 = length (concat es) mod 2 ^ 61"
      using md5.updates_absorb [OF ok(1), of es] ok by auto
    then show ?thesis using MD5_final_absorbs [OF s(2,3,4)] by (simp add: rfc_md5_def ok(4))
  qed
  from run [of ds] run [of "[concat ds]"] show ?thesis
    by (fastforce simp: MD5_result_def MD5_hash_def bindE_eq_Inr)
qed

text \<open>The digest of the letter a, printed, is the one that tests/crypto/md5_test.cc expects.\<close>

theorem md5_correct_witness:
  "length (replicate 64 (7 :: u8)) = 64 \<and> length (replicate 16 (7 :: u32)) = 16
    \<and> MD5_digest (rfc_md5 [97]) = [48, 99, 99, 49, 55, 53, 98, 57, 99, 48, 102, 49, 98, 54, 97, 56, 51, 49, 99, 51, 57, 57, 101, 50, 54, 57, 55, 55, 50, 54, 54, 49]"
proof -
  have l: "length (replicate 64 (7 :: u8)) = 64" "length (replicate 16 (7 :: u32)) = 16" by simp_all
  have "MD5_hash (MD5_new (replicate 64 7) (replicate 16 7)) [97] = Inr [12, 193, 117, 185, 192, 241, 182, 168, 49, 195, 153, 226, 105, 119, 38, 97]" by code_simp
  moreover have "MD5_hash (MD5_new (replicate 64 7) (replicate 16 7)) [97] = Inr (rfc_md5 [97])"
    using md5_correct [OF l, of "[[97]]"] by auto
  moreover have "MD5_digest [12, 193, 117, 185, 192, 241, 182, 168, 49, 195, 153, 226, 105, 119, 38, 97] = [48, 99, 99, 49, 55, 53, 98, 57, 99, 48, 102, 49, 98, 54, 97, 56, 51, 49, 99, 51, 57, 57, 101, 50, 54, 57, 55, 55, 50, 54, 54, 49]" by code_simp
  ultimately show ?thesis by simp
qed

end
