(* ===== verification/Spec2Isabelle.thy ===== *)
theory Spec2Isabelle
  imports Bounded_Queue Circular_Queue Graph_Machine Civil_Units Cache_Order C_Escape_Laws Base64_Laws Sha1 Sha256 Md5
begin

text \<open>
  A verification library for turbo, a C++ base library of containers, strings, time, digests and
  synchronization. The theories model parts of turbo whose behaviour is sequential and determined by
  the source, each translated function by function, and prove what the part promises to its callers.
  File names below are relative to src/.

  \<^bold>\<open>Conventions.\<close> A machine integer is a word of its width (\<open>u8\<close>, \<open>u16\<close>, \<open>u32\<close>, \<open>u64\<close> of
  \<open>Prelude\<close>) wherever it can wrap or is taken apart, and \<open>int\<close> or \<open>nat\<close> where the theory says why the
  width does not matter. A string is a list of bytes. An operation that the C++ source can leave
  undefined, or that ends the process, returns a value of type \<open>fault + 'a\<close>: \<open>Inl\<close> names the fault
  (null pointer, slot out of range, dead object, failed check, endless loop), \<open>Inr\<close> is the normal return. So a
  theorem that an operation returns \<open>Inr\<close> is a theorem of memory safety and of termination too. An
  object is a \<open>record\<close> of its fields, an out parameter is a component of the result. Code is
  little-endian with a signed plain \<open>char\<close>, as on the platforms turbo is built for.

  \<^bold>\<open>Queues\<close> (\<open>Queue_Spec\<close>, \<open>Bounded_Queue\<close>, \<open>Circular_Queue\<close>). \<open>Bounded_Queue\<close> models
  turbo/container/bounded\_queue.h: constructors, \<open>push\<close>, \<open>elim_push\<close>, \<open>push_top\<close>, the four pops, \<open>clear\<close>,
  the destructor and the accessors, on a block of raw storage whose slots hold an object or none. Each
  operation keeps the invariant (exactly the slots of the window are alive), and every sequence of
  operations agrees with a bounded double-ended queue; an accepted item is delivered after the items
  before it, under every interleaving of pushes and pops. \<open>Circular_Queue\<close> models
  turbo/container/circular\_queue.h. Both are instances of the locale \<open>overwriting_queue\<close>, in which
  the theorem about the window of the most recent items is proved once. The loop of \<open>_mod\<close> is a
  partial function, shown to return for every capacity but zero.

  \<^bold>\<open>Deadlock detection\<close> (\<open>Node_Set\<close>, \<open>Rank_Order\<close>, \<open>Graph_Cycles\<close>, \<open>Graph_Order\<close>, \<open>Graph_Nodes\<close>,
  \<open>Graph_Paths\<close>, \<open>Graph_Machine\<close>). The class \<open>GraphCycles\<close> of
  turbo/synchronization/internal/graphcycles.cc, which \<open>Mutex\<close> asks whether acquiring a lock would close a
  cycle. \<open>Node_Set\<close> is its hash set with linear probing and tombstones, shown to implement finite
  sets (locale \<open>neighbour_set\<close>); growth nests at most two calls deep, which is the depth given to
  \<open>ns_insert_depth\<close>. \<open>Graph_Cycles\<close> holds the definitions: the pointer map, node creation and
  removal, the two searches, the reordering of ranks, edges, paths, and the code's own self-check.
  \<open>Graph_Order\<close> proves that an edge insertion either finds a cycle and restores the graph or
  reorders the ranks to a topological order, over the list lemmas of \<open>Rank_Order\<close>. \<open>Graph_Nodes\<close>
  proves that the bucket chains and the free list stay disjoint and complete. \<open>Graph_Paths\<close>
  shows that the path search ends and is right. \<open>Graph_Machine\<close> gathers them: a step relation of
  all calls, the invariant of its reachable states, and the properties of the interface. Vectors have
  fewer than \<open>2 ^ 31\<close> nodes, as their \<open>int32_t\<close> indices require.

  \<^bold>\<open>Civil time\<close> (\<open>Civil_Time\<close>, \<open>Civil_Calendar\<close>, \<open>Civil_Ops\<close>, \<open>Civil_Units\<close>).
  turbo/times/cctz/civil\_time\_detail.h: normalisation of fields, stepping, difference, comparison and
  weekdays for the six civil time classes. The reference is a count of days from the leap year rule.
  Fields are unbounded integers with the truncating division of C++. The locale \<open>civil_unit\<close> gives
  the laws of addition and difference for all six classes at once.

  \<^bold>\<open>Caches\<close> (\<open>Cache_Policies\<close>, \<open>Fixed_Cache\<close>, \<open>Cache_Order\<close>). The fixed size cache of
  turbo/container/cache and its replacement policies, with list iterators as node addresses, so that using
  an iterator that was erased is a fault. \<open>replacement_policy\<close> is the contract a policy owes the
  cache; FIFO, LRU, LFU and the policy without order are interpretations of it. \<open>ordered_policy\<close> extends
  it, and shows that the LRU and FIFO caches behave like one list of entries.

  \<^bold>\<open>Strings\<close> (\<open>Ascii\<close>, \<open>Ascii_Laws\<close>, \<open>C_Escape\<close>, \<open>C_Escape_Laws\<close>, \<open>Base64\<close>, \<open>Base64_Laws\<close>,
  \<open>Hex_String\<close>). Character classes, case conversion and trimming of turbo/strings/ascii.cc; C style
  escaping, Base64 and hexadecimal strings of turbo/strings/escaping.cc and
  turbo/strings/internal/escaping.cc. The tables of the sources are copied and shown equal to what they
  tabulate; the encoders are shown to be undone by the decoders; the decoders are shown to stay within
  their buffers. \<open>base64_alphabet\<close> is the contract between an alphabet and its inverse table.

  \<^bold>\<open>Digests\<close> (\<open>Word_Bits\<close>, \<open>Endian\<close>, \<open>Digest_Stream\<close>, \<open>Sha1\<close>, \<open>Sha256\<close>, \<open>Md5\<close>). The classes of
  turbo/crypto/sha1.cc, sha256.cc and md5.cc with the loads and stores of turbo/base/endian.h. The
  unrolled rounds with renamed registers are shown equal to the rounds of the standards (FIPS 180-4
  and RFC 1321), and the buffering, counting and padding of arbitrary sequences of updates equal to the
  padded message. \<open>block_digest\<close> is the contract of a streaming digest, \<open>sha_core\<close> the one a
  compression function owes the code the two SHA classes share. The padding loop runs with fuel 64, the
  size of a block, and is shown to end within it.

  \<^bold>\<open>Not modelled.\<close> Concurrency: mutexes, atomics, futexes, threads, thread-local storage and the
  lock-free containers need a model of weak memory; the locks around the modelled components make their
  operations atomic. Operating system interfaces: files, processes, signals, sockets, clocks, time zone files,
  logging sinks, stack traces. Vendored libraries: CRoaring, the HAT-trie and CLI11. Floating point:
  conversions, half floats, distributions, durations. Template machinery, allocators and the general containers
  (hash tables, B-trees, vectors), which appear in the model as the lists and maps that their clients see. Hash
  functions, cyclic redundancy checks and random bit generators, whose only contract is their own
  definition or that of a processor instruction. Cords and string assembly.
\<close>

end
